(* ===== verification/Bus_Prelude.thy ===== *)
theory Bus_Prelude
  imports Main "HOL-Library.Word"
begin

text \<open>
  What every component of the development shares: the machine integers of the source as
  words, panics as values, slices and array writes with Rust's bounds checks, the
  little-endian conversions of the standard library, and the wall clock.
\<close>

unbundle bit_operations_syntax

section \<open>Machine integers\<close>

type_synonym u8 = "8 word"
type_synonym u16 = "16 word"
type_synonym u32 = "32 word"
type_synonym u64 = "64 word"

named_theorems size_consts "the sizes and capacities of the program as numerals"

text \<open>\<open>u64::MAX\<close>, \<open>u32::MAX\<close> and the saturating addition the wait loops use.\<close>

abbreviation U64_MAX :: u64 where
  "U64_MAX \<equiv> - 1"

definition saturating_add :: "'a::len word \<Rightarrow> 'a word \<Rightarrow> 'a word" where
  "saturating_add a b = (if a + b < a then - 1 else a + b)"

lemma unat_U64_MAX: "unat U64_MAX = 2 ^ 64 - 1"
  by (simp add: unsigned_minus_1_eq_mask mask_eq_exp_minus_1)

lemma unat_u64_bound: "unat (x :: u64) < 2 ^ 64"
  by (rule order.strict_trans2 [OF unsigned_less]) simp

text \<open>Adding one does not wrap unless the word is the greatest.\<close>

lemma unat_Suc_word: "x \<noteq> - 1 \<Longrightarrow> unat (x + 1) = Suc (unat x)" for x :: "'a::len word"
  by (metis add.inverse_inverse add_eq_0_iff unatSuc add.commute plus_1_eq_Suc semiring_1_class.of_nat_1)

lemma u64_add_one: "unat (x :: u64) + 1 < 2 ^ 64 \<Longrightarrow> unat (x + 1) = unat x + 1"
  by (simp add: unat_plus_if')

lemma saturating_add_mono: "a \<le> saturating_add a b" for a :: "'a::len word"
  by (auto simp: saturating_add_def not_less)

section \<open>Panics as values\<close>

text \<open>
  A Rust expression returns a value or panics (an index out of range, a slice out of
  range, \<open>unwrap\<close> on an error). \<open>obind\<close> sequences two such expressions.
\<close>

datatype 'a outcome = Ret 'a | Panic

primrec obind :: "'a outcome \<Rightarrow> ('a \<Rightarrow> 'b outcome) \<Rightarrow> 'b outcome" where
  "obind (Ret x) f = f x"
| "obind Panic f = Panic"

lemma obind_assoc: "obind (obind m f) g = obind m (\<lambda>x. obind (f x) g)"
  by (cases m) simp_all

lemma obind_Ret [simp]: "obind m Ret = m"
  by (cases m) simp_all

lemma obind_eq_Ret_iff: "obind m f = Ret y \<longleftrightarrow> (\<exists>x. m = Ret x \<and> f x = Ret y)"
  by (cases m) simp_all

text \<open>The \<open>?\<close> operator on an \<open>Option\<close> inside a function returning \<open>Option\<close>.\<close>

definition try_some :: "'a option \<Rightarrow> ('a \<Rightarrow> 'b option outcome) \<Rightarrow> 'b option outcome" where
  "try_some v f = (case v of None \<Rightarrow> Ret None | Some x \<Rightarrow> f x)"

lemma try_some_simps [simp]:
  "try_some None f = Ret None"
  "try_some (Some x) f = f x"
  by (simp_all add: try_some_def)

section \<open>Slices and array writes\<close>

text \<open>\<open>xs[i]\<close>, \<open>&xs[a..b]\<close> and \<open>xs[a..b].copy_from_slice(src)\<close>, with their panics.\<close>

definition index :: "'a list \<Rightarrow> nat \<Rightarrow> 'a outcome" where
  "index xs i = (if i < length xs then Ret (xs ! i) else Panic)"

definition slice :: "nat \<Rightarrow> nat \<Rightarrow> 'a list \<Rightarrow> 'a list outcome" where
  "slice a b xs = (if a \<le> b \<and> b \<le> length xs then Ret (take (b - a) (drop a xs)) else Panic)"

definition index_set :: "'a list \<Rightarrow> nat \<Rightarrow> 'a \<Rightarrow> 'a list outcome" where
  "index_set xs i x = (if i < length xs then Ret (xs[i := x]) else Panic)"

definition copy_from_slice :: "nat \<Rightarrow> nat \<Rightarrow> 'a list \<Rightarrow> 'a list \<Rightarrow> 'a list outcome" where
  "copy_from_slice a b src xs =
     (if a \<le> b \<and> b \<le> length xs \<and> length src = b - a
      then Ret (take a xs @ src @ drop b xs) else Panic)"

lemma index_Ret [simp]: "i < length xs \<Longrightarrow> index xs i = Ret (xs ! i)"
  by (simp add: index_def)

lemma slice_Ret [simp]: "a \<le> b \<Longrightarrow> b \<le> length xs \<Longrightarrow> slice a b xs = Ret (take (b - a) (drop a xs))"
  by (simp add: slice_def)

lemma index_set_Ret [simp]: "i < length xs \<Longrightarrow> index_set xs i x = Ret (xs[i := x])"
  by (simp add: index_set_def)

lemma copy_from_slice_Ret [simp]:
  "a \<le> b \<Longrightarrow> b \<le> length xs \<Longrightarrow> length src = b - a \<Longrightarrow>
   copy_from_slice a b src xs = Ret (take a xs @ src @ drop b xs)"
  by (simp add: copy_from_slice_def)

text \<open>Adjacent slices join.\<close>

lemma take_take_drop: "a + b = c \<Longrightarrow> take a xs @ take b (drop a xs) = take c xs"
  by (metis take_add)

lemma slices_join:
  "a \<le> b \<Longrightarrow> b \<le> c \<Longrightarrow> take (b - a) (drop a xs) @ take (c - b) (drop b xs) = take (c - a) (drop a xs)"
  using take_take_drop [of "b - a" "c - b" "c - a" "drop a xs"] by simp

text \<open>Two numbers of a window as wide as the modulus are equal when their remainders are.\<close>

lemma mod_window_eq: "k \<le> n \<Longrightarrow> n < k + m \<Longrightarrow> k mod m = n mod m \<Longrightarrow> k = n" for k n m :: nat
  using mod_eq_dvd_iff_nat [of k n m] by (auto dest: dvd_imp_le)

section \<open>Little-endian bytes\<close>

text \<open>
  \<open>to_le_bytes n w\<close> is \<open>w.to_le_bytes()\<close> of an \<open>n\<close>-byte integer, \<open>from_le_bytes\<close> its
  inverse; \<open>le_array n bs\<close> is \<open>bs.try_into().ok()\<close> into an \<open>n\<close>-byte array followed by
  \<open>from_le_bytes\<close>.
\<close>

fun to_le_bytes :: "nat \<Rightarrow> 'a::len word \<Rightarrow> u8 list" where
  "to_le_bytes 0 w = []"
| "to_le_bytes (Suc n) w = ucast w # to_le_bytes n (drop_bit 8 w)"

fun from_le_bytes :: "u8 list \<Rightarrow> 'a::len word" where
  "from_le_bytes [] = 0"
| "from_le_bytes (b # bs) = ucast b OR push_bit 8 (from_le_bytes bs)"

definition le_array :: "nat \<Rightarrow> u8 list \<Rightarrow> 'a::len word option" where
  "le_array n bs = (if length bs = n then Some (from_le_bytes bs) else None)"

lemma length_to_le_bytes [simp]: "length (to_le_bytes n w) = n"
  by (induction n arbitrary: w) simp_all

lemma to_le_bytes_Nil_iff [simp]: "to_le_bytes n w = [] \<longleftrightarrow> n = 0"
  by (metis length_0_conv length_to_le_bytes)

lemma from_to_le_bytes_take: "from_le_bytes (to_le_bytes n w) = take_bit (8 * n) w"
proof (induction n arbitrary: w)
  case 0
  then show ?case by simp
next
  case (Suc n)
  have "from_le_bytes (to_le_bytes (Suc n) w) =
      ucast (ucast w :: u8) OR push_bit 8 (take_bit (8 * n) (drop_bit 8 w))"
    by (simp add: Suc.IH)
  also have "\<dots> = take_bit (8 * Suc n) w"
    by (rule bit_word_eqI) (auto simp: bit_simps)
  finally show ?case .
qed

lemma from_to_le_bytes [simp]:
  "8 * n = LENGTH('a) \<Longrightarrow> from_le_bytes (to_le_bytes n w) = (w :: 'a::len word)"
  by (simp add: from_to_le_bytes_take)

lemma bit_from_le_bytes: "bit (from_le_bytes bs :: 'a::len word) i \<Longrightarrow> i < 8 * length bs"
proof (induction bs arbitrary: i)
  case Nil
  then show ?case by simp
next
  case (Cons b bs)
  then show ?case
    by (fastforce simp: bit_simps dest: Cons.IH bit_imp_le_length)
qed

lemma to_from_le_bytes:
  "8 * length bs \<le> LENGTH('a) \<Longrightarrow> to_le_bytes (length bs) (from_le_bytes bs :: 'a::len word) = bs"
proof (induction bs)
  case Nil
  then show ?case by simp
next
  case (Cons b bs)
  let ?r = "from_le_bytes bs :: 'a word"
  have low: "ucast (ucast b OR push_bit 8 ?r) = b"
    using Cons.prems by (intro bit_word_eqI) (auto simp: bit_simps dest: bit_imp_le_length)
  have high: "drop_bit 8 (ucast b OR push_bit 8 ?r) = ?r"
    using Cons.prems
    by (intro bit_word_eqI) (auto simp: bit_simps dest: bit_imp_le_length bit_from_le_bytes)
  have ih: "to_le_bytes (length bs) ?r = bs"
    using Cons by simp
  show ?case
    by (simp only: list.size from_le_bytes.simps to_le_bytes.simps add_Suc_right add_0_right low high ih)
qed

lemma le_array_to_le_bytes [simp]:
  "8 * n = LENGTH('a) \<Longrightarrow> le_array n (to_le_bytes n w) = Some (w :: 'a::len word)"
  by (simp add: le_array_def)

lemma le_array_Some_iff:
  "8 * n = LENGTH('a) \<Longrightarrow> le_array n bs = Some (w :: 'a::len word) \<longleftrightarrow> bs = to_le_bytes n w"
  by (metis from_to_le_bytes le_array_def length_to_le_bytes option.distinct(1) option.inject
      order_refl to_from_le_bytes)

lemma le_array_length: "length bs = n \<Longrightarrow> le_array n bs = Some (from_le_bytes bs)"
  by (simp add: le_array_def)

section \<open>The clock\<close>

text \<open>
  One reading of \<open>SystemTime::now().duration_since(UNIX_EPOCH)\<close>: the nanoseconds since
  the epoch, or \<open>None\<close> when the clock is before it. \<open>as_nanos() as u64\<close> truncates.
\<close>

type_synonym clock = "nat option"

abbreviation as_u64 :: "nat \<Rightarrow> u64" where
  "as_u64 n \<equiv> word_of_nat n"

section \<open>Hash maps\<close>

text \<open>
  A \<open>HashMap\<close> is its entries in the order its iterator yields them, an association list
  with distinct keys; \<open>map_of\<close> is \<open>get\<close>. The order is not specified by the library, and
  nothing proved depends on where \<open>insert\<close> puts an entry.
\<close>

type_synonym ('k, 'v) HashMap = "('k \<times> 'v) list"

definition hash_map_wf :: "('k, 'v) HashMap \<Rightarrow> bool" where
  "hash_map_wf m \<longleftrightarrow> distinct (map fst m)"

definition hash_remove :: "'k \<Rightarrow> ('k, 'v) HashMap \<Rightarrow> ('k, 'v) HashMap" where
  "hash_remove k m = filter (\<lambda>e. fst e \<noteq> k) m"

definition hash_insert :: "'k \<Rightarrow> 'v \<Rightarrow> ('k, 'v) HashMap \<Rightarrow> ('k, 'v) HashMap" where
  "hash_insert k v m = hash_remove k m @ [(k, v)]"

lemma map_of_hash_remove [simp]: "map_of (hash_remove k m) = (map_of m)(k := None)"
  by (rule ext, induction m) (auto simp: hash_remove_def)

lemma map_of_hash_insert [simp]: "map_of (hash_insert k v m) = (map_of m)(k \<mapsto> v)"
  by (rule ext) (simp add: hash_insert_def map_add_def split: option.split)

lemma hash_map_wf_simps [simp]:
  "hash_map_wf []"
  "hash_map_wf m \<Longrightarrow> hash_map_wf (hash_remove k m)"
  "hash_map_wf m \<Longrightarrow> hash_map_wf (hash_insert k v m)"
  by (auto simp: hash_map_wf_def hash_insert_def hash_remove_def distinct_map_filter)

lemma hash_map_mem_iff: "hash_map_wf m \<Longrightarrow> (k, v) \<in> set m \<longleftrightarrow> map_of m k = Some v"
  by (simp add: hash_map_wf_def)

end
