(* ===== verification/Channel_Config.thy ===== *)
theory Channel_Config
  imports Bus_Prelude
begin

text \<open>
  The channel directory (\<open>protocol/src/config.rs\<close>). The file system and the TOML parser are not part of the repository: \<open>load\<close>
  takes them as arguments.
\<close>

record ChannelConfig =
  price_ticks :: "(u32, string) HashMap"
  order_book :: "(u32, string) HashMap"
  signals :: "(u32, string) HashMap"
  system :: "(u32, string) HashMap"

definition config_wf :: "ChannelConfig \<Rightarrow> bool" where
  "config_wf c \<longleftrightarrow> hash_map_wf (price_ticks c) \<and> hash_map_wf (order_book c) \<and>
                 hash_map_wf (signals c) \<and> hash_map_wf (system c)"

text \<open>\<open>load\<close>: read the file, then parse it; each \<open>?\<close> returns the boxed error.\<close>

definition load :: "(string \<Rightarrow> 'e + string) \<Rightarrow> (string \<Rightarrow> 'e + ChannelConfig) \<Rightarrow> string \<Rightarrow> 'e + ChannelConfig" where
  "load read_to_string from_str path =
     (case read_to_string path of
        Inl e \<Rightarrow> Inl e
      | Inr contents \<Rightarrow>
          (case from_str contents of Inl e \<Rightarrow> Inl e | Inr config \<Rightarrow> Inr config))"

definition or_else :: "'a option \<Rightarrow> 'a option \<Rightarrow> 'a option" where
  "or_else a b = (case a of None \<Rightarrow> b | Some x \<Rightarrow> Some x)"

definition name_for :: "ChannelConfig \<Rightarrow> u32 \<Rightarrow> string option" where
  "name_for c ch =
     or_else (or_else (or_else (map_of (price_ticks c) ch) (map_of (order_book c) ch))
                      (map_of (signals c) ch))
             (map_of (system c) ch)"

definition all_channel_ids :: "ChannelConfig \<Rightarrow> u32 list" where
  "all_channel_ids c =
     map fst (price_ticks c) @ map fst (order_book c) @ map fst (signals c) @ map fst (system c)"

lemma or_else_None_iff [simp]: "or_else a b = None \<longleftrightarrow> a = None \<and> b = None"
  by (simp add: or_else_def split: option.splits)

lemma or_else_assoc: "or_else (or_else a b) c = or_else a (or_else b c)"
  by (simp add: or_else_def split: option.splits)

lemma map_add_or_else: "(m ++ n) k = or_else (n k) (m k)"
  by (simp add: or_else_def map_add_def)

lemma count_list_distinct: "distinct xs \<Longrightarrow> count_list xs x = (if x \<in> set xs then 1 else 0)"
  by (induction xs) auto

text \<open>
  A channel has a name exactly when its id is listed, and the groups take precedence
  in the order price ticks, order book, signals, system: \<open>name_for\<close> is the lookup in the
  override of the four maps.
\<close>

lemma name_for_spec:
  "(name_for c ch \<noteq> None \<longleftrightarrow> ch \<in> set (all_channel_ids c)) \<and>
   name_for c = map_of (system c) ++ map_of (signals c) ++ map_of (order_book c) ++ map_of (price_ticks c)"
proof
  show "name_for c ch \<noteq> None \<longleftrightarrow> ch \<in> set (all_channel_ids c)"
    by (auto simp: name_for_def all_channel_ids_def map_of_eq_None_iff)
  show "name_for c = map_of (system c) ++ map_of (signals c) ++ map_of (order_book c) ++ map_of (price_ticks c)"
    by (rule ext) (simp add: name_for_def map_add_or_else or_else_assoc)
qed

text \<open>
  \<open>all_channel_ids\<close> lists every id of every group; an id listed in several groups is
  listed once for each of them, never more.
\<close>

lemma all_channel_ids_count:
  "config_wf c \<Longrightarrow>
   count_list (all_channel_ids c) ch =
     length (filter (\<lambda>m. map_of m ch \<noteq> None) [price_ticks c, order_book c, signals c, system c])"
proof -
  have one: "count_list (map fst m) ch = (if map_of m ch \<noteq> None then 1 else 0)"
    if "hash_map_wf m" for m :: "(u32, string) HashMap"
    using that by (auto simp: hash_map_wf_def map_of_eq_None_iff count_list_distinct)
  assume "config_wf c"
  then show ?thesis
    by (simp add: config_wf_def all_channel_ids_def one)
qed

end
