(* ===== verification/Ring.thy ===== *)
theory Ring
  imports Bus_Prelude
begin

text \<open>
  The ring buffer (\<open>bus/src/ring.rs\<close>): its constants, errors, slots, cursors, and one
  definition per method. Each definition is the method run without interference; the
  interleaved accesses are the subject of a theory of their own. Integers are 64-bit words.
  The consumers add one with \<open>wrapping_add\<close>, \<open>publish\<close> with \<open>+\<close>, which wraps in the release build
  the Dockerfile makes and would panic in a debug build at \<open>u64::MAX\<close>. The padding fields
  carry no data and are left out.
\<close>

section \<open>Constants and errors\<close>

definition RING_SIZE :: nat where
  "RING_SIZE = push_bit 16 1"

definition RING_MASK :: u64 where
  "RING_MASK = as_u64 (RING_SIZE - 1)"

definition PAYLOAD_CAP :: nat where
  "PAYLOAD_CAP = 1024"

definition MAX_CONSUMERS :: nat where
  "MAX_CONSUMERS = 64"

definition CONSUMER_FREE :: u64 where
  "CONSUMER_FREE = U64_MAX"

datatype PublishError = SlowConsumer | PayloadTooLarge
datatype ConsumerError = FellBehind
datatype RegisterError = Full

section \<open>Slots and cursors\<close>

record SlotData =
  d_channel_id :: u32
  d_msg_type :: u8
  d_payload_len :: u16
  d_timestamp_ns :: u64
  d_payload :: "u8 list"

definition slot_zeroed :: SlotData where
  "slot_zeroed = \<lparr>d_channel_id = 0, d_msg_type = 0, d_payload_len = 0, d_timestamp_ns = 0,
                  d_payload = replicate PAYLOAD_CAP 0\<rparr>"

record Slot =
  seq :: u64
  data :: SlotData

text \<open>A \<open>Cursor\<close> and a \<open>ConsumerEntry\<close> are one atomic counter each.\<close>

type_synonym Cursor = u64
type_synonym ConsumerEntry = u64

definition cursor_new :: Cursor where
  "cursor_new = 0"

definition consumer_entry_new :: ConsumerEntry where
  "consumer_entry_new = CONSUMER_FREE"

record Ring =
  slots :: "Slot list"
  producer_seq :: Cursor
  consumers :: "ConsumerEntry list"

definition ring_new :: Ring where
  "ring_new = \<lparr>slots = map (\<lambda>_. \<lparr>seq = 0, data = slot_zeroed\<rparr>) [0..<RING_SIZE],
               producer_seq = cursor_new,
               consumers = map (\<lambda>_. consumer_entry_new) [0..<MAX_CONSUMERS]\<rparr>"

text \<open>\<open>(s & RING_MASK) as usize\<close>: the slot of a sequence number.\<close>

definition slot_index :: "u64 \<Rightarrow> nat" where
  "slot_index s = unat (s AND RING_MASK)"

section \<open>Consumer registration\<close>

text \<open>The \<open>for\<close> loop of \<open>register_consumer\<close>: the first entry whose exchange succeeds.\<close>

fun claim_free :: "u64 \<Rightarrow> nat \<Rightarrow> ConsumerEntry list \<Rightarrow> (nat \<times> ConsumerEntry list) option" where
  "claim_free start i [] = None"
| "claim_free start i (c # cs) =
     (if c = CONSUMER_FREE then Some (i, start # cs)
      else (case claim_free start (Suc i) cs of
              None \<Rightarrow> None
            | Some (j, cs') \<Rightarrow> Some (j, c # cs')))"

definition register_consumer :: "Ring \<Rightarrow> (RegisterError + nat) \<times> Ring" where
  "register_consumer r =
     (let start = producer_seq r in
      case claim_free start 0 (consumers r) of
        Some (i, cs) \<Rightarrow> (Inr i, r\<lparr>consumers := cs\<rparr>)
      | None \<Rightarrow> (Inl Full, r))"

definition unregister_consumer :: "Ring \<Rightarrow> nat \<Rightarrow> Ring" where
  "unregister_consumer r cid =
     (if cid < length (consumers r)
      then r\<lparr>consumers := (consumers r)[cid := CONSUMER_FREE]\<rparr> else r)"

section \<open>Publishing\<close>

fun scan_min :: "u64 \<Rightarrow> ConsumerEntry list \<Rightarrow> u64" where
  "scan_min m [] = m"
| "scan_min m (v # vs) = scan_min (if v < m then v else m) vs"

definition min_consumer_cursor :: "Ring \<Rightarrow> u64" where
  "min_consumer_cursor r = scan_min U64_MAX (consumers r)"

text \<open>\<open>now_ns\<close> of this file: a clock before the epoch reads as 0.\<close>

definition now_ns :: "clock \<Rightarrow> u64" where
  "now_ns clk = (case clk of None \<Rightarrow> 0 | Some ns \<Rightarrow> as_u64 ns)"

text \<open>
  The write to \<open>slot.data\<close>. \<open>copy_nonoverlapping\<close> overwrites the first
  \<open>payload.len()\<close> bytes of the slot's array and leaves the rest as it was.
\<close>

definition write_slot_data :: "clock \<Rightarrow> u32 \<Rightarrow> u8 \<Rightarrow> u8 list \<Rightarrow> SlotData \<Rightarrow> SlotData" where
  "write_slot_data clk ch mt payload d =
     d\<lparr>d_channel_id := ch, d_msg_type := mt,
       d_payload_len := word_of_nat (length payload),
       d_timestamp_ns := now_ns clk,
       d_payload := payload @ drop (length payload) (d_payload d)\<rparr>"

definition publish ::
  "Ring \<Rightarrow> clock \<Rightarrow> u32 \<Rightarrow> u8 \<Rightarrow> u8 list \<Rightarrow> (PublishError + unit) \<times> Ring" where
  "publish r clk ch mt payload =
     (if length payload > PAYLOAD_CAP then (Inl PayloadTooLarge, r)
      else
        let s = producer_seq r;
            slowest = min_consumer_cursor r
        in if slowest \<noteq> U64_MAX \<and> as_u64 RING_SIZE \<le> s - slowest then (Inl SlowConsumer, r)
           else
             let i = slot_index s;
                 slot = slots r ! i;
                 slot = slot\<lparr>data := write_slot_data clk ch mt payload (data slot)\<rparr>;
                 slot = slot\<lparr>seq := s + 1\<rparr>
             in (Inr (), r\<lparr>slots := (slots r)[i := slot], producer_seq := s + 1\<rparr>))"

section \<open>Consuming\<close>

text \<open>
  The callback \<open>f\<close> is handed the slot's data; \<open>e\<close> is what it captures by reference and
  may change. \<open>self.consumers[consumer_id]\<close> panics out of range.
\<close>

definition try_consume ::
  "Ring \<Rightarrow> nat \<Rightarrow> (SlotData \<Rightarrow> 'e \<Rightarrow> 'e outcome) \<Rightarrow> 'e
     \<Rightarrow> ((ConsumerError + bool) \<times> Ring \<times> 'e) outcome" where
  "try_consume r cid f e =
     obind (index (consumers r) cid) (\<lambda>nxt.
       let slot = slots r ! slot_index nxt;
           expected = nxt + 1;
           s = seq slot
       in if s < expected then Ret (Inr False, r, e)
          else if s > expected then Ret (Inl FellBehind, r, e)
          else obind (f (data slot) e) (\<lambda>e'.
               Ret (Inr True, r\<lparr>consumers := (consumers r)[cid := nxt + 1]\<rparr>, e')))"

text \<open>
  \<open>consume_one\<close> spins on \<open>slot.seq\<close>. What the \<open>i\<close>-th load returns is up to the other
  threads, so the loop takes the sequence of loaded values; \<open>None\<close> is a loop that never
  ends. The list records the hints issued between two loads.
\<close>

datatype hint = SpinLoop | YieldNow

definition backoff_hint :: "u32 \<Rightarrow> hint" where
  "backoff_hint backoff =
     (if backoff < 64 then SpinLoop else if backoff < 4096 then SpinLoop else YieldNow)"

partial_function (option) wait_slot ::
  "(nat \<Rightarrow> u64) \<Rightarrow> u64 \<Rightarrow> u32 \<Rightarrow> nat \<Rightarrow> hint list \<Rightarrow> ((ConsumerError + unit) \<times> nat \<times> hint list) option" where
  "wait_slot load expected backoff i hs =
     (if load i = expected then Some (Inr (), i, hs)
      else if load i > expected then Some (Inl FellBehind, i, hs)
      else wait_slot load expected (saturating_add backoff 1) (Suc i) (hs @ [backoff_hint backoff]))"

text \<open>
  The whole method: \<open>env i\<close> is the shared ring when the \<open>i\<close>-th load happens. The slot is
  read, and the cursor stored, in the ring the successful load saw.
\<close>

definition consume_one ::
  "(nat \<Rightarrow> Ring) \<Rightarrow> nat \<Rightarrow> (SlotData \<Rightarrow> 'e \<Rightarrow> 'e outcome) \<Rightarrow> 'e
     \<Rightarrow> ((ConsumerError + unit) \<times> Ring \<times> 'e) outcome option" where
  "consume_one env cid f e =
     (case index (consumers (env 0)) cid of
        Panic \<Rightarrow> Some Panic
      | Ret nxt \<Rightarrow>
          let idx = slot_index nxt; expected = nxt + 1 in
          (case wait_slot (\<lambda>i. seq (slots (env i) ! idx)) expected 0 0 [] of
             None \<Rightarrow> None
           | Some (Inl err, i, hs) \<Rightarrow> Some (Ret (Inl err, env i, e))
           | Some (Inr _, i, hs) \<Rightarrow>
               Some (obind (f (data (slots (env i) ! idx)) e) (\<lambda>e'.
                 Ret (Inr (), (env i)\<lparr>consumers := (consumers (env i))[cid := nxt + 1]\<rparr>, e')))))"

definition producer_head :: "Ring \<Rightarrow> u64" where
  "producer_head r = producer_seq r"

section \<open>Facts about the pieces\<close>

lemma RING_SIZE_eq [size_consts]: "RING_SIZE = 65536"
  by (simp add: RING_SIZE_def)

declare PAYLOAD_CAP_def [size_consts] MAX_CONSUMERS_def [size_consts]

lemma RING_SIZE_pos [simp]: "0 < RING_SIZE" "RING_SIZE \<noteq> 0"
  by (simp_all add: RING_SIZE_eq)

lemma RING_MASK_eq: "RING_MASK = mask 16"
  by (simp add: RING_MASK_def RING_SIZE_eq mask_eq_exp_minus_1)

text \<open>Masking is the remainder, so the unchecked slot access is always in range.\<close>

lemma slot_index_mod: "slot_index s = unat s mod RING_SIZE"
  by (simp add: slot_index_def RING_MASK_eq RING_SIZE_eq take_bit_eq_mask [symmetric]
      unsigned_take_bit_eq) (simp add: take_bit_eq_mod)

lemma slot_index_less [simp]: "slot_index s < RING_SIZE"
  by (simp add: slot_index_mod)

lemma ring_new_simps [simp]:
  "length (slots ring_new) = RING_SIZE"
  "i < RING_SIZE \<Longrightarrow> slots ring_new ! i = \<lparr>seq = 0, data = slot_zeroed\<rparr>"
  "producer_seq ring_new = 0"
  "consumers ring_new = replicate MAX_CONSUMERS CONSUMER_FREE"
  by (simp_all add: ring_new_def cursor_new_def consumer_entry_new_def map_replicate_const)

lemma scan_min_Min: "scan_min m vs = Min (insert m (set vs))"
proof (induction vs arbitrary: m)
  case (Cons v vs)
  then show ?case
    by (cases "set vs = {}") (auto simp: min_def not_less insert_commute)
qed simp

lemma scan_min_le: "v \<in> insert m (set vs) \<Longrightarrow> scan_min m vs \<le> v"
  by (simp add: scan_min_Min)

lemma scan_min_in: "scan_min m vs \<in> insert m (set vs)"
  unfolding scan_min_Min by (rule Min_in) simp_all

text \<open>What \<open>claim_free\<close> does: it claims the first free entry, or there is none.\<close>

lemma claim_free_None: "claim_free start i cs = None \<longleftrightarrow> CONSUMER_FREE \<notin> set cs"
proof (induction cs arbitrary: i)
  case (Cons c cs)
  show ?case
    using Cons.IH [of "Suc i"] by (cases "claim_free start (Suc i) cs") auto
qed simp

lemma claim_free_Some:
  "claim_free start i cs = Some (j, cs') \<Longrightarrow>
   \<exists>k. j = i + k \<and> k < length cs \<and> cs ! k = CONSUMER_FREE \<and>
       (\<forall>l<k. cs ! l \<noteq> CONSUMER_FREE) \<and> cs' = cs[k := start]"
proof (induction cs arbitrary: i j cs')
  case (Cons c cs)
  show ?case
  proof (cases "c = CONSUMER_FREE")
    case True
    with Cons.prems show ?thesis by (intro exI [of _ 0]) auto
  next
    case False
    with Cons.prems obtain cs'' where cf: "claim_free start (Suc i) cs = Some (j, cs'')"
      and cs': "cs' = c # cs''"
      by (auto split: option.splits)
    from Cons.IH [OF cf] obtain k where "j = Suc i + k" "k < length cs" "cs ! k = CONSUMER_FREE"
      "\<forall>l<k. cs ! l \<noteq> CONSUMER_FREE" "cs'' = cs[k := start]"
      by blast
    with False cs' show ?thesis
      by (intro exI [of _ "Suc k"]) (auto simp: nth_Cons split: nat.splits)
  qed
qed simp

end
