(* ===== verification/Ring_Log.thy ===== *)
theory Ring_Log
  imports Ring
begin

text \<open>
  What the ring promises, and that it keeps the promise. The abstract machine is a log of
  all messages ever published and, for each registered consumer, its position in the log.
  \<open>ring_rel\<close> says which ring represents which log; every method of the ring simulates the
  abstract operation. The bound in \<open>ring_rel\<close> is the range in which the 64-bit counters
  do not meet the sentinel \<open>u64::MAX\<close>.
\<close>

section \<open>The abstract log\<close>

record Msg =
  m_channel_id :: u32
  m_msg_type :: u8
  m_timestamp_ns :: u64
  m_payload :: "u8 list"

text \<open>The message a publication leaves in the log: the caller's, stamped with the bus's clock.\<close>

definition stamped :: "clock \<Rightarrow> u32 \<Rightarrow> u8 \<Rightarrow> u8 list \<Rightarrow> Msg" where
  "stamped clk ch mt payload =
     \<lparr>m_channel_id = ch, m_msg_type = mt, m_timestamp_ns = now_ns clk, m_payload = payload\<rparr>"

record Log =
  msgs :: "Msg list"
  positions :: "nat option list"

definition lagging :: "Log \<Rightarrow> bool" where
  "lagging a \<longleftrightarrow>
     list_ex (\<lambda>p. case p of None \<Rightarrow> False | Some k \<Rightarrow> k + RING_SIZE \<le> length (msgs a)) (positions a)"

definition log_publish :: "Log \<Rightarrow> Msg \<Rightarrow> (PublishError + unit) \<times> Log" where
  "log_publish a m =
     (if PAYLOAD_CAP < length (m_payload m) then (Inl PayloadTooLarge, a)
      else if lagging a then (Inl SlowConsumer, a)
      else (Inr (), a\<lparr>msgs := msgs a @ [m]\<rparr>))"

definition log_advance :: "Log \<Rightarrow> nat \<Rightarrow> Log" where
  "log_advance a cid = a\<lparr>positions := (positions a)[cid := map_option Suc (positions a ! cid)]\<rparr>"

definition log_consume :: "Log \<Rightarrow> nat \<Rightarrow> Msg option \<times> Log" where
  "log_consume a cid =
     (case positions a ! cid of
        None \<Rightarrow> (None, a)
      | Some k \<Rightarrow> if k < length (msgs a) then (Some (msgs a ! k), log_advance a cid) else (None, a))"

definition log_register :: "Log \<Rightarrow> (RegisterError + nat) \<times> Log" where
  "log_register a =
     (case find (\<lambda>i. positions a ! i = None) [0..<length (positions a)] of
        None \<Rightarrow> (Inl Full, a)
      | Some i \<Rightarrow> (Inr i, a\<lparr>positions := (positions a)[i := Some (length (msgs a))]\<rparr>))"

definition log_unregister :: "Log \<Rightarrow> nat \<Rightarrow> Log" where
  "log_unregister a cid = a\<lparr>positions := (positions a)[cid := None]\<rparr>"

definition log_new :: Log where
  "log_new = \<lparr>msgs = [], positions = replicate MAX_CONSUMERS None\<rparr>"

lemma m_payload_stamped [simp]: "m_payload (stamped clk ch mt payload) = payload"
  by (simp add: stamped_def)

section \<open>The ring represents a log\<close>

definition msg_of_data :: "SlotData \<Rightarrow> Msg" where
  "msg_of_data d =
     \<lparr>m_channel_id = d_channel_id d, m_msg_type = d_msg_type d, m_timestamp_ns = d_timestamp_ns d,
      m_payload = take (unat (d_payload_len d)) (d_payload d)\<rparr>"

definition data_ok :: "SlotData \<Rightarrow> bool" where
  "data_ok d \<longleftrightarrow> length (d_payload d) = PAYLOAD_CAP \<and> unat (d_payload_len d) \<le> PAYLOAD_CAP"

definition slot_holds :: "Slot \<Rightarrow> nat \<Rightarrow> Msg \<Rightarrow> bool" where
  "slot_holds s k m \<longleftrightarrow> unat (seq s) = Suc k \<and> msg_of_data (data s) = m"

definition ring_shape :: "Ring \<Rightarrow> bool" where
  "ring_shape r \<longleftrightarrow> length (slots r) = RING_SIZE \<and> length (consumers r) = MAX_CONSUMERS \<and>
                  (\<forall>i<RING_SIZE. data_ok (data (slots r ! i)))"

definition slots_rel :: "Msg list \<Rightarrow> Slot list \<Rightarrow> bool" where
  "slots_rel ms ss \<longleftrightarrow>
     (\<forall>k<length ms. length ms \<le> k + RING_SIZE \<longrightarrow> slot_holds (ss ! (k mod RING_SIZE)) k (ms ! k)) \<and>
     (\<forall>k<RING_SIZE. length ms \<le> k \<longrightarrow> seq (ss ! k) = 0)"

definition cursor_rel :: "nat \<Rightarrow> nat option \<Rightarrow> u64 \<Rightarrow> bool" where
  "cursor_rel n p c \<longleftrightarrow>
     (case p of None \<Rightarrow> c = CONSUMER_FREE | Some k \<Rightarrow> unat c = k \<and> k \<le> n \<and> n \<le> k + RING_SIZE)"

definition ring_rel :: "Log \<Rightarrow> Ring \<Rightarrow> bool" where
  "ring_rel a r \<longleftrightarrow>
     ring_shape r \<and> length (msgs a) < 2 ^ 64 - 1 \<and> unat (producer_seq r) = length (msgs a) \<and>
     slots_rel (msgs a) (slots r) \<and>
     list_all2 (cursor_rel (length (msgs a))) (positions a) (consumers r)"

lemma ring_relD:
  assumes "ring_rel a r"
  shows "ring_shape r" "length (msgs a) < 2 ^ 64 - 1" "unat (producer_seq r) = length (msgs a)"
    "slots_rel (msgs a) (slots r)"
    "list_all2 (cursor_rel (length (msgs a))) (positions a) (consumers r)"
    "length (positions a) = MAX_CONSUMERS"
  using assms by (auto simp: ring_rel_def ring_shape_def dest: list_all2_lengthD)

lemma cursor_rel_simps [simp]:
  "cursor_rel n None c \<longleftrightarrow> c = CONSUMER_FREE"
  "cursor_rel n (Some k) c \<longleftrightarrow> unat c = k \<and> k \<le> n \<and> n \<le> k + RING_SIZE"
  by (simp_all add: cursor_rel_def)

lemma data_ok_zeroed: "data_ok slot_zeroed"
  by (simp add: data_ok_def slot_zeroed_def)

lemma ring_rel_new: "ring_rel log_new ring_new"
  by (simp add: ring_rel_def log_new_def ring_shape_def slots_rel_def data_ok_zeroed
      list_all2_conv_all_nth)

section \<open>Publishing\<close>

lemma lagging_iff:
  "lagging a \<longleftrightarrow> (\<exists>k. Some k \<in> set (positions a) \<and> k + RING_SIZE \<le> length (msgs a))"
  by (auto simp: lagging_def list_ex_iff split: option.splits)

text \<open>The scan of the cursor table finds a lagging consumer exactly when there is one.\<close>

lemma backpressure_iff:
  assumes rel: "ring_rel a r"
  shows "(min_consumer_cursor r \<noteq> U64_MAX \<and> as_u64 RING_SIZE \<le> producer_seq r - min_consumer_cursor r)
         \<longleftrightarrow> lagging a" (is "?slow \<longleftrightarrow> _")
proof -
  let ?n = "length (msgs a)" and ?m = "min_consumer_cursor r"
  note [simp] = ring_relD(3) [OF rel]
  have n: "?n < 2 ^ 64 - 1" and cs: "list_all2 (cursor_rel ?n) (positions a) (consumers r)"
    using rel by (simp_all add: ring_rel_def)
  have m_in: "?m \<in> insert U64_MAX (set (consumers r))"
    unfolding min_consumer_cursor_def by (rule scan_min_in)
  have m_cons: "\<exists>k. Some k \<in> set (positions a) \<and> unat ?m = k \<and> k \<le> ?n" if "?m \<noteq> U64_MAX"
  proof -
    from that m_in have "?m \<in> set (consumers r)" by simp
    then obtain i where i: "i < length (consumers r)" "consumers r ! i = ?m"
      by (auto simp: in_set_conv_nth)
    with cs have "cursor_rel ?n (positions a ! i) ?m" "i < length (positions a)"
      by (auto simp: list_all2_conv_all_nth)
    with that show ?thesis
      by (cases "positions a ! i") (auto simp: CONSUMER_FREE_def dest: nth_mem)
  qed
  show ?thesis
  proof
    assume slow: ?slow
    then obtain k where k: "Some k \<in> set (positions a)" "unat ?m = k" "k \<le> ?n"
      using m_cons by blast
    then have "unat (producer_seq r - ?m) = ?n - k"
      by (simp add: unat_sub word_le_nat_alt)
    with slow k have "RING_SIZE \<le> ?n - k"
      by (simp add: word_le_nat_alt RING_SIZE_eq)
    with k show "lagging a"
      by (auto simp: lagging_iff)
  next
    assume "lagging a"
    then obtain i k where i: "i < length (positions a)" "positions a ! i = Some k" "k + RING_SIZE \<le> ?n"
      by (auto simp: lagging_iff in_set_conv_nth)
    with cs have c: "unat (consumers r ! i) = k" "i < length (consumers r)"
      by (auto simp: list_all2_conv_all_nth)
    then have "?m \<le> consumers r ! i"
      unfolding min_consumer_cursor_def by (intro scan_min_le) simp
    with c have mk: "unat ?m \<le> k"
      by (simp add: word_le_nat_alt)
    have "?m \<noteq> U64_MAX"
      using mk i n unat_U64_MAX by auto
    moreover from mk i have "as_u64 RING_SIZE \<le> producer_seq r - ?m"
      by (simp add: word_le_nat_alt unat_sub RING_SIZE_eq)
    ultimately show ?slow by simp
  qed
qed

lemma msg_of_write_slot_data:
  assumes "length payload \<le> PAYLOAD_CAP" and "data_ok d"
  shows "msg_of_data (write_slot_data clk ch mt payload d) = stamped clk ch mt payload"
    and "data_ok (write_slot_data clk ch mt payload d)"
proof -
  have "unat (word_of_nat (length payload) :: u16) = length payload"
    using assms(1) by (simp add: PAYLOAD_CAP_def unat_of_nat take_bit_nat_eq_self)
  then show "msg_of_data (write_slot_data clk ch mt payload d) = stamped clk ch mt payload"
    and "data_ok (write_slot_data clk ch mt payload d)"
    using assms by (simp_all add: msg_of_data_def write_slot_data_def data_ok_def stamped_def)
qed

lemma publish_consumers: "consumers (snd (publish r clk ch mt payload)) = consumers r"
  by (simp add: publish_def Let_def)

lemma publish_refused: "fst (publish r clk ch mt payload) = Inl e \<Longrightarrow> snd (publish r clk ch mt payload) = r"
  by (auto simp: publish_def Let_def split: if_splits)

text \<open>Writing sequence number \<open>n\<close> keeps the last \<open>RING_SIZE\<close> messages in their slots.\<close>

lemma slots_rel_publish:
  assumes "slots_rel ms ss" and "length ss = RING_SIZE" and "slot_holds s (length ms) m"
  shows "slots_rel (ms @ [m]) (ss[length ms mod RING_SIZE := s])"
  unfolding slots_rel_def
proof (intro conjI allI impI)
  let ?n = "length ms"
  fix k assume k: "k < length (ms @ [m])" "length (ms @ [m]) \<le> k + RING_SIZE"
  show "slot_holds (ss[?n mod RING_SIZE := s] ! (k mod RING_SIZE)) k ((ms @ [m]) ! k)"
  proof (cases "k = ?n")
    case True
    with assms show ?thesis by simp
  next
    case False
    with k have "k mod RING_SIZE \<noteq> ?n mod RING_SIZE"
      using mod_window_eq [of k ?n RING_SIZE] by auto
    with False k assms(1) show ?thesis
      by (auto simp: slots_rel_def nth_append)
  qed
next
  fix k assume "k < RING_SIZE" "length (ms @ [m]) \<le> k"
  with assms(1) show "seq (ss[length ms mod RING_SIZE := s] ! k) = 0"
    by (simp add: slots_rel_def)
qed

lemma publish_sim:
  assumes rel: "ring_rel a r" and room: "Suc (length (msgs a)) < 2 ^ 64 - 1"
  shows "fst (publish r clk ch mt payload) = fst (log_publish a (stamped clk ch mt payload)) \<and>
         ring_rel (snd (log_publish a (stamped clk ch mt payload))) (snd (publish r clk ch mt payload))"
proof (cases "PAYLOAD_CAP < length payload \<or> lagging a")
  case True
  then show ?thesis
    using rel backpressure_iff [OF rel] by (auto simp: publish_def log_publish_def Let_def)
next
  case False
  let ?n = "length (msgs a)" and ?s = "producer_seq r" and ?m = "stamped clk ch mt payload"
  let ?i = "slot_index ?s"
  let ?slot = "slots r ! ?i"
  let ?new = "?slot\<lparr>data := write_slot_data clk ch mt payload (data ?slot), seq := ?s + 1\<rparr>"
  have s: "unat ?s = ?n" "unat (?s + 1) = Suc ?n" and i: "?i = ?n mod RING_SIZE"
    using rel room by (simp_all add: ring_rel_def u64_add_one slot_index_mod)
  have shape: "ring_shape r" and sl: "slots_rel (msgs a) (slots r)"
    and cs: "list_all2 (cursor_rel ?n) (positions a) (consumers r)"
    using rel by (simp_all add: ring_rel_def)
  then have ok: "data_ok (data ?slot)"
    by (simp add: ring_shape_def)
  have "publish r clk ch mt payload = (Inr (), r\<lparr>slots := (slots r)[?i := ?new], producer_seq := ?s + 1\<rparr>)"
    using False backpressure_iff [OF rel] by (auto simp: publish_def Let_def)
  moreover have "log_publish a ?m = (Inr (), a\<lparr>msgs := msgs a @ [?m]\<rparr>)"
    using False by (simp add: log_publish_def)
  moreover have "slots_rel (msgs a @ [?m]) ((slots r)[?i := ?new])"
    unfolding i by (rule slots_rel_publish)
      (use sl shape s ok False in
        \<open>auto simp: ring_shape_def slot_holds_def msg_of_write_slot_data i\<close>)
  moreover have "list_all2 (cursor_rel (Suc ?n)) (positions a) (consumers r)"
  proof (rule list_all2_all_nthI)
    show "length (positions a) = length (consumers r)"
      using cs by (rule list_all2_lengthD)
    fix j assume j: "j < length (positions a)"
    with cs have "cursor_rel ?n (positions a ! j) (consumers r ! j)"
      by (rule list_all2_nthD)
    moreover have "\<not> k + RING_SIZE \<le> ?n" if "positions a ! j = Some k" for k
      using False j that by (metis lagging_iff nth_mem)
    ultimately show "cursor_rel (Suc ?n) (positions a ! j) (consumers r ! j)"
      by (cases "positions a ! j") force+
  qed
  moreover have "ring_shape (r\<lparr>slots := (slots r)[?i := ?new], producer_seq := ?s + 1\<rparr>)"
    using shape ok False by (auto simp: ring_shape_def nth_list_update msg_of_write_slot_data)
  ultimately show ?thesis
    using s room by (simp add: ring_rel_def)
qed

section \<open>Consuming\<close>

text \<open>
  What a registered consumer finds in the slot of its next sequence number: the message
  with that number, or an older stamp when there is none yet. It never finds a newer one.
\<close>

lemma next_slot:
  assumes rel: "ring_rel a r" and cid: "cid < MAX_CONSUMERS" and p: "positions a ! cid = Some k"
  defines "slot \<equiv> slots r ! slot_index (consumers r ! cid)"
  shows "unat (consumers r ! cid) = k" and "unat (consumers r ! cid + 1) = Suc k"
    and "k < length (msgs a) \<Longrightarrow> slot_holds slot k (msgs a ! k)"
    and "length (msgs a) \<le> k \<Longrightarrow> unat (seq slot) < Suc k"
    and "data_ok (data slot)"
proof -
  let ?n = "length (msgs a)"
  have n: "?n < 2 ^ 64 - 1" and sl: "slots_rel (msgs a) (slots r)"
    using rel by (simp_all add: ring_rel_def)
  have c: "unat (consumers r ! cid) = k \<and> k \<le> ?n \<and> ?n \<le> k + RING_SIZE"
    using list_all2_nthD [OF ring_relD(5) [OF rel], of cid] ring_relD(6) [OF rel] cid p by simp
  then show "unat (consumers r ! cid) = k" by simp
  from c n show "unat (consumers r ! cid + 1) = Suc k"
    by (subst u64_add_one) simp_all
  have idx: "slot = slots r ! (k mod RING_SIZE)"
    using c by (simp add: slot_def slot_index_mod)
  show "slot_holds slot k (msgs a ! k)" if "k < ?n"
    using sl that c by (simp add: slots_rel_def idx)
  show "unat (seq slot) < Suc k" if "?n \<le> k"
  proof (cases "k < RING_SIZE")
    case True
    with sl that show ?thesis by (simp add: slots_rel_def idx)
  next
    case False
    have "k - RING_SIZE < ?n" "?n \<le> k - RING_SIZE + RING_SIZE"
      using that c False RING_SIZE_pos(1) by (linarith, simp)
    with sl have
      "slot_holds (slots r ! ((k - RING_SIZE) mod RING_SIZE)) (k - RING_SIZE) (msgs a ! (k - RING_SIZE))"
      by (simp add: slots_rel_def)
    moreover have "(k - RING_SIZE) mod RING_SIZE = k mod RING_SIZE"
      using False by (simp add: le_mod_geq not_less)
    ultimately show ?thesis
      using \<open>k - RING_SIZE < ?n\<close> that by (simp add: slot_holds_def idx)
  qed
  show "data_ok (data slot)"
    using ring_relD(1) [OF rel] by (simp add: ring_shape_def slot_def)
qed

definition advance :: "Ring \<Rightarrow> nat \<Rightarrow> Ring" where
  "advance r cid = r\<lparr>consumers := (consumers r)[cid := consumers r ! cid + 1]\<rparr>"

lemma advance_rel:
  assumes rel: "ring_rel a r" and cid: "cid < MAX_CONSUMERS" and p: "positions a ! cid = Some k"
    and k: "k < length (msgs a)"
  shows "ring_rel (log_advance a cid) (advance r cid)"
proof -
  have "cursor_rel (length (msgs a)) (Some (Suc k)) (consumers r ! cid + 1)"
    using next_slot(2) [OF rel cid p] k list_all2_nthD [OF ring_relD(5) [OF rel], of cid]
      ring_relD(6) [OF rel] cid p by simp
  then have "list_all2 (cursor_rel (length (msgs a)))
      ((positions a)[cid := Some (Suc k)]) ((consumers r)[cid := consumers r ! cid + 1])"
    by (intro list_all2_update_cong ring_relD(5) [OF rel])
  then show ?thesis
    using rel p by (simp add: ring_rel_def log_advance_def advance_def ring_shape_def)
qed

lemma try_consume_ready:
  assumes rel: "ring_rel a r" and cid: "cid < MAX_CONSUMERS" and p: "positions a ! cid = Some k"
    and k: "k < length (msgs a)"
  shows "\<exists>d. data_ok d \<and> msg_of_data d = msgs a ! k \<and>
             try_consume r cid f e = obind (f d e) (\<lambda>e'. Ret (Inr True, advance r cid, e'))"
proof -
  let ?c = "consumers r ! cid"
  let ?slot = "slots r ! slot_index ?c"
  have len: "cid < length (consumers r)"
    using ring_relD(1) [OF rel] cid by (simp add: ring_shape_def)
  have "unat (seq ?slot) = unat (?c + 1)" "msg_of_data (data ?slot) = msgs a ! k"
    using next_slot(2,3) [OF rel cid p] k by (simp_all add: slot_holds_def)
  then have "seq ?slot = ?c + 1" "msg_of_data (data ?slot) = msgs a ! k"
    by (simp_all add: word_unat_eq_iff)
  then show ?thesis
    using len next_slot(5) [OF rel cid p]
    by (intro exI [of _ "data ?slot"]) (simp add: try_consume_def advance_def)
qed

lemma try_consume_empty:
  assumes rel: "ring_rel a r" and cid: "cid < MAX_CONSUMERS" and p: "positions a ! cid = Some k"
    and k: "length (msgs a) \<le> k"
  shows "try_consume r cid f e = Ret (Inr False, r, e)"
proof -
  have "cid < length (consumers r)"
    using ring_relD(1) [OF rel] cid by (simp add: ring_shape_def)
  moreover have "seq (slots r ! slot_index (consumers r ! cid)) < consumers r ! cid + 1"
    using next_slot(2,4) [OF rel cid p] k by (simp add: word_less_nat_alt)
  ultimately show ?thesis
    by (simp add: try_consume_def)
qed

section \<open>Registering and unregistering\<close>

lemma position_free_iff:
  assumes rel: "ring_rel a r" and i: "i < MAX_CONSUMERS"
  shows "positions a ! i = None \<longleftrightarrow> consumers r ! i = CONSUMER_FREE"
proof (cases "positions a ! i")
  case None
  then show ?thesis
    using list_all2_nthD [OF ring_relD(5) [OF rel], of i] ring_relD(6) [OF rel] i by simp
next
  case (Some k)
  then have "unat (consumers r ! i) \<le> length (msgs a)"
    using list_all2_nthD [OF ring_relD(5) [OF rel], of i] ring_relD(6) [OF rel] i by simp
  with Some show ?thesis
    using ring_relD(2) [OF rel] unat_U64_MAX by (auto simp: CONSUMER_FREE_def)
qed

lemma find_upt_Some:
  "find P [0..<n] = Some i \<longleftrightarrow> i < n \<and> P i \<and> (\<forall>j<i. \<not> P j)"
  by (auto simp: find_Some_iff)

lemma register_sim:
  assumes rel: "ring_rel a r"
  shows "fst (register_consumer r) = fst (log_register a) \<and>
         ring_rel (snd (log_register a)) (snd (register_consumer r))"
proof -
  have len: "length (positions a) = MAX_CONSUMERS" "length (consumers r) = MAX_CONSUMERS"
    using ring_relD(1,6) [OF rel] by (simp_all add: ring_shape_def)
  show ?thesis
  proof (cases "claim_free (producer_seq r) 0 (consumers r)")
    case None
    then have "find (\<lambda>i. positions a ! i = None) [0..<length (positions a)] = None"
      using position_free_iff [OF rel] len
      by (auto simp: claim_free_None find_None_iff in_set_conv_nth)
    with None rel show ?thesis
      by (simp add: register_consumer_def log_register_def)
  next
    case (Some jc)
    obtain i cs where jc: "jc = (i, cs)" by (cases jc)
    from claim_free_Some [OF Some [unfolded jc]]
    have i: "i < MAX_CONSUMERS" "consumers r ! i = CONSUMER_FREE"
      "\<forall>l<i. consumers r ! l \<noteq> CONSUMER_FREE" "cs = (consumers r)[i := producer_seq r]"
      by (auto simp: len)
    then have "find (\<lambda>i. positions a ! i = None) [0..<length (positions a)] = Some i"
      using position_free_iff [OF rel] len by (simp add: find_upt_Some)
    moreover have "list_all2 (cursor_rel (length (msgs a)))
        ((positions a)[i := Some (length (msgs a))]) ((consumers r)[i := producer_seq r])"
      using ring_relD(3,5) [OF rel] by (intro list_all2_update_cong) simp_all
    ultimately show ?thesis
      using rel Some i jc
      by (simp add: register_consumer_def log_register_def ring_rel_def ring_shape_def)
  qed
qed

lemma unregister_sim:
  assumes rel: "ring_rel a r"
  shows "ring_rel (log_unregister a cid) (unregister_consumer r cid)"
proof -
  have "list_all2 (cursor_rel (length (msgs a)))
      ((positions a)[cid := None]) ((consumers r)[cid := CONSUMER_FREE])"
    by (intro list_all2_update_cong ring_relD(5) [OF rel]) simp
  then show ?thesis
    using rel by (auto simp: ring_rel_def ring_shape_def unregister_consumer_def log_unregister_def
        list_update_beyond)
qed

end
