(* ===== verification/Ring_Conc.thy ===== *)
theory Ring_Conc
  imports Ring_Log
begin

text \<open>
  The ring under interleaving. One producer at a time (the publish lock) and the threads of
  the registered consumers take turns, each step one access to shared memory: a load or a
  store of an atomic, or one plain access to a field of a slot's data. The plain accesses
  of one call come in any order between the atomics around them, which is what Acquire
  and Release leave to the compiler and the processor; the atomics themselves are
  interleaved. Consumers are registered before the threads start, as \<open>main\<close> does.
\<close>

section \<open>Threads\<close>

datatype Field = FChannel | FType | FLen | FTime | FPayload

record PubArgs =
  p_clock :: clock
  p_channel_id :: u32
  p_msg_type :: u8
  p_payload :: "u8 list"

text \<open>Where the producer is in \<open>publish\<close>, and a consumer in \<open>try_consume\<close> or \<open>consume_one\<close>.\<close>

datatype ProdPc =
  PIdle
| PScan u64 nat u64 PubArgs
| PWrite u64 PubArgs "Field list"
| PHead u64

datatype ConsPc =
  CIdle
| CLoaded u64
| CReading u64 "Field list" SlotData
| CDone u64
| CFell

text \<open>
  The shared ring, the threads, and two history variables: the messages committed so far
  and those handed to each consumer's callback.
\<close>

record Conc =
  ring :: Ring
  ppc :: ProdPc
  cpcs :: "nat \<Rightarrow> ConsPc"
  committed :: "Msg list"
  got :: "nat \<Rightarrow> Msg list"

definition args_msg :: "PubArgs \<Rightarrow> Msg" where
  "args_msg p = stamped (p_clock p) (p_channel_id p) (p_msg_type p) (p_payload p)"

fun write_field :: "PubArgs \<Rightarrow> Field \<Rightarrow> SlotData \<Rightarrow> SlotData" where
  "write_field p FChannel d = d\<lparr>d_channel_id := p_channel_id p\<rparr>"
| "write_field p FType d = d\<lparr>d_msg_type := p_msg_type p\<rparr>"
| "write_field p FLen d = d\<lparr>d_payload_len := word_of_nat (length (p_payload p))\<rparr>"
| "write_field p FTime d = d\<lparr>d_timestamp_ns := now_ns (p_clock p)\<rparr>"
| "write_field p FPayload d =
     d\<lparr>d_payload := p_payload p @ drop (length (p_payload p)) (d_payload d)\<rparr>"

fun read_field :: "Field \<Rightarrow> SlotData \<Rightarrow> SlotData \<Rightarrow> SlotData" where
  "read_field FChannel d acc = acc\<lparr>d_channel_id := d_channel_id d\<rparr>"
| "read_field FType d acc = acc\<lparr>d_msg_type := d_msg_type d\<rparr>"
| "read_field FLen d acc = acc\<lparr>d_payload_len := d_payload_len d\<rparr>"
| "read_field FTime d acc = acc\<lparr>d_timestamp_ns := d_timestamp_ns d\<rparr>"
| "read_field FPayload d acc = acc\<lparr>d_payload := d_payload d\<rparr>"

definition set_data :: "Ring \<Rightarrow> nat \<Rightarrow> SlotData \<Rightarrow> Ring" where
  "set_data r i d = r\<lparr>slots := (slots r)[i := (slots r ! i)\<lparr>data := d\<rparr>]\<rparr>"

definition set_seq :: "Ring \<Rightarrow> nat \<Rightarrow> u64 \<Rightarrow> Ring" where
  "set_seq r i v = r\<lparr>slots := (slots r)[i := (slots r ! i)\<lparr>seq := v\<rparr>]\<rparr>"

section \<open>Steps\<close>

datatype Label = Internal | Commits Msg | Takes nat Msg

inductive conc_step :: "Conc \<Rightarrow> Label \<Rightarrow> Conc \<Rightarrow> bool" where
  p_start: "ppc s = PIdle \<Longrightarrow> \<not> length (p_payload p) > PAYLOAD_CAP \<Longrightarrow>
    conc_step s Internal (s\<lparr>ppc := PScan (producer_seq (ring s)) 0 U64_MAX p\<rparr>)"
| p_scan: "ppc s = PScan x i m p \<Longrightarrow> i < length (consumers (ring s)) \<Longrightarrow>
    v = consumers (ring s) ! i \<Longrightarrow>
    conc_step s Internal (s\<lparr>ppc := PScan x (Suc i) (if v < m then v else m) p\<rparr>)"
| p_reject: "ppc s = PScan x i m p \<Longrightarrow> i = length (consumers (ring s)) \<Longrightarrow>
    m \<noteq> U64_MAX \<and> as_u64 RING_SIZE \<le> x - m \<Longrightarrow>
    conc_step s Internal (s\<lparr>ppc := PIdle\<rparr>)"
| p_accept: "ppc s = PScan x i m p \<Longrightarrow> i = length (consumers (ring s)) \<Longrightarrow>
    \<not> (m \<noteq> U64_MAX \<and> as_u64 RING_SIZE \<le> x - m) \<Longrightarrow> set todo = UNIV \<Longrightarrow>
    conc_step s Internal (s\<lparr>ppc := PWrite x p todo\<rparr>)"
| p_write: "ppc s = PWrite x p (fld # todo) \<Longrightarrow> i = slot_index x \<Longrightarrow>
    conc_step s Internal (s\<lparr>ring := set_data (ring s) i (write_field p fld (data (slots (ring s) ! i))),
                           ppc := PWrite x p todo\<rparr>)"
| p_commit: "ppc s = PWrite x p [] \<Longrightarrow>
    conc_step s (Commits (args_msg p))
      (s\<lparr>ring := set_seq (ring s) (slot_index x) (x + 1), ppc := PHead x,
         committed := committed s @ [args_msg p]\<rparr>)"
| p_head: "ppc s = PHead x \<Longrightarrow>
    conc_step s Internal (s\<lparr>ring := (ring s)\<lparr>producer_seq := x + 1\<rparr>, ppc := PIdle\<rparr>)"
| c_load: "cpcs s cid = CIdle \<Longrightarrow> cid < length (consumers (ring s)) \<Longrightarrow>
    x = consumers (ring s) ! cid \<Longrightarrow> x \<noteq> CONSUMER_FREE \<Longrightarrow>
    conc_step s Internal (s\<lparr>cpcs := (cpcs s)(cid := CLoaded x)\<rparr>)"
| c_spin: "cpcs s cid = CLoaded x \<Longrightarrow> seq (slots (ring s) ! slot_index x) < x + 1 \<Longrightarrow>
    conc_step s Internal s"
| c_false: "cpcs s cid = CLoaded x \<Longrightarrow> seq (slots (ring s) ! slot_index x) < x + 1 \<Longrightarrow>
    conc_step s Internal (s\<lparr>cpcs := (cpcs s)(cid := CIdle)\<rparr>)"
| c_fell: "cpcs s cid = CLoaded x \<Longrightarrow> seq (slots (ring s) ! slot_index x) > x + 1 \<Longrightarrow>
    conc_step s Internal (s\<lparr>cpcs := (cpcs s)(cid := CFell)\<rparr>)"
| c_ready: "cpcs s cid = CLoaded x \<Longrightarrow> seq (slots (ring s) ! slot_index x) = x + 1 \<Longrightarrow>
    set todo = UNIV \<Longrightarrow>
    conc_step s Internal (s\<lparr>cpcs := (cpcs s)(cid := CReading x todo slot_zeroed)\<rparr>)"
| c_read: "cpcs s cid = CReading x (fld # todo) acc \<Longrightarrow>
    acc' = read_field fld (data (slots (ring s) ! slot_index x)) acc \<Longrightarrow>
    conc_step s Internal (s\<lparr>cpcs := (cpcs s)(cid := CReading x todo acc')\<rparr>)"
| c_call: "cpcs s cid = CReading x [] acc \<Longrightarrow>
    conc_step s Internal (s\<lparr>cpcs := (cpcs s)(cid := CDone x),
                           got := (got s)(cid := got s cid @ [msg_of_data acc])\<rparr>)"
| c_store: "cpcs s cid = CDone x \<Longrightarrow>
    conc_step s (Takes cid (last (got s cid)))
      (s\<lparr>ring := (ring s)\<lparr>consumers := (consumers (ring s))[cid := x + 1]\<rparr>,
         cpcs := (cpcs s)(cid := CIdle)\<rparr>)"

inductive_cases conc_stepE: "conc_step s l t"
inductive_cases commitE: "conc_step s (Commits m) t"
inductive_cases takeE: "conc_step s (Takes cid m) t"

inductive conc_reach :: "Conc \<Rightarrow> Conc \<Rightarrow> bool" for s0 where
  start: "conc_reach s0 s0"
| step: "conc_reach s0 s \<Longrightarrow> conc_step s l t \<Longrightarrow> conc_reach s0 t"

text \<open>The start: a ring that represents a log, every thread outside the ring's methods.\<close>

definition conc_init :: "Log \<Rightarrow> Ring \<Rightarrow> Conc" where
  "conc_init a r = \<lparr>ring = r, ppc = PIdle, cpcs = (\<lambda>_. CIdle), committed = msgs a, got = (\<lambda>_. [])\<rparr>"

text \<open>A data race: the producer is writing a slot's data while a consumer reads it.\<close>

definition data_race :: "Conc \<Rightarrow> bool" where
  "data_race s \<longleftrightarrow>
     (\<exists>x p todo cid y todo' acc. ppc s = PWrite x p todo \<and> cpcs s cid = CReading y todo' acc \<and>
        slot_index x = slot_index y)"

section \<open>The invariant\<close>

definition live_seqs :: "nat \<Rightarrow> Slot list \<Rightarrow> bool" where
  "live_seqs n ss \<longleftrightarrow>
     (\<forall>k<n. n \<le> k + RING_SIZE \<longrightarrow> unat (seq (ss ! (k mod RING_SIZE))) = Suc k) \<and>
     (\<forall>k<RING_SIZE. n \<le> k \<longrightarrow> seq (ss ! k) = 0)"

text \<open>While the producer writes, the oldest of the live slots is not to be read.\<close>

definition live_data :: "bool \<Rightarrow> Msg list \<Rightarrow> Slot list \<Rightarrow> bool" where
  "live_data w ms ss \<longleftrightarrow>
     (\<forall>k<length ms. length ms \<le> k + RING_SIZE \<longrightarrow> (w \<longrightarrow> length ms < k + RING_SIZE) \<longrightarrow>
        msg_of_data (data (ss ! (k mod RING_SIZE))) = ms ! k)"

definition writing :: "ProdPc \<Rightarrow> bool" where
  "writing pc \<longleftrightarrow> (case pc of PWrite _ _ _ \<Rightarrow> True | _ \<Rightarrow> False)"

fun field_written :: "PubArgs \<Rightarrow> Field \<Rightarrow> SlotData \<Rightarrow> bool" where
  "field_written p FChannel d \<longleftrightarrow> d_channel_id d = p_channel_id p"
| "field_written p FType d \<longleftrightarrow> d_msg_type d = p_msg_type p"
| "field_written p FLen d \<longleftrightarrow> d_payload_len d = word_of_nat (length (p_payload p))"
| "field_written p FTime d \<longleftrightarrow> d_timestamp_ns d = now_ns (p_clock p)"
| "field_written p FPayload d \<longleftrightarrow> take (length (p_payload p)) (d_payload d) = p_payload p"

fun field_eq :: "Field \<Rightarrow> SlotData \<Rightarrow> SlotData \<Rightarrow> bool" where
  "field_eq FChannel d e \<longleftrightarrow> d_channel_id e = d_channel_id d"
| "field_eq FType d e \<longleftrightarrow> d_msg_type e = d_msg_type d"
| "field_eq FLen d e \<longleftrightarrow> d_payload_len e = d_payload_len d"
| "field_eq FTime d e \<longleftrightarrow> d_timestamp_ns e = d_timestamp_ns d"
| "field_eq FPayload d e \<longleftrightarrow> d_payload e = d_payload d"

definition cursors_ok :: "nat \<Rightarrow> u64 list \<Rightarrow> bool" where
  "cursors_ok n cs \<longleftrightarrow>
     (\<forall>j<length cs. cs ! j \<noteq> CONSUMER_FREE \<longrightarrow> unat (cs ! j) \<le> n \<and> n \<le> unat (cs ! j) + RING_SIZE)"

definition room :: "nat \<Rightarrow> u64 list \<Rightarrow> bool" where
  "room n cs \<longleftrightarrow> (\<forall>j<length cs. cs ! j \<noteq> CONSUMER_FREE \<longrightarrow> n < unat (cs ! j) + RING_SIZE)"

fun prod_ok :: "nat \<Rightarrow> Ring \<Rightarrow> ProdPc \<Rightarrow> bool" where
  "prod_ok n r PIdle \<longleftrightarrow> unat (producer_seq r) = n"
| "prod_ok n r (PScan x i m p) \<longleftrightarrow> producer_seq r = x \<and> unat x = n \<and>
     length (p_payload p) \<le> PAYLOAD_CAP \<and> i \<le> MAX_CONSUMERS \<and> (\<forall>j<i. m \<le> consumers r ! j)"
| "prod_ok n r (PWrite x p todo) \<longleftrightarrow> producer_seq r = x \<and> unat x = n \<and>
     length (p_payload p) \<le> PAYLOAD_CAP \<and> room n (consumers r) \<and>
     (\<forall>f. f \<notin> set todo \<longrightarrow> field_written p f (data (slots r ! (n mod RING_SIZE))))"
| "prod_ok n r (PHead x) \<longleftrightarrow> producer_seq r = x \<and> Suc (unat x) = n"

definition reading_ok :: "nat \<Rightarrow> Ring \<Rightarrow> nat \<Rightarrow> u64 \<Rightarrow> bool" where
  "reading_ok n r cid x \<longleftrightarrow> cid < MAX_CONSUMERS \<and> consumers r ! cid = x \<and> x \<noteq> CONSUMER_FREE"

fun cons_ok :: "nat \<Rightarrow> Ring \<Rightarrow> nat \<Rightarrow> ConsPc \<Rightarrow> bool" where
  "cons_ok n r cid CIdle \<longleftrightarrow> True"
| "cons_ok n r cid (CLoaded x) \<longleftrightarrow> reading_ok n r cid x"
| "cons_ok n r cid (CReading x todo acc) \<longleftrightarrow> reading_ok n r cid x \<and> unat x < n \<and>
     (\<forall>f. f \<notin> set todo \<longrightarrow> field_eq f (data (slots r ! (unat x mod RING_SIZE))) acc)"
| "cons_ok n r cid (CDone x) \<longleftrightarrow> reading_ok n r cid x \<and> unat x < n"
| "cons_ok n r cid CFell \<longleftrightarrow> False"

definition seen :: "u64 \<Rightarrow> ConsPc \<Rightarrow> nat" where
  "seen c pc = unat c + (case pc of CDone _ \<Rightarrow> 1 | _ \<Rightarrow> 0)"

definition got_ok :: "Msg list \<Rightarrow> nat \<Rightarrow> nat \<Rightarrow> Msg list \<Rightarrow> bool" where
  "got_ok ms st n g \<longleftrightarrow> st \<le> n \<and> g = take (n - st) (drop st ms)"

definition conc_inv :: "(nat \<Rightarrow> nat) \<Rightarrow> Conc \<Rightarrow> bool" where
  "conc_inv st s \<longleftrightarrow>
     (let n = length (committed s); r = ring s in
      ring_shape r \<and> live_seqs n (slots r) \<and> live_data (writing (ppc s)) (committed s) (slots r) \<and>
      cursors_ok n (consumers r) \<and> prod_ok n r (ppc s) \<and> (\<forall>cid. cons_ok n r cid (cpcs s cid)) \<and>
      (\<forall>cid<MAX_CONSUMERS. consumers r ! cid \<noteq> CONSUMER_FREE \<longrightarrow>
         got_ok (committed s) (st cid) (seen (consumers r ! cid) (cpcs s cid)) (got s cid)))"

lemma conc_invD:
  assumes "conc_inv st s"
  shows "ring_shape (ring s)" "live_seqs (length (committed s)) (slots (ring s))"
    "live_data (writing (ppc s)) (committed s) (slots (ring s))"
    "cursors_ok (length (committed s)) (consumers (ring s))"
    "prod_ok (length (committed s)) (ring s) (ppc s)"
    "cons_ok (length (committed s)) (ring s) cid (cpcs s cid)"
    "cid < MAX_CONSUMERS \<Longrightarrow> consumers (ring s) ! cid \<noteq> CONSUMER_FREE \<Longrightarrow>
     got_ok (committed s) (st cid) (seen (consumers (ring s) ! cid) (cpcs s cid)) (got s cid)"
  using assms by (auto simp: conc_inv_def Let_def)

lemma ring_shapeD:
  assumes "ring_shape r"
  shows "length (slots r) = RING_SIZE" "length (consumers r) = MAX_CONSUMERS"
    "i < RING_SIZE \<Longrightarrow> data_ok (data (slots r ! i))"
  using assms by (auto simp: ring_shape_def)

section \<open>Fields\<close>

lemma field_written_write [simp]:
  "field_written p g (write_field p f d) \<longleftrightarrow> g = f \<or> field_written p g d"
  by (cases f; cases g) simp_all

lemma field_eq_read [simp]: "field_eq g d (read_field f d acc) \<longleftrightarrow> g = f \<or> field_eq g d acc"
  by (cases f; cases g) simp_all

lemma all_fields: "(\<forall>f. P f) \<longleftrightarrow> P FChannel \<and> P FType \<and> P FLen \<and> P FTime \<and> P FPayload"
  by (metis Field.exhaust)

lemma all_fields_eq: "(\<forall>f. field_eq f d e) \<Longrightarrow> e = d"
  by (simp add: all_fields)

lemma all_fields_written:
  assumes "\<forall>f. field_written p f d" and "length (p_payload p) \<le> PAYLOAD_CAP"
  shows "msg_of_data d = args_msg p"
proof -
  have "unat (word_of_nat (length (p_payload p)) :: u16) = length (p_payload p)"
    using assms(2) by (simp add: PAYLOAD_CAP_def unat_of_nat take_bit_nat_eq_self)
  then show ?thesis
    using assms(1) by (simp add: all_fields msg_of_data_def args_msg_def stamped_def)
qed

lemma write_field_data_ok:
  assumes "data_ok d" and "length (p_payload p) \<le> PAYLOAD_CAP"
  shows "data_ok (write_field p f d)"
proof -
  have "unat (word_of_nat (length (p_payload p)) :: u16) = length (p_payload p)"
    using assms(2) by (simp add: PAYLOAD_CAP_def unat_of_nat take_bit_nat_eq_self)
  with assms show ?thesis by (cases f) (simp_all add: data_ok_def)
qed

section \<open>Slot updates\<close>

lemma set_simps [simp]:
  "producer_seq (set_data r i d) = producer_seq r"
  "consumers (set_data r i d) = consumers r"
  "length (slots (set_data r i d)) = length (slots r)"
  "producer_seq (set_seq r i v) = producer_seq r"
  "consumers (set_seq r i v) = consumers r"
  "length (slots (set_seq r i v)) = length (slots r)"
  by (simp_all add: set_data_def set_seq_def)

lemma slots_set_data:
  "i < length (slots r) \<Longrightarrow>
   slots (set_data r i d) ! j = (if j = i then (slots r ! i)\<lparr>data := d\<rparr> else slots r ! j)"
  by (simp add: set_data_def)

lemma slots_set_seq:
  "i < length (slots r) \<Longrightarrow>
   slots (set_seq r i v) ! j = (if j = i then (slots r ! i)\<lparr>seq := v\<rparr> else slots r ! j)"
  by (simp add: set_seq_def)

lemma ring_shape_set_data: "ring_shape r \<Longrightarrow> data_ok d \<Longrightarrow> i < RING_SIZE \<Longrightarrow> ring_shape (set_data r i d)"
  by (auto simp: ring_shape_def slots_set_data)

lemma ring_shape_set_seq: "ring_shape r \<Longrightarrow> i < RING_SIZE \<Longrightarrow> ring_shape (set_seq r i v)"
  by (auto simp: ring_shape_def slots_set_seq)

lemma live_seqs_set_data:
  assumes "live_seqs n (slots r)" and "i < length (slots r)"
  shows "live_seqs n (slots (set_data r i d))"
  using assms unfolding live_seqs_def by (auto simp: slots_set_data)

lemma other_slot: "k < n \<Longrightarrow> n < k + RING_SIZE \<Longrightarrow> k mod RING_SIZE \<noteq> n mod RING_SIZE"
  using mod_window_eq [of k n RING_SIZE] by auto

lemma live_data_set_data:
  assumes "live_data True ms (slots r)" and "length (slots r) = RING_SIZE"
  shows "live_data True ms (slots (set_data r (length ms mod RING_SIZE) d))"
  using assms other_slot unfolding live_data_def by (auto simp: slots_set_data)

lemma live_seqs_set_seq:
  assumes "live_seqs n (slots r)" and "length (slots r) = RING_SIZE" and "unat v = Suc n"
  shows "live_seqs (Suc n) (slots (set_seq r (n mod RING_SIZE) v))"
  unfolding live_seqs_def
proof (intro conjI allI impI)
  fix k assume k: "k < Suc n" "Suc n \<le> k + RING_SIZE"
  show "unat (seq (slots (set_seq r (n mod RING_SIZE) v) ! (k mod RING_SIZE))) = Suc k"
  proof (cases "k = n")
    case True
    with assms show ?thesis by (simp add: slots_set_seq)
  next
    case False
    with k other_slot [of k n] assms(1,2) show ?thesis
      by (simp add: slots_set_seq live_seqs_def)
  qed
next
  fix k assume "k < RING_SIZE" "Suc n \<le> k"
  with assms(1,2) show "seq (slots (set_seq r (n mod RING_SIZE) v) ! k) = 0"
    by (simp add: slots_set_seq live_seqs_def)
qed

lemma live_data_commit:
  assumes "live_data True ms (slots r)" and "length (slots r) = RING_SIZE"
    and "msg_of_data (data (slots r ! (length ms mod RING_SIZE))) = m"
  shows "live_data False (ms @ [m]) (slots (set_seq r (length ms mod RING_SIZE) v))"
  unfolding live_data_def
proof (intro allI impI)
  fix k assume k: "k < length (ms @ [m])" "length (ms @ [m]) \<le> k + RING_SIZE"
  have same: "data (slots (set_seq r i v) ! j) = data (slots r ! j)" if "i < RING_SIZE" for i j
    using that assms(2) by (simp add: slots_set_seq)
  show "msg_of_data (data (slots (set_seq r (length ms mod RING_SIZE) v) ! (k mod RING_SIZE))) =
        (ms @ [m]) ! k"
  proof (cases "k = length ms")
    case True
    with assms(3) show ?thesis by (simp add: same)
  next
    case False
    with k assms(1) show ?thesis by (simp add: same live_data_def nth_append)
  qed
qed

lemma live_data_weaken: "live_data False ms ss \<Longrightarrow> live_data w ms ss"
  by (auto simp: live_data_def)

lemma got_ok_append: "got_ok ms st n g \<Longrightarrow> n \<le> length ms \<Longrightarrow> got_ok (ms @ [m]) st n g"
  by (auto simp: got_ok_def)

lemma got_ok_Suc:
  assumes "got_ok ms st n g" and "n < length ms"
  shows "got_ok ms st (Suc n) (g @ [ms ! n])"
proof -
  have "take (Suc n - st) (drop st ms) = take (n - st) (drop st ms) @ [ms ! n]"
    using assms take_Suc_conv_app_nth [of "n - st" "drop st ms"] diff_less_mono [of n "length ms" st]
    by (simp add: got_ok_def Suc_diff_le)
  with assms show ?thesis by (simp add: got_ok_def)
qed

end
