(* ===== verification/Ring_Safety.thy ===== *)
theory Ring_Safety
  imports Ring_Conc
begin

text \<open>
  Safety of the interleaved ring: every step keeps the invariant as long as the 64-bit
  counters stay below the sentinel, so there is no data race, no consumer falls behind,
  and every consumer is handed the committed messages in order and untorn. The steps
  that change the abstract log are the two Release stores.
\<close>

lemma conc_invI:
  assumes "ring_shape (ring t)" "live_seqs (length (committed t)) (slots (ring t))"
    "live_data (writing (ppc t)) (committed t) (slots (ring t))"
    "cursors_ok (length (committed t)) (consumers (ring t))"
    "prod_ok (length (committed t)) (ring t) (ppc t)"
    "\<And>cid. cons_ok (length (committed t)) (ring t) cid (cpcs t cid)"
    "\<And>cid. cid < MAX_CONSUMERS \<Longrightarrow> consumers (ring t) ! cid \<noteq> CONSUMER_FREE \<Longrightarrow>
       got_ok (committed t) (st cid) (seen (consumers (ring t) ! cid) (cpcs t cid)) (got t cid)"
  shows "conc_inv st t"
  using assms by (simp add: conc_inv_def Let_def)

lemma writing_simps [simp]:
  "writing PIdle = False" "writing (PScan x i m p) = False"
  "writing (PWrite x p todo) = True" "writing (PHead x) = False"
  by (simp_all add: writing_def)

lemma seen_simps [simp]:
  "seen c CIdle = unat c" "seen c (CLoaded x) = unat c" "seen c (CReading x todo acc) = unat c"
  "seen c (CDone x) = Suc (unat c)" "seen c CFell = unat c"
  by (simp_all add: seen_def)

text \<open>A consumer inside a call looks at a sequence number of the live window.\<close>

lemma reading_window:
  assumes inv: "conc_inv st s" and ok: "reading_ok (length (committed s)) (ring s) cid x"
  shows "unat x \<le> length (committed s)" "length (committed s) \<le> unat x + RING_SIZE"
    "writing (ppc s) \<Longrightarrow> length (committed s) < unat x + RING_SIZE"
proof -
  let ?n = "length (committed s)" and ?cs = "consumers (ring s)"
  have x: "cid < length ?cs" "?cs ! cid = x" "x \<noteq> CONSUMER_FREE"
    using ok ring_shapeD(2) [OF conc_invD(1) [OF inv]] by (auto simp: reading_ok_def)
  with conc_invD(4) [OF inv] show "unat x \<le> ?n" "?n \<le> unat x + RING_SIZE"
    by (auto simp: cursors_ok_def)
  show "?n < unat x + RING_SIZE" if "writing (ppc s)"
    using that x conc_invD(5) [OF inv] by (cases "ppc s") (auto simp: room_def)
qed

text \<open>The scan, done while cursors only grow, leaves room for one more message.\<close>

lemma room_from_scan:
  assumes cur: "cursors_ok n cs" and scan: "\<forall>j<length cs. m \<le> cs ! j"
    and n: "unat x = n" "n < 2 ^ 64 - 1"
    and pass: "\<not> (m \<noteq> U64_MAX \<and> as_u64 RING_SIZE \<le> x - m)"
  shows "room n cs"
  unfolding room_def
proof (intro allI impI)
  fix j assume j: "j < length cs" "cs ! j \<noteq> CONSUMER_FREE"
  with cur have c: "unat (cs ! j) \<le> n"
    by (simp add: cursors_ok_def)
  from scan j have m: "unat m \<le> unat (cs ! j)"
    by (simp add: word_le_nat_alt)
  with c n have "m \<noteq> U64_MAX"
    using unat_U64_MAX by auto
  with pass have "\<not> as_u64 RING_SIZE \<le> x - m" by simp
  moreover have "unat (x - m) = n - unat m"
    using m c n by (simp add: unat_sub word_le_nat_alt)
  ultimately show "n < unat (cs ! j) + RING_SIZE"
    using m by (simp add: word_le_nat_alt RING_SIZE_eq)
qed

section \<open>The steps keep the invariant\<close>

lemma inv_p_write:
  assumes inv: "conc_inv st s" and pc: "ppc s = PWrite x p (fld # todo)"
  defines "i \<equiv> slot_index x"
  shows "conc_inv st (s\<lparr>ring := set_data (ring s) i (write_field p fld (data (slots (ring s) ! i))),
                        ppc := PWrite x p todo\<rparr>)" (is "conc_inv st ?t")
proof -
  let ?n = "length (committed s)" and ?r = "ring s"
  note shape = conc_invD(1) [OF inv]
  have p: "producer_seq ?r = x" "unat x = ?n" "length (p_payload p) \<le> PAYLOAD_CAP" "room ?n (consumers ?r)"
    "\<forall>f. f \<notin> set (fld # todo) \<longrightarrow> field_written p f (data (slots ?r ! i))"
    using conc_invD(5) [OF inv] pc by (simp_all add: i_def slot_index_mod)
  have i: "i = ?n mod RING_SIZE" "i < length (slots ?r)" "i < RING_SIZE"
    using p(2) ring_shapeD(1) [OF shape] by (simp_all add: i_def slot_index_mod)
  show ?thesis
  proof (rule conc_invI)
    show "ring_shape (ring ?t)"
      using shape i p(3) by (simp add: ring_shape_set_data write_field_data_ok ring_shapeD(3))
    show "live_seqs (length (committed ?t)) (slots (ring ?t))"
      using conc_invD(2) [OF inv] i by (simp add: live_seqs_set_data)
    show "live_data (writing (ppc ?t)) (committed ?t) (slots (ring ?t))"
      using conc_invD(3) [OF inv] pc ring_shapeD(1) [OF shape] i(1) by (simp add: live_data_set_data)
    show "cursors_ok (length (committed ?t)) (consumers (ring ?t))"
      using conc_invD(4) [OF inv] by simp
    show "prod_ok (length (committed ?t)) (ring ?t) (ppc ?t)"
      using p i by (auto simp: slots_set_data)
    fix cid
    have ok: "cons_ok ?n ?r cid (cpcs s cid)"
      by (rule conc_invD(6) [OF inv])
    show "cons_ok (length (committed ?t)) (ring ?t) cid (cpcs ?t cid)"
    proof (cases "cpcs s cid")
      case (CReading y td acc)
      with ok have y: "reading_ok ?n ?r cid y" "unat y < ?n" by simp_all
      with reading_window(3) [OF inv] pc have "unat y mod RING_SIZE \<noteq> i"
        unfolding i(1) by (intro other_slot) auto
      with ok CReading i(2) show ?thesis
        by (simp add: slots_set_data reading_ok_def)
    qed (use ok in \<open>simp_all add: reading_ok_def\<close>)
    assume "cid < MAX_CONSUMERS" "consumers (ring ?t) ! cid \<noteq> CONSUMER_FREE"
    then show "got_ok (committed ?t) (st cid) (seen (consumers (ring ?t) ! cid) (cpcs ?t cid)) (got ?t cid)"
      using conc_invD(7) [OF inv] by simp
  qed
qed

lemma seen_le:
  assumes inv: "conc_inv st s" and "cid < MAX_CONSUMERS" "consumers (ring s) ! cid \<noteq> CONSUMER_FREE"
  shows "seen (consumers (ring s) ! cid) (cpcs s cid) \<le> length (committed s)"
proof -
  have "cid < length (consumers (ring s))"
    using assms(2) ring_shapeD(2) [OF conc_invD(1) [OF inv]] by simp
  then have "unat (consumers (ring s) ! cid) \<le> length (committed s)"
    using conc_invD(4) [OF inv] assms(3) by (simp add: cursors_ok_def)
  moreover have "cons_ok (length (committed s)) (ring s) cid (cpcs s cid)"
    by (rule conc_invD(6) [OF inv])
  ultimately show ?thesis
    by (cases "cpcs s cid") (auto simp: reading_ok_def)
qed

lemma inv_p_commit:
  assumes inv: "conc_inv st s" and pc: "ppc s = PWrite x p []" and n: "length (committed s) < 2 ^ 64 - 1"
  shows "conc_inv st (s\<lparr>ring := set_seq (ring s) (slot_index x) (x + 1), ppc := PHead x,
                        committed := committed s @ [args_msg p]\<rparr>)" (is "conc_inv st ?t")
proof -
  let ?n = "length (committed s)" and ?r = "ring s"
  note shape = conc_invD(1) [OF inv]
  have p: "producer_seq ?r = x" "unat x = ?n" "length (p_payload p) \<le> PAYLOAD_CAP" "room ?n (consumers ?r)"
    "\<forall>f. field_written p f (data (slots ?r ! (?n mod RING_SIZE)))"
    using conc_invD(5) [OF inv] pc by simp_all
  have idx: "slot_index x = ?n mod RING_SIZE"
    using p(2) by (simp add: slot_index_mod)
  have ss: "length (slots ?r) = RING_SIZE"
    using ring_shapeD(1) [OF shape] .
  have v: "unat (x + 1) = Suc ?n"
    using p(2) n by (simp add: u64_add_one)
  show ?thesis
  proof (rule conc_invI)
    show "ring_shape (ring ?t)"
      using shape by (simp add: ring_shape_set_seq)
    show "live_seqs (length (committed ?t)) (slots (ring ?t))"
      using live_seqs_set_seq [OF conc_invD(2) [OF inv] ss v] by (simp add: idx)
    show "live_data (writing (ppc ?t)) (committed ?t) (slots (ring ?t))"
      using live_data_commit [OF _ ss all_fields_written [OF p(5,3)]] conc_invD(3) [OF inv] pc
      by (simp add: idx)
    show "cursors_ok (length (committed ?t)) (consumers (ring ?t))"
      using conc_invD(4) [OF inv] p(4) by (fastforce simp: cursors_ok_def room_def)
    show "prod_ok (length (committed ?t)) (ring ?t) (ppc ?t)"
      using p by simp
    fix cid
    have "cons_ok ?n ?r cid (cpcs s cid)"
      by (rule conc_invD(6) [OF inv])
    then show "cons_ok (length (committed ?t)) (ring ?t) cid (cpcs ?t cid)"
      using ss by (cases "cpcs s cid") (auto simp: reading_ok_def slots_set_seq)
    assume "cid < MAX_CONSUMERS" "consumers (ring ?t) ! cid \<noteq> CONSUMER_FREE"
    then show "got_ok (committed ?t) (st cid) (seen (consumers (ring ?t) ! cid) (cpcs ?t cid)) (got ?t cid)"
      using conc_invD(7) [OF inv] seen_le [OF inv] by (simp add: got_ok_append)
  qed
qed

text \<open>Steps of a consumer that touch only its own program counter.\<close>

lemma inv_cpc:
  assumes inv: "conc_inv st s" and ok: "cons_ok (length (committed s)) (ring s) cid pc"
    and seen: "seen (consumers (ring s) ! cid) pc = seen (consumers (ring s) ! cid) (cpcs s cid)"
  shows "conc_inv st (s\<lparr>cpcs := (cpcs s)(cid := pc)\<rparr>)"
proof (rule conc_invI)
  let ?t = "s\<lparr>cpcs := (cpcs s)(cid := pc)\<rparr>"
  fix c assume c: "c < MAX_CONSUMERS" "consumers (ring ?t) ! c \<noteq> CONSUMER_FREE"
  then show "got_ok (committed ?t) (st c) (seen (consumers (ring ?t) ! c) (cpcs ?t c)) (got ?t c)"
    using conc_invD(7) [OF inv, of c] seen by (cases "c = cid") simp_all
qed (use conc_invD [OF inv] ok in simp_all)

text \<open>Steps of the producer that touch only its own program counter.\<close>

lemma inv_ppc:
  assumes inv: "conc_inv st s" and ok: "prod_ok (length (committed s)) (ring s) pc"
    and "\<not> writing (ppc s)"
  shows "conc_inv st (s\<lparr>ppc := pc\<rparr>)"
  by (rule conc_invI) (use conc_invD [OF inv] ok assms(3) live_data_weaken in \<open>simp_all\<close>)

lemma inv_c_call:
  assumes inv: "conc_inv st s" and pc: "cpcs s cid = CReading x [] acc"
  shows "conc_inv st (s\<lparr>cpcs := (cpcs s)(cid := CDone x),
                        got := (got s)(cid := got s cid @ [msg_of_data acc])\<rparr>)" (is "conc_inv st ?t")
    and "msg_of_data acc = committed s ! unat x"
proof -
  let ?n = "length (committed s)" and ?r = "ring s"
  have x: "reading_ok ?n ?r cid x" "unat x < ?n"
    "\<forall>f. field_eq f (data (slots ?r ! (unat x mod RING_SIZE))) acc"
    using conc_invD(6) [OF inv, of cid] pc by simp_all
  have "acc = data (slots ?r ! (unat x mod RING_SIZE))"
    by (rule all_fields_eq [OF x(3)])
  then show msg: "msg_of_data acc = committed s ! unat x"
    using conc_invD(3) [OF inv] x(2) reading_window(2,3) [OF inv x(1)]
    by (simp add: live_data_def)
  show "conc_inv st ?t"
  proof (rule conc_invI)
    fix c
    show "cons_ok (length (committed ?t)) (ring ?t) c (cpcs ?t c)"
      using conc_invD(6) [OF inv] x by simp
    assume c: "c < MAX_CONSUMERS" "consumers (ring ?t) ! c \<noteq> CONSUMER_FREE"
    show "got_ok (committed ?t) (st c) (seen (consumers (ring ?t) ! c) (cpcs ?t c)) (got ?t c)"
    proof (cases "c = cid")
      case True
      with c conc_invD(7) [OF inv, of cid] pc x
      have "got_ok (committed s) (st cid) (unat x) (got s cid)" "unat x < ?n"
        by (simp_all add: reading_ok_def)
      then show ?thesis
        using got_ok_Suc True x(1) by (simp add: msg reading_ok_def)
    next
      case False
      with c conc_invD(7) [OF inv] show ?thesis by simp
    qed
  qed (use conc_invD [OF inv] in simp_all)
qed

lemma inv_c_store:
  assumes inv: "conc_inv st s" and pc: "cpcs s cid = CDone x" and n: "length (committed s) < 2 ^ 64 - 1"
  shows "conc_inv st (s\<lparr>ring := (ring s)\<lparr>consumers := (consumers (ring s))[cid := x + 1]\<rparr>,
                        cpcs := (cpcs s)(cid := CIdle)\<rparr>)" (is "conc_inv st ?t")
proof -
  let ?n = "length (committed s)" and ?cs = "consumers (ring s)"
  have x: "cid < MAX_CONSUMERS" "?cs ! cid = x" "x \<noteq> CONSUMER_FREE" "unat x < ?n"
    "?n \<le> unat x + RING_SIZE"
    using conc_invD(6) [OF inv, of cid] pc reading_window(2) [OF inv, of cid x]
    by (simp_all add: reading_ok_def)
  have len: "length ?cs = MAX_CONSUMERS"
    using ring_shapeD(2) [OF conc_invD(1) [OF inv]] .
  have v: "unat (x + 1) = Suc (unat x)" "x \<le> x + 1"
    using x(4) n by (simp_all add: u64_add_one word_le_nat_alt)
  show ?thesis
  proof (rule conc_invI)
    show "ring_shape (ring ?t)"
      using conc_invD(1) [OF inv] by (simp add: ring_shape_def)
    show "cursors_ok (length (committed ?t)) (consumers (ring ?t))"
      using conc_invD(4) [OF inv] x v len by (auto simp: cursors_ok_def nth_list_update)
    show "prod_ok (length (committed ?t)) (ring ?t) (ppc ?t)"
    proof -
      have "prod_ok ?n (ring s) (ppc s)" by (rule conc_invD(5) [OF inv])
      then show ?thesis
        using x v len by (cases "ppc s") (auto simp: room_def nth_list_update intro: order_trans)
    qed
    fix c
    show "cons_ok (length (committed ?t)) (ring ?t) c (cpcs ?t c)"
    proof (cases "c = cid")
      case False
      with conc_invD(6) [OF inv, of c] show ?thesis
        by (cases "cpcs s c") (auto simp: reading_ok_def)
    qed simp
    assume c: "c < MAX_CONSUMERS" "consumers (ring ?t) ! c \<noteq> CONSUMER_FREE"
    show "got_ok (committed ?t) (st c) (seen (consumers (ring ?t) ! c) (cpcs ?t c)) (got ?t c)"
    proof (cases "c = cid")
      case True
      then show ?thesis
        using conc_invD(7) [OF inv, of cid] x v pc len by simp
    next
      case False
      with c conc_invD(7) [OF inv, of c] show ?thesis by simp
    qed
  qed (use conc_invD [OF inv] in simp_all)
qed

lemma live_seq_at:
  assumes inv: "conc_inv st s" and ok: "reading_ok (length (committed s)) (ring s) cid x"
    and n: "length (committed s) < 2 ^ 64 - 1"
  shows "unat x < length (committed s) \<Longrightarrow> seq (slots (ring s) ! slot_index x) = x + 1"
    and "unat x = length (committed s) \<Longrightarrow> seq (slots (ring s) ! slot_index x) < x + 1"
proof -
  let ?n = "length (committed s)" and ?q = "seq (slots (ring s) ! slot_index x)"
  note win = reading_window(1,2) [OF inv ok] and live = conc_invD(2) [OF inv]
  have v: "unat (x + 1) = Suc (unat x)"
    using win(1) n by (simp add: u64_add_one)
  show "?q = x + 1" if "unat x < ?n"
    using live that win(2) v by (simp add: live_seqs_def slot_index_mod word_unat_eq_iff)
  show "?q < x + 1" if x: "unat x = ?n"
  proof (cases "?n < RING_SIZE")
    case True
    with live x have "?q = 0" by (simp add: live_seqs_def slot_index_mod)
    with v show ?thesis by (simp add: word_less_nat_alt)
  next
    case False
    define k where "k = ?n - RING_SIZE"
    with False have k: "k < ?n" "?n \<le> k + RING_SIZE" "k mod RING_SIZE = ?n mod RING_SIZE"
      using RING_SIZE_pos(1) by (simp_all add: le_mod_geq del: RING_SIZE_pos)
    with live have "unat (seq (slots (ring s) ! (k mod RING_SIZE))) = Suc k"
      unfolding live_seqs_def by blast
    with k x v show ?thesis by (simp add: slot_index_mod word_less_nat_alt)
  qed
qed

lemma conc_step_inv:
  assumes "conc_step s l t" and inv: "conc_inv st s" and n: "length (committed s) < 2 ^ 64 - 1"
  shows "conc_inv st t"
  using assms(1)
proof cases
  case (p_start p)
  then show ?thesis
    using conc_invD(5) [OF inv] by (auto intro!: inv_ppc [OF inv])
next
  case (p_scan x i m p v)
  then have "\<forall>j<i. m \<le> consumers (ring s) ! j"
    using conc_invD(5) [OF inv] by simp
  then have "\<forall>j<Suc i. (if v < m then v else m) \<le> consumers (ring s) ! j"
    using p_scan(5) by (auto simp: less_Suc_eq dest: order.strict_trans2 intro: less_imp_le)
  with p_scan show ?thesis
    using conc_invD(5) [OF inv] ring_shapeD(2) [OF conc_invD(1) [OF inv]]
    by (auto intro!: inv_ppc [OF inv])
next
  case (p_reject x i m p)
  then show ?thesis
    using conc_invD(5) [OF inv] by (auto intro!: inv_ppc [OF inv])
next
  case (p_accept x i m p todo)
  then have p: "producer_seq (ring s) = x" "unat x = length (committed s)"
    "length (p_payload p) \<le> PAYLOAD_CAP" "\<forall>j<length (consumers (ring s)). m \<le> consumers (ring s) ! j"
    using conc_invD(5) [OF inv] by simp_all
  have "room (length (committed s)) (consumers (ring s))"
    by (rule room_from_scan [OF conc_invD(4) [OF inv] p(4,2) n p_accept(5)])
  with p p_accept have "conc_inv st (s\<lparr>ppc := PWrite x p todo\<rparr>)"
    using conc_invD [OF inv] by (intro conc_invI) (auto intro: live_data_weaken)
  with p_accept show ?thesis by simp
next
  case (p_write x p fld todo i)
  then show ?thesis using inv_p_write [OF inv] by simp
next
  case (p_commit x p)
  then show ?thesis using inv_p_commit [OF inv _ n] by simp
next
  case (p_head x)
  then have p: "producer_seq (ring s) = x" "Suc (unat x) = length (committed s)"
    using conc_invD(5) [OF inv] by simp_all
  then have "unat (x + 1) = length (committed s)"
    using n by (simp add: u64_add_one)
  moreover have "cons_ok (length (committed s)) ((ring s)\<lparr>producer_seq := x + 1\<rparr>) cid (cpcs s cid)" for cid
    using conc_invD(6) [OF inv, of cid] by (cases "cpcs s cid") (auto simp: reading_ok_def)
  ultimately show ?thesis
    using p_head conc_invD [OF inv] by (auto intro!: conc_invI simp: ring_shape_def)
next
  case (c_load cid x)
  then show ?thesis
    using ring_shapeD(2) [OF conc_invD(1) [OF inv]]
    by (auto intro!: inv_cpc [OF inv] simp: reading_ok_def)
next
  case (c_spin cid x)
  then show ?thesis using inv by simp
next
  case (c_false cid x)
  then show ?thesis by (auto intro!: inv_cpc [OF inv])
next
  case (c_fell cid x)
  then have ok: "reading_ok (length (committed s)) (ring s) cid x"
    using conc_invD(6) [OF inv, of cid] by simp
  from live_seq_at [OF inv ok n] reading_window(1) [OF inv ok] c_fell(4)
  have False by (cases "unat x < length (committed s)") auto
  then show ?thesis ..
next
  case (c_ready cid x todo)
  then have ok: "reading_ok (length (committed s)) (ring s) cid x"
    using conc_invD(6) [OF inv, of cid] by simp
  from live_seq_at(2) [OF inv ok n] reading_window(1) [OF inv ok] c_ready(4)
  have "unat x < length (committed s)" by (cases "unat x = length (committed s)") auto
  with ok c_ready show ?thesis by (auto intro!: inv_cpc [OF inv])
next
  case (c_read cid x fld todo acc acc')
  then show ?thesis
    using conc_invD(6) [OF inv, of cid]
    by (auto intro!: inv_cpc [OF inv] simp: slot_index_mod)
next
  case (c_call cid x acc)
  then show ?thesis using inv_c_call(1) [OF inv] by simp
next
  case (c_store cid x)
  then show ?thesis using inv_c_store [OF inv _ n] by simp
qed

end
