(* ===== verification/Ring_Run.thy ===== *)
theory Ring_Run
  imports Ring_Log
begin

text \<open>
  The interface a client of the ring relies on, as a locale over any implementation that
  represents a log, and what follows from it: consumers never fall behind, a full ring is
  freed by its slow consumer, and a consumer is handed consecutive messages of the log.
  The ring of \<open>ring.rs\<close> is the instance. Runs of the ring's methods are the runs of the log.
\<close>

section \<open>The interface\<close>

locale broadcast =
  fixes rel :: "Log \<Rightarrow> 'r \<Rightarrow> bool"
    and pub :: "'r \<Rightarrow> clock \<Rightarrow> u32 \<Rightarrow> u8 \<Rightarrow> u8 list \<Rightarrow> (PublishError + unit) \<times> 'r"
    and con :: "'r \<Rightarrow> nat \<Rightarrow> (SlotData \<Rightarrow> 'e \<Rightarrow> 'e outcome) \<Rightarrow> 'e
                  \<Rightarrow> ((ConsumerError + bool) \<times> 'r \<times> 'e) outcome"
    and adv :: "'r \<Rightarrow> nat \<Rightarrow> 'r"
    and reg :: "'r \<Rightarrow> (RegisterError + nat) \<times> 'r"
    and unreg :: "'r \<Rightarrow> nat \<Rightarrow> 'r"
  assumes rel_length: "rel a r \<Longrightarrow> length (positions a) = MAX_CONSUMERS"
    and rel_position: "rel a r \<Longrightarrow> cid < MAX_CONSUMERS \<Longrightarrow> positions a ! cid = Some k \<Longrightarrow>
      k \<le> length (msgs a) \<and> length (msgs a) \<le> k + RING_SIZE"
    and pub_sim: "rel a r \<Longrightarrow> Suc (length (msgs a)) < 2 ^ 64 - 1 \<Longrightarrow>
      fst (pub r clk ch mt payload) = fst (log_publish a (stamped clk ch mt payload)) \<and>
      rel (snd (log_publish a (stamped clk ch mt payload))) (snd (pub r clk ch mt payload))"
    and con_ready: "rel a r \<Longrightarrow> cid < MAX_CONSUMERS \<Longrightarrow> positions a ! cid = Some k \<Longrightarrow>
      k < length (msgs a) \<Longrightarrow>
      \<exists>d. data_ok d \<and> msg_of_data d = msgs a ! k \<and>
          con r cid f e = obind (f d e) (\<lambda>e'. Ret (Inr True, adv r cid, e'))"
    and con_empty: "rel a r \<Longrightarrow> cid < MAX_CONSUMERS \<Longrightarrow> positions a ! cid = Some k \<Longrightarrow>
      length (msgs a) \<le> k \<Longrightarrow> con r cid f e = Ret (Inr False, r, e)"
    and adv_rel: "rel a r \<Longrightarrow> cid < MAX_CONSUMERS \<Longrightarrow> positions a ! cid = Some k \<Longrightarrow>
      k < length (msgs a) \<Longrightarrow> rel (log_advance a cid) (adv r cid)"
    and reg_sim: "rel a r \<Longrightarrow>
      fst (reg r) = fst (log_register a) \<and> rel (snd (log_register a)) (snd (reg r))"
    and unreg_sim: "rel a r \<Longrightarrow> rel (log_unregister a cid) (unreg r cid)"
begin

lemma never_fell_behind:
  assumes "rel a r" and "cid < MAX_CONSUMERS" and "positions a ! cid = Some k"
  shows "con r cid f e \<noteq> Ret (Inl FellBehind, r', e')"
proof (cases "k < length (msgs a)")
  case True
  with assms con_ready [of a r cid k f e]
  obtain d where "con r cid f e = obind (f d e) (\<lambda>e'. Ret (Inr True, adv r cid, e'))"
    by blast
  then show ?thesis
    by (cases "f d e") simp_all
next
  case False
  with assms con_empty [of a r cid k f e] show ?thesis by auto
qed

text \<open>One consumption is one abstract consumption, whatever the callback does.\<close>

lemma con_log:
  assumes "rel a r" and "cid < MAX_CONSUMERS" and "positions a ! cid \<noteq> None"
  shows "case log_consume a cid of
           (None, a') \<Rightarrow> a' = a \<and> con r cid f e = Ret (Inr False, r, e)
         | (Some m, a') \<Rightarrow> \<exists>d. data_ok d \<and> msg_of_data d = m \<and> rel a' (adv r cid) \<and>
             con r cid f e = obind (f d e) (\<lambda>e'. Ret (Inr True, adv r cid, e'))"
proof -
  from assms(3) obtain k where p: "positions a ! cid = Some k" by auto
  show ?thesis
  proof (cases "k < length (msgs a)")
    case True
    with assms p con_ready [of a r cid k f e] adv_rel [of a r cid k] show ?thesis
      by (auto simp: log_consume_def)
  next
    case False
    with assms p con_empty [of a r cid k f e] show ?thesis
      by (simp add: log_consume_def)
  qed
qed

text \<open>
  Backpressure is released by the slow consumer: when one consumer is registered and a
  publication is refused for it, one consumption makes the same publication succeed.
\<close>

lemma backpressure_released:
  assumes rel: "rel a r" and cid: "cid < MAX_CONSUMERS" and p: "positions a ! cid = Some k"
    and only: "\<And>i. i < MAX_CONSUMERS \<Longrightarrow> i \<noteq> cid \<Longrightarrow> positions a ! i = None"
    and room: "Suc (length (msgs a)) < 2 ^ 64 - 1"
    and full: "fst (pub r clk ch mt payload) = Inl SlowConsumer"
  shows "k < length (msgs a) \<and> rel (log_advance a cid) (adv r cid) \<and>
         fst (pub (adv r cid) clk ch mt payload) = Inr ()"
proof -
  have "fst (log_publish a (stamped clk ch mt payload)) = Inl SlowConsumer"
    using pub_sim [OF rel room] full by simp
  then have small: "\<not> PAYLOAD_CAP < length payload" and lag: "lagging a"
    by (auto simp: log_publish_def split: if_splits)
  from lag obtain i j where i: "i < MAX_CONSUMERS" "positions a ! i = Some j"
    "j + RING_SIZE \<le> length (msgs a)"
    using rel_length [OF rel] by (auto simp: lagging_iff in_set_conv_nth)
  with only p have "j = k" by (metis option.distinct(1) option.inject)
  with i rel_position [OF rel cid p] have k: "k + RING_SIZE = length (msgs a)"
    by simp
  then have k_less: "k < length (msgs a)"
    using RING_SIZE_pos(1) by linarith
  then have rel': "rel (log_advance a cid) (adv r cid)"
    using adv_rel [OF rel cid p] by simp
  have "\<not> lagging (log_advance a cid)"
  proof
    assume "lagging (log_advance a cid)"
    then obtain i j where "i < length (positions a)" "positions (log_advance a cid) ! i = Some j"
      "j + RING_SIZE \<le> length (msgs a)"
      by (auto simp: lagging_iff in_set_conv_nth log_advance_def)
    with only p k rel_length [OF rel] show False
      by (cases "i = cid") (auto simp: log_advance_def)
  qed
  with small have "fst (log_publish (log_advance a cid) (stamped clk ch mt payload)) = Inr ()"
    by (simp add: log_publish_def)
  with pub_sim [OF rel', of clk ch mt payload] room k_less rel' show ?thesis
    by (simp add: log_advance_def)
qed

end

interpretation ring_log:
  broadcast ring_rel publish try_consume advance register_consumer unregister_consumer
proof unfold_locales
  fix a r cid k
  assume "ring_rel a r" "cid < MAX_CONSUMERS" "positions a ! cid = Some k"
  then show "k \<le> length (msgs a) \<and> length (msgs a) \<le> k + RING_SIZE"
    using list_all2_nthD [OF ring_relD(5), of a r cid] ring_relD(6) by simp
qed (simp_all add: ring_relD(6) publish_sim try_consume_ready try_consume_empty advance_rel
       register_sim unregister_sim)

section \<open>Runs\<close>

datatype RingOp =
  OpPublish clock u32 u8 "u8 list"
| OpTryConsume nat
| OpRegister
| OpUnregister nat

datatype RingEvent =
  EvPublish "PublishError + unit"
| EvConsume "ConsumerError + bool" "Msg option"
| EvRegister "RegisterError + nat"
| EvUnregister
| EvPanic

fun ring_step :: "Ring \<Rightarrow> RingOp \<Rightarrow> RingEvent \<times> Ring" where
  "ring_step r (OpPublish clk ch mt payload) =
     (let (res, r') = publish r clk ch mt payload in (EvPublish res, r'))"
| "ring_step r (OpTryConsume cid) =
     (case try_consume r cid (\<lambda>d _. Ret (Some (msg_of_data d))) None of
        Panic \<Rightarrow> (EvPanic, r)
      | Ret (res, r', got) \<Rightarrow> (EvConsume res got, r'))"
| "ring_step r OpRegister = (let (res, r') = register_consumer r in (EvRegister res, r'))"
| "ring_step r (OpUnregister cid) = (EvUnregister, unregister_consumer r cid)"

fun ring_run :: "Ring \<Rightarrow> RingOp list \<Rightarrow> RingEvent list \<times> Ring" where
  "ring_run r [] = ([], r)"
| "ring_run r (op # ops) =
     (let (ev, r') = ring_step r op; (evs, r'') = ring_run r' ops in (ev # evs, r''))"

fun log_step :: "Log \<Rightarrow> RingOp \<Rightarrow> RingEvent \<times> Log" where
  "log_step a (OpPublish clk ch mt payload) =
     (let (res, a') = log_publish a (stamped clk ch mt payload) in (EvPublish res, a'))"
| "log_step a (OpTryConsume cid) =
     (let (got, a') = log_consume a cid in (EvConsume (Inr (got \<noteq> None)) got, a'))"
| "log_step a OpRegister = (let (res, a') = log_register a in (EvRegister res, a'))"
| "log_step a (OpUnregister cid) = (EvUnregister, log_unregister a cid)"

fun log_run :: "Log \<Rightarrow> RingOp list \<Rightarrow> RingEvent list \<times> Log" where
  "log_run a [] = ([], a)"
| "log_run a (op # ops) =
     (let (ev, a') = log_step a op; (evs, a'') = log_run a' ops in (ev # evs, a''))"

text \<open>The callers' obligation: a consumer consumes with an id it has registered.\<close>

fun op_ok :: "Log \<Rightarrow> RingOp \<Rightarrow> bool" where
  "op_ok a (OpTryConsume cid) \<longleftrightarrow> cid < MAX_CONSUMERS \<and> positions a ! cid \<noteq> None"
| "op_ok a op \<longleftrightarrow> True"

fun run_ok :: "Log \<Rightarrow> RingOp list \<Rightarrow> bool" where
  "run_ok a [] \<longleftrightarrow> True"
| "run_ok a (op # ops) \<longleftrightarrow> op_ok a op \<and> run_ok (snd (log_step a op)) ops"

lemma step_refines:
  assumes "ring_rel a r" and "op_ok a op" and "Suc (length (msgs a)) < 2 ^ 64 - 1"
  shows "fst (ring_step r op) = fst (log_step a op) \<and>
         ring_rel (snd (log_step a op)) (snd (ring_step r op))"
proof (cases op)
  case (OpPublish clk ch mt payload)
  with assms ring_log.pub_sim [of a r clk ch mt payload] show ?thesis
    by (simp add: case_prod_beta)
next
  case (OpTryConsume cid)
  then show ?thesis
    using assms ring_log.con_log [of a r cid "\<lambda>d _. Ret (Some (msg_of_data d))" None]
    by (auto split: prod.splits option.splits)
next
  case OpRegister
  with assms ring_log.reg_sim [of a r] show ?thesis by (simp add: case_prod_beta)
next
  case (OpUnregister cid)
  with assms ring_log.unreg_sim [of a r] show ?thesis by simp
qed

lemma log_step_length: "length (msgs (snd (log_step a op))) \<le> Suc (length (msgs a))"
  by (cases op) (auto simp: log_publish_def log_consume_def log_advance_def log_register_def
      log_unregister_def split: option.splits)

lemma run_refines:
  "ring_rel a r \<Longrightarrow> run_ok a ops \<Longrightarrow> length (msgs a) + length ops < 2 ^ 64 - 1 \<Longrightarrow>
   fst (ring_run r ops) = fst (log_run a ops) \<and> ring_rel (snd (log_run a ops)) (snd (ring_run r ops))"
proof (induction ops arbitrary: a r)
  case Nil
  then show ?case by simp
next
  case (Cons op ops)
  have "fst (ring_step r op) = fst (log_step a op)"
    and "ring_rel (snd (log_step a op)) (snd (ring_step r op))"
    using step_refines [of a r op] Cons.prems by simp_all
  with Cons.IH [of "snd (log_step a op)" "snd (ring_step r op)"] Cons.prems log_step_length [of a op]
  show ?case by (simp add: case_prod_beta)
qed

section \<open>What a consumer is handed\<close>

text \<open>The messages a run published, and those it handed to one consumer, in order.\<close>

fun published :: "RingOp list \<Rightarrow> RingEvent list \<Rightarrow> Msg list" where
  "published (OpPublish clk ch mt payload # ops) (EvPublish (Inr _) # evs) =
     stamped clk ch mt payload # published ops evs"
| "published (_ # ops) (_ # evs) = published ops evs"
| "published _ _ = []"

fun delivered :: "nat \<Rightarrow> RingOp list \<Rightarrow> RingEvent list \<Rightarrow> Msg list" where
  "delivered cid (OpTryConsume i # ops) (EvConsume _ (Some m) # evs) =
     (if i = cid then m # delivered cid ops evs else delivered cid ops evs)"
| "delivered cid (_ # ops) (_ # evs) = delivered cid ops evs"
| "delivered cid _ _ = []"

lemma published_Cons: "published (op # ops) (ev # evs) = published [op] [ev] @ published ops evs"
  by (induction "[op]" "[ev]" rule: published.induct) auto

lemma delivered_Cons:
  "delivered cid (op # ops) (ev # evs) = delivered cid [op] [ev] @ delivered cid ops evs"
  by (induction cid "[op]" "[ev]" rule: delivered.induct) auto

lemma log_step_fifo:
  assumes "positions a ! cid = Some k" and "cid < length (positions a)" and "op \<noteq> OpUnregister cid"
  defines "ev \<equiv> fst (log_step a op)" and "a1 \<equiv> snd (log_step a op)"
  shows "msgs a1 = msgs a @ published [op] [ev] \<and> length (positions a1) = length (positions a) \<and>
         (delivered cid [op] [ev] = [] \<and> positions a1 ! cid = Some k \<or>
          k < length (msgs a) \<and> delivered cid [op] [ev] = [msgs a ! k] \<and> positions a1 ! cid = Some (Suc k))"
proof (cases op)
  case (OpPublish clk ch mt payload)
  with assms show ?thesis by (simp add: log_publish_def)
next
  case (OpTryConsume i)
  with assms show ?thesis
    by (cases "i = cid") (auto simp: log_consume_def log_advance_def split: option.splits)
next
  case OpRegister
  with assms show ?thesis
    by (auto simp: log_register_def find_upt_Some nth_list_update split: option.splits)
next
  case (OpUnregister i)
  with assms show ?thesis by (auto simp: log_unregister_def)
qed

lemma log_run_fifo:
  assumes "positions a ! cid = Some k" and "cid < length (positions a)" and "k \<le> length (msgs a)"
    and "OpUnregister cid \<notin> set ops"
  shows "\<exists>k'. k \<le> k' \<and> k' \<le> length (msgs (snd (log_run a ops))) \<and>
    positions (snd (log_run a ops)) ! cid = Some k' \<and>
    msgs (snd (log_run a ops)) = msgs a @ published ops (fst (log_run a ops)) \<and>
    delivered cid ops (fst (log_run a ops)) = take (k' - k) (drop k (msgs (snd (log_run a ops))))"
  using assms
proof (induction ops arbitrary: a k)
  case Nil
  then show ?case by (intro exI [of _ k]) simp
next
  case (Cons op ops)
  define ev a1 where "ev = fst (log_step a op)" and "a1 = snd (log_step a op)"
  define evs a2 where "evs = fst (log_run a1 ops)" and "a2 = snd (log_run a1 ops)"
  have run: "log_run a (op # ops) = (ev # evs, a2)"
    by (simp add: ev_def a1_def evs_def a2_def case_prod_beta)
  have step: "msgs a1 = msgs a @ published [op] [ev]" "length (positions a1) = length (positions a)"
    "delivered cid [op] [ev] = [] \<and> positions a1 ! cid = Some k \<or>
     k < length (msgs a) \<and> delivered cid [op] [ev] = [msgs a ! k] \<and> positions a1 ! cid = Some (Suc k)"
    using log_step_fifo [of a cid k op] Cons.prems by (auto simp: ev_def a1_def)
  show ?case
    unfolding run fst_conv snd_conv published_Cons [of op ops] delivered_Cons [of cid op ops]
    using step(3)
  proof (elim disjE conjE)
    assume d: "delivered cid [op] [ev] = []" "positions a1 ! cid = Some k"
    then obtain k' where "k \<le> k'" "k' \<le> length (msgs a2)" "positions a2 ! cid = Some k'"
      "msgs a2 = msgs a1 @ published ops evs"
      "delivered cid ops evs = take (k' - k) (drop k (msgs a2))"
      using step Cons.prems Cons.IH [of a1 k] by (auto simp: evs_def a2_def)
    with d step show "\<exists>k'\<ge>k. k' \<le> length (msgs a2) \<and> positions a2 ! cid = Some k' \<and>
        msgs a2 = msgs a @ published [op] [ev] @ published ops evs \<and>
        delivered cid [op] [ev] @ delivered cid ops evs = take (k' - k) (drop k (msgs a2))"
      by (intro exI [of _ k']) simp
  next
    assume d: "k < length (msgs a)" "delivered cid [op] [ev] = [msgs a ! k]"
      "positions a1 ! cid = Some (Suc k)"
    then obtain k' where k': "Suc k \<le> k'" "k' \<le> length (msgs a2)" "positions a2 ! cid = Some k'"
      "msgs a2 = msgs a1 @ published ops evs"
      "delivered cid ops evs = take (k' - Suc k) (drop (Suc k) (msgs a2))"
      using step Cons.prems Cons.IH [of a1 "Suc k"] by (auto simp: evs_def a2_def)
    have "msgs a2 ! k = msgs a ! k" "k < length (msgs a2)"
      using d(1) k'(4) step(1) by (simp_all add: nth_append)
    then have "msgs a ! k # take (k' - Suc k) (drop (Suc k) (msgs a2)) = take (k' - k) (drop k (msgs a2))"
      using k'(1) by (simp add: Cons_nth_drop_Suc [symmetric] take_Cons')
    with d k' step show "\<exists>k'\<ge>k. k' \<le> length (msgs a2) \<and> positions a2 ! cid = Some k' \<and>
        msgs a2 = msgs a @ published [op] [ev] @ published ops evs \<and>
        delivered cid [op] [ev] @ delivered cid ops evs = take (k' - k) (drop k (msgs a2))"
      by (intro exI [of _ k']) simp
  qed
qed

text \<open>Evaluation of the log's operations where nothing lags.\<close>

lemma not_lagging_short: "length (msgs a) < RING_SIZE \<Longrightarrow> \<not> lagging a"
  by (auto simp: lagging_iff)

lemma log_register_first:
  "positions a \<noteq> [] \<Longrightarrow> positions a ! 0 = None \<Longrightarrow>
   log_register a = (Inr 0, a\<lparr>positions := (positions a)[0 := Some (length (msgs a))]\<rparr>)"
  using find_upt_Some [of "\<lambda>i. positions a ! i = None" "length (positions a)" 0]
  by (simp add: log_register_def)

lemmas log_eval = log_new_def log_register_first not_lagging_short log_publish_def
  log_consume_def log_advance_def log_unregister_def size_consts

section \<open>Properties\<close>

text \<open>
  C4: refinement. Any sequence of calls on a fresh ring in which consumers use ids they have
  registered returns, call by call, what the append-only log returns: publications are
  refused exactly when a registered consumer is a whole ring behind or the payload is too
  long, and consumers never fall behind, never panic and read the messages as published.
\<close>

theorem ring_refines_log:
  "run_ok log_new ops \<Longrightarrow> length ops < 2 ^ 64 - 1 \<Longrightarrow>
   fst (ring_run ring_new ops) = fst (log_run log_new ops) \<and>
   ring_rel (snd (log_run log_new ops)) (snd (ring_run ring_new ops))"
  by (rule run_refines [OF ring_rel_new]) (simp_all add: log_new_def)

theorem ring_refines_log_witness:
  "fst (ring_run ring_new [OpRegister, OpPublish (Some 7) 42 1 [104, 105], OpTryConsume 0, OpTryConsume 0]) =
     [EvRegister (Inr 0), EvPublish (Inr ()),
      EvConsume (Inr True) (Some (stamped (Some 7) 42 1 [104, 105])), EvConsume (Inr False) None]"
  using ring_refines_log [of "[OpRegister, OpPublish (Some 7) 42 1 [104, 105], OpTryConsume 0, OpTryConsume 0]"]
  by (simp add: log_eval)

text \<open>
  Delivery in order, without loss or repetition. While a consumer stays registered at
  position \<open>k\<close>, a run hands it a contiguous segment, starting at \<open>k\<close>, of the messages
  published before and during the run, whatever the other calls and consumers do.
\<close>

lemma consumer_reads_in_order:
  assumes "ring_rel a r" and "run_ok a ops" and "length (msgs a) + length ops < 2 ^ 64 - 1"
    and "cid < MAX_CONSUMERS" and "positions a ! cid = Some k" and "OpUnregister cid \<notin> set ops"
  shows "\<exists>n. delivered cid ops (fst (ring_run r ops)) =
             take n (drop k (msgs a @ published ops (fst (ring_run r ops))))"
proof -
  have "k \<le> length (msgs a)"
    using ring_log.rel_position [OF assms(1,4,5)] by simp
  then obtain k' where "msgs (snd (log_run a ops)) = msgs a @ published ops (fst (log_run a ops))"
    "delivered cid ops (fst (log_run a ops)) = take (k' - k) (drop k (msgs (snd (log_run a ops))))"
    using assms log_run_fifo [of a cid k ops] ring_relD(6) [of a r] by auto
  moreover have "fst (ring_run r ops) = fst (log_run a ops)"
    using run_refines assms(1-3) by blast
  ultimately show ?thesis by (metis (no_types))
qed

lemma consumer_reads_in_order_example:
  "\<exists>n. delivered 0 [OpPublish None 5 1 [9], OpTryConsume 0]
         (fst (ring_run (snd (register_consumer ring_new)) [OpPublish None 5 1 [9], OpTryConsume 0])) =
       take n (drop 0 ([] @ published [OpPublish None 5 1 [9], OpTryConsume 0]
         (fst (ring_run (snd (register_consumer ring_new)) [OpPublish None 5 1 [9], OpTryConsume 0]))))"
  using consumer_reads_in_order [of "snd (log_register log_new)" "snd (register_consumer ring_new)"
      "[OpPublish None 5 1 [9], OpTryConsume 0]" 0 0] register_sim [OF ring_rel_new]
  by (simp add: log_eval del: ring_run.simps)

end
