(* ===== verification/Ring_Interleaved.thy ===== *)
theory Ring_Interleaved
  imports Ring_Safety Ring_Run
begin

text \<open>
  What the interleaved ring promises for every reachable state: no data race, no consumer
  behind, messages delivered in order and untorn, and a simulation of the log whose two
  visible steps are the Release stores. The sequential methods are runs of its steps.
\<close>

section \<open>Reachable states\<close>

lemma committed_mono: "conc_step s l t \<Longrightarrow> length (committed s) \<le> length (committed t)"
  by (erule conc_stepE) simp_all

text \<open>A registered consumer's cursor never moves back behind its start.\<close>

definition started :: "(nat \<Rightarrow> nat) \<Rightarrow> Conc \<Rightarrow> bool" where
  "started st s \<longleftrightarrow> (\<forall>cid<MAX_CONSUMERS. consumers (ring s) ! cid \<noteq> CONSUMER_FREE \<longrightarrow>
                      st cid \<le> unat (consumers (ring s) ! cid))"

lemma started_step:
  assumes "conc_step s l t" and inv: "conc_inv st s" and "length (committed s) < 2 ^ 64 - 1"
    and st: "started st s"
  shows "started st t"
  using assms(1)
proof cases
  case (c_store cid x)
  then have x: "cid < MAX_CONSUMERS" "consumers (ring s) ! cid = x" "x \<noteq> CONSUMER_FREE"
    "unat x < length (committed s)"
    using conc_invD(6) [OF inv, of cid] by (simp_all add: reading_ok_def)
  then have "unat (x + 1) = Suc (unat x)" "st cid \<le> unat x"
    using assms(3) st by (auto simp: started_def u64_add_one)
  with c_store x st ring_shapeD(2) [OF conc_invD(1) [OF inv]] show ?thesis
    by (auto simp: started_def nth_list_update)
qed (use st in \<open>auto simp: started_def\<close>)

lemma reach_inv:
  assumes "conc_reach s0 t" and "conc_inv st s0" and "started st s0"
    and "length (committed t) < 2 ^ 64 - 1"
  shows "conc_inv st t \<and> started st t"
  using assms
proof (induction rule: conc_reach.induct)
  case (step s l t)
  then have "length (committed s) < 2 ^ 64 - 1"
    using committed_mono [of s l t] by simp
  with step conc_step_inv [of s l t st] started_step [of s l t st] show ?case by blast
qed simp

definition start_positions :: "Ring \<Rightarrow> nat \<Rightarrow> nat" where
  "start_positions r cid = unat (consumers r ! cid)"

lemma init_inv:
  assumes rel: "ring_rel a r"
  shows "conc_inv (start_positions r) (conc_init a r)" and "started (start_positions r) (conc_init a r)"
proof -
  have cur: "cursor_rel (length (msgs a)) (positions a ! j) (consumers r ! j)" if "j < MAX_CONSUMERS" for j
    using list_all2_nthD [OF ring_relD(5) [OF rel], of j] ring_relD(6) [OF rel] that by simp
  have len: "length (consumers r) = MAX_CONSUMERS"
    using ring_shapeD(2) [OF ring_relD(1) [OF rel]] .
  have "cursors_ok (length (msgs a)) (consumers r)"
    unfolding cursors_ok_def
  proof (intro allI impI)
    fix j assume "j < length (consumers r)" "consumers r ! j \<noteq> CONSUMER_FREE"
    with cur [of j] len show "unat (consumers r ! j) \<le> length (msgs a) \<and>
        length (msgs a) \<le> unat (consumers r ! j) + RING_SIZE"
      by (cases "positions a ! j") simp_all
  qed
  moreover have "live_seqs (length (msgs a)) (slots r)" "live_data False (msgs a) (slots r)"
    using ring_relD(4) [OF rel] by (auto simp: slots_rel_def live_seqs_def live_data_def slot_holds_def)
  ultimately show "conc_inv (start_positions r) (conc_init a r)"
    using ring_relD(1,3) [OF rel]
    by (auto intro!: conc_invI simp: conc_init_def got_ok_def start_positions_def cursors_ok_def len)
  show "started (start_positions r) (conc_init a r)"
    by (simp add: started_def start_positions_def conc_init_def)
qed

lemma reachable_inv:
  assumes "ring_rel a r" and "conc_reach (conc_init a r) s" and "length (committed s) < 2 ^ 64 - 1"
  shows "conc_inv (start_positions r) s" and "started (start_positions r) s"
  using reach_inv [OF assms(2) init_inv [OF assms(1)] assms(3)] by simp_all

section \<open>The sequential methods are runs\<close>

lemma conc_reach_trans: "conc_reach s t \<Longrightarrow> conc_reach t u \<Longrightarrow> conc_reach s u"
  by (rotate_tac, induction rule: conc_reach.induct) (auto intro: conc_reach.step)

lemma conc_reach_step: "conc_step s l t \<Longrightarrow> conc_reach t u \<Longrightarrow> conc_reach s u"
  using conc_reach_trans conc_reach.step [OF conc_reach.start] by blast

text \<open>Runs inside calls: no producer and no consumer enters a method.\<close>

definition inside_calls :: "Conc \<Rightarrow> Conc \<Rightarrow> bool" where
  "inside_calls s t \<longleftrightarrow> (ppc s = PIdle \<longrightarrow> ppc t = PIdle) \<and> (\<forall>cid. cpcs s cid = CIdle \<longrightarrow> cpcs t cid = CIdle)"

inductive conc_within :: "Conc \<Rightarrow> Conc \<Rightarrow> bool" for s0 where
  w_start: "conc_within s0 s0"
| w_step: "conc_within s0 s \<Longrightarrow> conc_step s l t \<Longrightarrow> inside_calls s t \<Longrightarrow> conc_within s0 t"

lemma within_reach: "conc_within s t \<Longrightarrow> conc_reach s t"
  by (induction rule: conc_within.induct) (auto intro: conc_reach.intros)

lemma within_trans: "conc_within s t \<Longrightarrow> conc_within t u \<Longrightarrow> conc_within s u"
  by (rotate_tac, induction rule: conc_within.induct) (auto intro: conc_within.intros)

lemma within_step: "conc_step s l t \<Longrightarrow> conc_within t u \<Longrightarrow> inside_calls s t \<Longrightarrow> conc_within s u"
  using within_trans w_step [OF w_start] by blast

lemma scan_run:
  assumes "ppc s = PScan x i m p" and "i \<le> length (consumers (ring s))"
  shows "conc_within s (s\<lparr>ppc := PScan x (length (consumers (ring s)))
                                   (scan_min m (drop i (consumers (ring s)))) p\<rparr>)"
  using assms
proof (induction "length (consumers (ring s)) - i" arbitrary: s i m)
  case 0
  then have same: "s\<lparr>ppc := PScan x (length (consumers (ring s)))
                        (scan_min m (drop i (consumers (ring s)))) p\<rparr> = s"
    by (cases s) simp
  show ?case unfolding same by (rule w_start)
next
  case (Suc k)
  let ?cs = "consumers (ring s)"
  let ?s1 = "s\<lparr>ppc := PScan x (Suc i) (if ?cs ! i < m then ?cs ! i else m) p\<rparr>"
  from Suc.hyps(2) have i: "i < length ?cs" by simp
  have "conc_step s Internal ?s1"
    by (rule p_scan [OF Suc.prems(1) i refl])
  moreover have "conc_within ?s1 (?s1\<lparr>ppc := PScan x (length ?cs)
      (scan_min (if ?cs ! i < m then ?cs ! i else m) (drop (Suc i) ?cs)) p\<rparr>)"
    using Suc.hyps(1) [of ?s1 "Suc i" "if ?cs ! i < m then ?cs ! i else m"] Suc.hyps(2) i by simp
  moreover have "inside_calls s ?s1" using Suc.prems(1) by (simp add: inside_calls_def)
  ultimately show ?case
    using i by (auto simp: Cons_nth_drop_Suc [symmetric] intro: within_step)
qed

lemma write_run:
  assumes "ppc s = PWrite x p todo" and "slot_index x < length (slots (ring s))"
  shows "conc_within s (s\<lparr>ring := set_data (ring s) (slot_index x)
                                  (fold (write_field p) todo (data (slots (ring s) ! slot_index x))),
                         ppc := PWrite x p []\<rparr>)"
  using assms
proof (induction todo arbitrary: s)
  case Nil
  then have same: "s\<lparr>ring := set_data (ring s) (slot_index x)
      (fold (write_field p) [] (data (slots (ring s) ! slot_index x))), ppc := PWrite x p []\<rparr> = s"
    by (cases s) (simp add: set_data_def)
  show ?case unfolding same by (rule w_start)
next
  case (Cons f todo)
  let ?i = "slot_index x"
  let ?s1 = "s\<lparr>ring := set_data (ring s) ?i (write_field p f (data (slots (ring s) ! ?i))),
               ppc := PWrite x p todo\<rparr>"
  have "conc_step s Internal ?s1"
    by (rule p_write [OF Cons.prems(1) refl])
  moreover have "conc_within ?s1 (?s1\<lparr>ring := set_data (ring ?s1) ?i
      (fold (write_field p) todo (data (slots (ring ?s1) ! ?i))), ppc := PWrite x p []\<rparr>)"
    by (rule Cons.IH) (use Cons.prems in simp_all)
  moreover have "inside_calls s ?s1" using Cons.prems(1) by (simp add: inside_calls_def)
  ultimately show ?case
    using Cons.prems by (auto simp: set_data_def intro: within_step)
qed

definition program_order :: "Field list" where
  "program_order = [FChannel, FType, FLen, FTime, FPayload]"

lemma set_program_order: "set program_order = UNIV"
  by (auto simp: program_order_def) (metis Field.exhaust)

text \<open>The publication of a message, from the start of the scan to the end of the call.\<close>

definition pub_args :: "clock \<Rightarrow> u32 \<Rightarrow> u8 \<Rightarrow> u8 list \<Rightarrow> PubArgs" where
  "pub_args clk ch mt payload = \<lparr>p_clock = clk, p_channel_id = ch, p_msg_type = mt, p_payload = payload\<rparr>"

lemma publish_within:
  assumes idle: "ppc s = PIdle" and shape: "ring_shape (ring s)"
    and pub: "publish (ring s) clk ch mt payload = (Inr (), r')"
  shows "conc_within (s\<lparr>ppc := PScan (producer_seq (ring s)) 0 U64_MAX (pub_args clk ch mt payload)\<rparr>)
    (s\<lparr>ring := r', committed := committed s @ [stamped clk ch mt payload]\<rparr>)"
proof -
  let ?p = "pub_args clk ch mt payload"
  let ?x = "producer_seq (ring s)" and ?cs = "consumers (ring s)" and ?i = "slot_index (producer_seq (ring s))"
  let ?m = "min_consumer_cursor (ring s)" and ?d = "data (slots (ring s) ! ?i)"
  let ?r1 = "set_data (ring s) ?i (fold (write_field ?p) program_order ?d)"
  let ?r2 = "set_seq ?r1 ?i (?x + 1)"
  have len: "?i < length (slots (ring s))"
    using ring_shapeD(1) [OF shape] by simp
  have pass: "\<not> (?m \<noteq> U64_MAX \<and> as_u64 RING_SIZE \<le> ?x - ?m)"
    and r': "r' = (ring s)\<lparr>slots := (slots (ring s))[?i := (slots (ring s) ! ?i)
      \<lparr>data := write_slot_data clk ch mt payload ?d, seq := ?x + 1\<rparr>], producer_seq := ?x + 1\<rparr>"
    using pub by (auto simp: publish_def Let_def split: if_splits)
  have "conc_within (s\<lparr>ppc := PScan ?x 0 U64_MAX ?p\<rparr>) (s\<lparr>ppc := PScan ?x (length ?cs) ?m ?p\<rparr>)"
    using scan_run [of "s\<lparr>ppc := PScan ?x 0 U64_MAX ?p\<rparr>" ?x 0 U64_MAX ?p]
    by (simp add: min_consumer_cursor_def)
  moreover have "conc_step (s\<lparr>ppc := PScan ?x (length ?cs) ?m ?p\<rparr>) Internal (s\<lparr>ppc := PWrite ?x ?p program_order\<rparr>)"
    using p_accept [of "s\<lparr>ppc := PScan ?x (length ?cs) ?m ?p\<rparr>" ?x "length ?cs" ?m ?p program_order]
      pass set_program_order by simp
  moreover have "conc_within (s\<lparr>ppc := PWrite ?x ?p program_order\<rparr>) (s\<lparr>ring := ?r1, ppc := PWrite ?x ?p []\<rparr>)"
    using write_run [of "s\<lparr>ppc := PWrite ?x ?p program_order\<rparr>"] len by simp
  moreover have "conc_step (s\<lparr>ring := ?r1, ppc := PWrite ?x ?p []\<rparr>) (Commits (args_msg ?p))
      (s\<lparr>ring := ?r2, ppc := PHead ?x, committed := committed s @ [args_msg ?p]\<rparr>)"
    using p_commit [of "s\<lparr>ring := ?r1, ppc := PWrite ?x ?p []\<rparr>" ?x ?p] by simp
  moreover have "conc_step (s\<lparr>ring := ?r2, ppc := PHead ?x, committed := committed s @ [args_msg ?p]\<rparr>) Internal
      (s\<lparr>ring := ?r2\<lparr>producer_seq := ?x + 1\<rparr>, ppc := PIdle, committed := committed s @ [args_msg ?p]\<rparr>)"
    using p_head [of "s\<lparr>ring := ?r2, ppc := PHead ?x, committed := committed s @ [args_msg ?p]\<rparr>" ?x]
    by (cases s) simp
  moreover have "inside_calls (s\<lparr>ppc := PScan ?x (length ?cs) ?m ?p\<rparr>) (s\<lparr>ppc := PWrite ?x ?p program_order\<rparr>)"
    "inside_calls (s\<lparr>ring := ?r1, ppc := PWrite ?x ?p []\<rparr>)
      (s\<lparr>ring := ?r2, ppc := PHead ?x, committed := committed s @ [args_msg ?p]\<rparr>)"
    "inside_calls (s\<lparr>ring := ?r2, ppc := PHead ?x, committed := committed s @ [args_msg ?p]\<rparr>)
      (s\<lparr>ring := ?r2\<lparr>producer_seq := ?x + 1\<rparr>, ppc := PIdle, committed := committed s @ [args_msg ?p]\<rparr>)"
    by (simp_all add: inside_calls_def)
  ultimately have "conc_within (s\<lparr>ppc := PScan ?x 0 U64_MAX ?p\<rparr>) (s\<lparr>ring := ?r2\<lparr>producer_seq := ?x + 1\<rparr>, ppc := PIdle,
      committed := committed s @ [args_msg ?p]\<rparr>)"
    by (meson within_step within_trans w_start)
  moreover have "?r2\<lparr>producer_seq := ?x + 1\<rparr> = r'"
    using len by (simp add: r' set_seq_def set_data_def program_order_def write_slot_data_def pub_args_def)
  moreover have "s\<lparr>ring := r', ppc := PIdle, committed := committed s @ [args_msg ?p]\<rparr> =
      s\<lparr>ring := r', committed := committed s @ [stamped clk ch mt payload]\<rparr>"
    using idle by (cases s) (simp add: args_msg_def pub_args_def)
  ultimately show ?thesis by (simp only:)
qed

lemma publish_run:
  assumes "ppc s = PIdle" and "ring_shape (ring s)"
    and "publish (ring s) clk ch mt payload = (Inr (), r')"
  shows "conc_reach s (s\<lparr>ring := r', committed := committed s @ [stamped clk ch mt payload]\<rparr>)"
proof -
  have "\<not> length (p_payload (pub_args clk ch mt payload)) > PAYLOAD_CAP"
    using assms(3) by (auto simp: pub_args_def publish_def split: if_splits)
  from p_start [OF assms(1) this] within_reach [OF publish_within [OF assms]] show ?thesis
    by (rule conc_reach_step)
qed

lemma read_run:
  assumes "cpcs s cid = CReading x todo acc"
  shows "conc_within s (s\<lparr>cpcs := (cpcs s)(cid := CReading x []
           (fold (\<lambda>f. read_field f (data (slots (ring s) ! slot_index x))) todo acc))\<rparr>)"
  using assms
proof (induction todo arbitrary: s acc)
  case Nil
  then have "(cpcs s)(cid := CReading x [] acc) = cpcs s"
    by (rule fun_upd_idem)
  then have same: "s\<lparr>cpcs := (cpcs s)(cid := CReading x []
      (fold (\<lambda>f. read_field f (data (slots (ring s) ! slot_index x))) [] acc))\<rparr> = s"
    by simp
  show ?case unfolding same by (rule w_start)
next
  case (Cons f todo)
  let ?d = "data (slots (ring s) ! slot_index x)"
  let ?s1 = "s\<lparr>cpcs := (cpcs s)(cid := CReading x todo (read_field f ?d acc))\<rparr>"
  have "conc_step s Internal ?s1"
    by (rule c_read [OF Cons.prems refl])
  moreover have "conc_within ?s1 (?s1\<lparr>cpcs := (cpcs ?s1)(cid := CReading x []
      (fold (\<lambda>f. read_field f (data (slots (ring ?s1) ! slot_index x))) todo (read_field f ?d acc)))\<rparr>)"
    by (rule Cons.IH) simp
  moreover have "inside_calls s ?s1" using Cons.prems by (simp add: inside_calls_def)
  ultimately have "conc_within s (?s1\<lparr>cpcs := (cpcs ?s1)(cid := CReading x []
      (fold (\<lambda>f. read_field f (data (slots (ring ?s1) ! slot_index x))) todo (read_field f ?d acc)))\<rparr>)"
    by (rule within_step)
  then show ?case by (simp del: fun_upd_apply)
qed

lemma read_all: "fold (\<lambda>f. read_field f d) program_order acc = d"
  by (rule all_fields_eq) (simp add: all_fields program_order_def)

text \<open>A consumption, from the load of the cursor to its store.\<close>

lemma consume_within:
  assumes pc: "cpcs s cid = CIdle" and cid: "cid < length (consumers (ring s))"
    and ready: "seq (slots (ring s) ! slot_index (consumers (ring s) ! cid)) = consumers (ring s) ! cid + 1"
  shows "conc_within (s\<lparr>cpcs := (cpcs s)(cid := CLoaded (consumers (ring s) ! cid))\<rparr>)
    (s\<lparr>ring := (ring s)\<lparr>consumers := (consumers (ring s))[cid := consumers (ring s) ! cid + 1]\<rparr>,
       got := (got s)(cid := got s cid @ [msg_of_data (data (slots (ring s) ! slot_index (consumers (ring s) ! cid)))])\<rparr>)"
proof -
  let ?x = "consumers (ring s) ! cid" and ?d = "data (slots (ring s) ! slot_index (consumers (ring s) ! cid))"
  let ?s = "\<lambda>pc. s\<lparr>cpcs := (cpcs s)(cid := pc)\<rparr>" and ?got = "(got s)(cid := got s cid @ [msg_of_data ?d])"
  let ?r = "(ring s)\<lparr>consumers := (consumers (ring s))[cid := ?x + 1]\<rparr>"
  have "conc_step (?s (CLoaded ?x)) Internal (?s (CReading ?x program_order slot_zeroed))"
    using c_ready [of "?s (CLoaded ?x)" cid ?x program_order] ready set_program_order by simp
  moreover have "conc_within (?s (CReading ?x program_order slot_zeroed)) (?s (CReading ?x [] ?d))"
    using read_run [of "?s (CReading ?x program_order slot_zeroed)" cid ?x program_order slot_zeroed]
    by (simp add: read_all)
  moreover have "conc_step (?s (CReading ?x [] ?d)) Internal (?s (CDone ?x)\<lparr>got := ?got\<rparr>)"
    using c_call [of "?s (CReading ?x [] ?d)" cid ?x ?d] by simp
  moreover have "conc_step (?s (CDone ?x)\<lparr>got := ?got\<rparr>) (Takes cid (msg_of_data ?d)) (?s CIdle\<lparr>ring := ?r, got := ?got\<rparr>)"
    using c_store [of "?s (CDone ?x)\<lparr>got := ?got\<rparr>" cid ?x] by (cases s) simp
  moreover have "inside_calls (?s (CLoaded ?x)) (?s (CReading ?x program_order slot_zeroed))"
    "inside_calls (?s (CReading ?x [] ?d)) (?s (CDone ?x)\<lparr>got := ?got\<rparr>)"
    "inside_calls (?s (CDone ?x)\<lparr>got := ?got\<rparr>) (?s CIdle\<lparr>ring := ?r, got := ?got\<rparr>)"
    by (simp_all add: inside_calls_def)
  ultimately have "conc_within (?s (CLoaded ?x)) (?s CIdle\<lparr>ring := ?r, got := ?got\<rparr>)"
    by (meson within_step within_trans w_start)
  moreover have "?s CIdle\<lparr>ring := ?r, got := ?got\<rparr> = s\<lparr>ring := ?r, got := ?got\<rparr>"
    using fun_upd_idem [of "cpcs s" cid CIdle] pc by (cases s) simp
  ultimately show ?thesis by (simp only:)
qed

lemma try_consume_run:
  assumes idle: "cpcs s cid = CIdle" and reg: "consumers (ring s) ! cid \<noteq> CONSUMER_FREE"
    and con: "try_consume (ring s) cid (\<lambda>d _. Ret [msg_of_data d]) [] = Ret (Inr True, r', ms)"
  shows "conc_reach s (s\<lparr>ring := r', got := (got s)(cid := got s cid @ ms)\<rparr>)"
proof -
  let ?x = "consumers (ring s) ! cid" and ?d = "data (slots (ring s) ! slot_index (consumers (ring s) ! cid))"
  have cid: "cid < length (consumers (ring s))" and ready: "seq (slots (ring s) ! slot_index ?x) = ?x + 1"
    and r': "r' = (ring s)\<lparr>consumers := (consumers (ring s))[cid := ?x + 1]\<rparr>" and ms: "ms = [msg_of_data ?d]"
    using con by (auto simp: try_consume_def index_def Let_def split: if_splits)
  from c_load [OF idle cid refl reg] within_reach [OF consume_within [OF idle cid ready]] show ?thesis
    unfolding r' ms by (rule conc_reach_step)
qed

section \<open>The log the threads share\<close>

definition conc_log :: "Conc \<Rightarrow> Log" where
  "conc_log s = \<lparr>msgs = committed s,
                 positions = map (\<lambda>c. if c = CONSUMER_FREE then None else Some (unat c)) (consumers (ring s))\<rparr>"

definition visible :: "Log \<Rightarrow> Label \<Rightarrow> Log \<Rightarrow> bool" where
  "visible a l a' \<longleftrightarrow>
     (case l of
        Internal \<Rightarrow> a' = a
      | Commits m \<Rightarrow> log_publish a m = (Inr (), a')
      | Takes cid m \<Rightarrow> log_consume a cid = (Some m, a'))"

lemma room_not_lagging:
  assumes "room (length (committed s)) (consumers (ring s))"
  shows "\<not> lagging (conc_log s)"
proof
  assume "lagging (conc_log s)"
  then obtain c where "c \<in> set (consumers (ring s))" "c \<noteq> CONSUMER_FREE"
    "unat c + RING_SIZE \<le> length (committed s)"
    by (auto simp: lagging_iff conc_log_def split: if_splits)
  with assms show False by (auto simp: room_def in_set_conv_nth)
qed

lemma done_message:
  assumes inv: "conc_inv st s" and st: "started st s" and pc: "cpcs s cid = CDone x"
  shows "last (got s cid) = committed s ! unat x"
proof -
  have x: "cid < MAX_CONSUMERS" "consumers (ring s) ! cid = x" "x \<noteq> CONSUMER_FREE"
    "unat x < length (committed s)"
    using conc_invD(6) [OF inv, of cid] pc by (simp_all add: reading_ok_def)
  then have "st cid \<le> unat x"
    using st by (auto simp: started_def)
  moreover have "got s cid = take (Suc (unat x) - st cid) (drop (st cid) (committed s))"
    using conc_invD(7) [OF inv, of cid] x pc by (simp add: got_ok_def)
  moreover from this have "Suc (unat x) - st cid \<le> length (committed s) - st cid"
    using x(4) by (simp add: diff_le_mono)
  ultimately show ?thesis
    using x(4) by (simp add: last_conv_nth min_absorb2)
qed

lemma step_simulates:
  assumes "conc_step s l t" and inv: "conc_inv st s" and n: "length (committed s) < 2 ^ 64 - 1"
    and st: "started st s"
  shows "visible (conc_log s) l (conc_log t)"
  using assms(1)
proof cases
  case (p_commit x p)
  then have "room (length (committed s)) (consumers (ring s))" "length (p_payload p) \<le> PAYLOAD_CAP"
    using conc_invD(5) [OF inv] by simp_all
  with p_commit room_not_lagging [of s] show ?thesis
    by (simp add: visible_def log_publish_def args_msg_def conc_log_def)
next
  case (c_store cid x)
  then have x: "cid < MAX_CONSUMERS" "consumers (ring s) ! cid = x" "x \<noteq> CONSUMER_FREE"
    "unat x < length (committed s)"
    using conc_invD(6) [OF inv, of cid] by (simp_all add: reading_ok_def)
  then have v: "unat (x + 1) = Suc (unat x)"
    using n by (simp add: u64_add_one)
  then have "unat (x + 1) \<noteq> unat CONSUMER_FREE"
    using x(4) n unfolding CONSUMER_FREE_def unat_U64_MAX by simp
  then have "x + 1 \<noteq> CONSUMER_FREE" by metis
  with c_store x v done_message [OF inv st] ring_shapeD(2) [OF conc_invD(1) [OF inv]] show ?thesis
    by (simp add: visible_def log_consume_def log_advance_def conc_log_def map_update)
qed (simp_all add: visible_def conc_log_def)

text \<open>A quiet state is a ring that represents its log.\<close>

lemma quiet_ring_rel:
  assumes inv: "conc_inv st s" and "ppc s = PIdle" and n: "length (committed s) < 2 ^ 64 - 1"
  shows "ring_rel (conc_log s) (ring s)"
proof -
  have "slots_rel (committed s) (slots (ring s))"
    using conc_invD(2,3) [OF inv] assms(2)
    by (auto simp: slots_rel_def live_seqs_def live_data_def slot_holds_def)
  moreover have "list_all2 (cursor_rel (length (committed s)))
      (map (\<lambda>c. if c = CONSUMER_FREE then None else Some (unat c)) (consumers (ring s))) (consumers (ring s))"
    using conc_invD(4) [OF inv] by (auto simp: list_all2_conv_all_nth cursors_ok_def)
  ultimately show ?thesis
    using conc_invD(1,5) [OF inv] assms(2) n by (simp add: ring_rel_def conc_log_def)
qed

lemma inv_no_race:
  assumes inv: "conc_inv st s"
  shows "\<not> data_race s"
proof
  assume "data_race s"
  then obtain x p todo cid y todo' acc where pc: "ppc s = PWrite x p todo"
    "cpcs s cid = CReading y todo' acc" and same: "slot_index x = slot_index y"
    by (auto simp: data_race_def)
  then have y: "reading_ok (length (committed s)) (ring s) cid y" "unat y < length (committed s)"
    and x: "unat x = length (committed s)"
    using conc_invD(5) [OF inv] conc_invD(6) [OF inv, of cid] by simp_all
  have "length (committed s) < unat y + RING_SIZE"
    using reading_window(3) [OF inv y(1)] pc by simp
  with other_slot [OF y(2)] same x show False
    by (simp add: slot_index_mod)
qed

section \<open>Properties\<close>

text \<open>
  A run to apply the properties to: one consumer is registered, a message is published and
  the consumer takes it, step by step.
\<close>

definition demo_ring :: Ring where
  "demo_ring = snd (register_consumer ring_new)"

definition demo_log :: Log where
  "demo_log = snd (log_register log_new)"

lemma demo_rel: "ring_rel demo_log demo_ring"
  using register_sim [OF ring_rel_new] by (simp add: demo_log_def demo_ring_def)

lemma demo_log_eq: "demo_log = \<lparr>msgs = [], positions = (replicate 64 None)[0 := Some 0]\<rparr>"
  by (simp add: demo_log_def log_eval)

lemma demo_cursor: "consumers demo_ring ! 0 = 0"
  using list_all2_nthD [OF ring_relD(5) [OF demo_rel], of 0]
  by (simp add: demo_log_eq word_unat_eq_iff)

lemma demo_published:
  "\<exists>s. conc_reach (conc_init demo_log demo_ring) s \<and> ppc s = PIdle \<and> cpcs s 0 = CIdle \<and>
       committed s = [stamped None 5 1 [9]] \<and> got s = (\<lambda>_. []) \<and> consumers (ring s) ! 0 = 0"
proof -
  let ?s = "conc_init demo_log demo_ring"
  have "fst (publish demo_ring None 5 1 [9]) = Inr ()"
    using publish_sim [OF demo_rel, of None 5 1 "[9]"] by (simp add: demo_log_eq log_eval)
  then have "publish (ring ?s) None 5 1 [9] = (Inr (), snd (publish demo_ring None 5 1 [9]))"
    by (simp add: conc_init_def prod_eq_iff)
  with publish_run [of ?s None 5 1 "[9]"] ring_relD(1) [OF demo_rel]
  have "conc_reach ?s (?s\<lparr>ring := snd (publish demo_ring None 5 1 [9]),
      committed := [stamped None 5 1 [9]]\<rparr>)"
    by (simp add: conc_init_def demo_log_eq)
  then show ?thesis
    by (intro exI conjI) (assumption | simp add: conc_init_def publish_consumers demo_cursor)+
qed

text \<open>
  No data race. In no interleaving does the producer write the data of a slot while
  a consumer reads it, so the \<open>UnsafeCell\<close> accesses of \<open>ring.rs\<close> are never concurrent.
\<close>

lemma ring_no_data_race:
  assumes "ring_rel a r" and "conc_reach (conc_init a r) s" and "length (committed s) < 2 ^ 64 - 1"
  shows "\<not> data_race s"
  by (rule inv_no_race [OF reachable_inv(1) [OF assms]])

lemma ring_no_data_race_example:
  "\<exists>s. conc_reach (conc_init demo_log demo_ring) s \<and> committed s = [stamped None 5 1 [9]] \<and> \<not> data_race s"
proof -
  obtain s where s: "conc_reach (conc_init demo_log demo_ring) s" "committed s = [stamped None 5 1 [9]]"
    using demo_published by blast
  with ring_no_data_race [OF demo_rel s(1)] show ?thesis by auto
qed

text \<open>
  Delivery under interleaving. Whatever the interleaving, a registered consumer never
  sees \<open>FellBehind\<close>, and the messages its callback has been given are exactly the next
  committed messages from its start position: in order, none lost or repeated, none torn.
\<close>

lemma ring_delivers_untorn:
  assumes "ring_rel a r" and "conc_reach (conc_init a r) s" and "length (committed s) < 2 ^ 64 - 1"
    and "cid < MAX_CONSUMERS" and "consumers (ring s) ! cid \<noteq> CONSUMER_FREE"
  shows "cpcs s cid \<noteq> CFell \<and>
         got s cid = take (length (got s cid)) (drop (unat (consumers r ! cid)) (committed s))"
proof
  note inv = reachable_inv(1) [OF assms(1-3)]
  show "cpcs s cid \<noteq> CFell"
    using conc_invD(6) [OF inv, of cid] by auto
  show "got s cid = take (length (got s cid)) (drop (unat (consumers r ! cid)) (committed s))"
    using conc_invD(7) [OF inv assms(4,5)]
    by (simp add: got_ok_def start_positions_def min_def)
qed

lemma ring_delivers_untorn_example:
  "\<exists>s. conc_reach (conc_init demo_log demo_ring) s \<and> committed s = [stamped None 5 1 [9]] \<and>
       cpcs s 0 \<noteq> CFell \<and> got s 0 = take (length (got s 0)) [stamped None 5 1 [9]]"
proof -
  obtain s where s: "conc_reach (conc_init demo_log demo_ring) s" "committed s = [stamped None 5 1 [9]]"
    "consumers (ring s) ! 0 = 0"
    using demo_published by blast
  with ring_delivers_untorn [OF demo_rel s(1), of 0] demo_cursor show ?thesis
    by (auto simp: MAX_CONSUMERS_def CONSUMER_FREE_def)
qed

text \<open>
  C10: the log as a simulation. Every step of the producer or of a consumer is invisible in
  the log, or is the commit of one message by a publication that is not refused, or is one
  consumption of the next message; the visible steps are the two Release stores.
\<close>

theorem ring_steps_simulate_log:
  assumes "ring_rel a r" and "conc_reach (conc_init a r) s" and "conc_step s l t"
    and "length (committed s) < 2 ^ 64 - 1"
  shows "visible (conc_log s) l (conc_log t)"
  using step_simulates [OF assms(3) reachable_inv(1) [OF assms(1,2,4)] assms(4)
      reachable_inv(2) [OF assms(1,2,4)]] .

theorem ring_steps_simulate_log_witness:
  "\<exists>s t. conc_reach (conc_init demo_log demo_ring) s \<and> committed s = [stamped None 5 1 [9]] \<and>
         conc_step s Internal t \<and> cpcs t 0 = CLoaded 0 \<and> visible (conc_log s) Internal (conc_log t)"
proof -
  obtain s where s: "conc_reach (conc_init demo_log demo_ring) s" "committed s = [stamped None 5 1 [9]]"
    "consumers (ring s) ! 0 = 0" "cpcs s 0 = CIdle"
    using demo_published by blast
  have "ring_shape (ring s)"
    using conc_invD(1) [OF reachable_inv(1) [OF demo_rel s(1)]] s(2) by simp
  then have "conc_step s Internal (s\<lparr>cpcs := (cpcs s)(0 := CLoaded 0)\<rparr>)"
    using s c_load [of s 0 0] by (simp add: ring_shapeD(2) MAX_CONSUMERS_def CONSUMER_FREE_def)
  with ring_steps_simulate_log [OF demo_rel s(1) this] s show ?thesis
    by (intro exI [of _ s] exI [of _ "s\<lparr>cpcs := (cpcs s)(0 := CLoaded 0)\<rparr>"]) simp
qed

text \<open>
  C29: progress of a consumer. From every reachable state, a registered consumer outside a
  call that has an unread message receives that message by its own steps alone, also while
  the producer is stopped in the middle of a publication.
\<close>

theorem ring_consumer_progress:
  assumes "ring_rel a r" and "conc_reach (conc_init a r) s" and "length (committed s) < 2 ^ 64 - 1"
    and cid: "cid < MAX_CONSUMERS" "consumers (ring s) ! cid \<noteq> CONSUMER_FREE" "cpcs s cid = CIdle"
    and unread: "unat (consumers (ring s) ! cid) < length (committed s)"
  shows "\<exists>t. conc_reach s t \<and> got t cid = got s cid @ [committed s ! unat (consumers (ring s) ! cid)] \<and>
             ppc t = ppc s \<and> consumers (ring t) ! cid = consumers (ring s) ! cid + 1"
proof -
  note inv = reachable_inv(1) [OF assms(1-3)]
  let ?x = "consumers (ring s) ! cid"
  let ?d = "data (slots (ring s) ! slot_index ?x)"
  let ?r' = "(ring s)\<lparr>consumers := (consumers (ring s))[cid := ?x + 1]\<rparr>"
  have ok: "reading_ok (length (committed s)) (ring s) cid ?x"
    using cid by (simp add: reading_ok_def)
  have "msg_of_data ?d = committed s ! unat ?x"
    using conc_invD(3) [OF inv] unread reading_window(2,3) [OF inv ok]
    by (simp add: live_data_def slot_index_mod)
  moreover have len: "cid < length (consumers (ring s))"
    using cid ring_shapeD(2) [OF conc_invD(1) [OF inv]] by simp
  moreover have "try_consume (ring s) cid (\<lambda>d _. Ret [msg_of_data d]) [] = Ret (Inr True, ?r', [msg_of_data ?d])"
    using live_seq_at(1) [OF inv ok assms(3) unread] len by (simp add: try_consume_def)
  moreover define t where "t = s\<lparr>ring := ?r', got := (got s)(cid := got s cid @ [msg_of_data ?d])\<rparr>"
  ultimately have "conc_reach s t"
    using try_consume_run [OF cid(3,2)] by (simp only: t_def)
  moreover have "got t cid = got s cid @ [committed s ! unat ?x]" "ppc t = ppc s"
    "consumers (ring t) ! cid = ?x + 1"
    using \<open>msg_of_data ?d = _\<close> len by (simp_all add: t_def)
  ultimately show ?thesis by blast
qed

theorem ring_consumer_progress_witness:
  "\<exists>s t. conc_reach (conc_init demo_log demo_ring) s \<and> conc_reach s t \<and> got s 0 = [] \<and>
         got t 0 = [stamped None 5 1 [9]]"
proof -
  obtain s where s: "conc_reach (conc_init demo_log demo_ring) s" "committed s = [stamped None 5 1 [9]]"
    "consumers (ring s) ! 0 = 0" "cpcs s 0 = CIdle" "got s = (\<lambda>_. [])"
    using demo_published by blast
  with ring_consumer_progress [OF demo_rel s(1), of 0]
  obtain t where "conc_reach s t" "got t 0 = [stamped None 5 1 [9]]"
    by (auto simp: MAX_CONSUMERS_def CONSUMER_FREE_def)
  with s(1,5) show ?thesis by (intro exI [of _ s] exI [of _ t]) simp
qed

text \<open>
  The methods are runs. In a state whose producer is outside \<open>publish\<close>, a successful
  call of the sequential \<open>publish\<close> is a run of the producer's steps that ends in the same
  ring, and its one commit is the stamped message.
\<close>

lemma publish_is_a_run:
  assumes "ppc s = PIdle" and "ring_shape (ring s)"
    and "publish (ring s) clk ch mt payload = (Inr (), r')"
  shows "\<exists>t. conc_reach s t \<and> ring t = r' \<and> ppc t = PIdle \<and> cpcs t = cpcs s \<and> got t = got s \<and>
             committed t = committed s @ [stamped clk ch mt payload]"
  using publish_run [OF assms] assms(1)
  by (intro exI conjI) (assumption | simp)+

lemma publish_is_a_run_example:
  "\<exists>t. conc_reach (conc_init demo_log demo_ring) t \<and>
       ring t = snd (publish demo_ring None 5 1 [9]) \<and> committed t = [stamped None 5 1 [9]]"
proof -
  have "fst (publish demo_ring None 5 1 [9]) = Inr ()"
    using publish_sim [OF demo_rel, of None 5 1 "[9]"] by (simp add: demo_log_eq log_eval)
  then have "publish demo_ring None 5 1 [9] = (Inr (), snd (publish demo_ring None 5 1 [9]))"
    by (simp add: prod_eq_iff)
  with publish_is_a_run [of "conc_init demo_log demo_ring"] ring_relD(1) [OF demo_rel] show ?thesis
    by (fastforce simp: conc_init_def demo_log_eq)
qed

text \<open>
  Between publications the ring represents the log. Whenever no publication is under way, the
  shared ring is one that represents the log of committed messages and cursors, however
  the consumers' calls are interleaved, so every sequential law applies to it.
\<close>

lemma quiet_ring_represents_log:
  assumes "ring_rel a r" and "conc_reach (conc_init a r) s" and "length (committed s) < 2 ^ 64 - 1"
    and "ppc s = PIdle"
  shows "ring_rel (conc_log s) (ring s)"
  by (rule quiet_ring_rel [OF reachable_inv(1) [OF assms(1-3)] assms(4,3)])

lemma quiet_ring_represents_log_example:
  "\<exists>s. conc_reach (conc_init demo_log demo_ring) s \<and> committed s = [stamped None 5 1 [9]] \<and>
       ring_rel (conc_log s) (ring s)"
proof -
  obtain s where s: "conc_reach (conc_init demo_log demo_ring) s" "committed s = [stamped None 5 1 [9]]"
    "ppc s = PIdle"
    using demo_published by blast
  with quiet_ring_represents_log [OF demo_rel s(1)] show ?thesis by auto
qed

end
