(* ===== verification/Ring_Registration.thy ===== *)
theory Ring_Registration
  imports Ring_Interleaved
begin

text \<open>
  Registration while the ring is in use. \<open>register_consumer\<close> loads the head and then claims an
  entry: as two steps among those of the other threads it lets a consumer read a slot the
  producer is writing. Taken whole between two publications, as a caller holding the publish lock
  would take it, it keeps every guarantee of the interleaved ring, and so does unregistering by
  a consumer outside a call, which is the contract of \<open>RING_BUFFER_ARCHITECTURE.md\<close>, section 13.
\<close>

section \<open>Registration step by step\<close>

datatype RegPc = RIdle | RScan u64 nat | RDone nat | RFull

inductive reg_step :: "Conc \<times> RegPc \<Rightarrow> Conc \<times> RegPc \<Rightarrow> bool" where
  base: "conc_step s l t \<Longrightarrow> reg_step (s, pc) (t, pc)"
| r_load: "reg_step (s, RIdle) (s, RScan (producer_seq (ring s)) 0)"
| r_taken: "i < length (consumers (ring s)) \<Longrightarrow> consumers (ring s) ! i \<noteq> CONSUMER_FREE \<Longrightarrow>
    reg_step (s, RScan start i) (s, RScan start (Suc i))"
| r_claim: "i < length (consumers (ring s)) \<Longrightarrow> consumers (ring s) ! i = CONSUMER_FREE \<Longrightarrow>
    reg_step (s, RScan start i)
      (s\<lparr>ring := (ring s)\<lparr>consumers := (consumers (ring s))[i := start]\<rparr>\<rparr>, RDone i)"
| r_full: "i = length (consumers (ring s)) \<Longrightarrow> reg_step (s, RScan start i) (s, RFull)"

inductive reg_reach :: "Conc \<times> RegPc \<Rightarrow> Conc \<times> RegPc \<Rightarrow> bool" for s0 where
  reg_start: "reg_reach s0 s0"
| reg_next: "reg_reach s0 s \<Longrightarrow> reg_step s t \<Longrightarrow> reg_reach s0 t"

lemma reg_reach_base:
  assumes "conc_reach s t" and "reg_reach s0 (s, pc)"
  shows "reg_reach s0 (t, pc)"
  using assms by (induction rule: conc_reach.induct) (auto intro: reg_next reg_step.base)

text \<open>A ring without consumers takes any number of publications.\<close>

lemma publish_unread:
  assumes "n < 2 ^ 64 - 1"
  shows "\<exists>s. conc_reach (conc_init log_new ring_new) s \<and> ppc s = PIdle \<and> cpcs s = (\<lambda>_. CIdle) \<and>
    committed s = replicate n (stamped None 1 1 []) \<and>
    ring_rel \<lparr>msgs = replicate n (stamped None 1 1 []), positions = replicate MAX_CONSUMERS None\<rparr> (ring s)"
  using assms
proof (induction n)
  case 0
  then show ?case
    using ring_rel_new
    by (intro exI [of _ "conc_init log_new ring_new"]) (simp add: conc_reach.start conc_init_def log_new_def)
next
  case (Suc n)
  let ?m = "stamped None 1 1 []"
  let ?a = "\<lparr>msgs = replicate n ?m, positions = replicate MAX_CONSUMERS None\<rparr>"
  obtain s where s: "conc_reach (conc_init log_new ring_new) s" "ppc s = PIdle" "cpcs s = (\<lambda>_. CIdle)"
    "committed s = replicate n ?m" and rel: "ring_rel ?a (ring s)"
    using Suc by auto
  have "log_publish ?a ?m = (Inr (), \<lparr>msgs = replicate (Suc n) ?m, positions = replicate MAX_CONSUMERS None\<rparr>)"
    by (auto simp: log_publish_def lagging_iff replicate_append_same)
  with publish_sim [OF rel, of None 1 1 "[]"] Suc.prems
  have pub: "publish (ring s) None 1 1 [] = (Inr (), snd (publish (ring s) None 1 1 []))"
    and rel': "ring_rel \<lparr>msgs = replicate (Suc n) ?m, positions = replicate MAX_CONSUMERS None\<rparr>
      (snd (publish (ring s) None 1 1 []))"
    by (simp_all add: prod_eq_iff)
  from conc_reach_trans [OF s(1) publish_run [OF s(2) ring_relD(1) [OF rel] pub]] s(2-4) rel' show ?case
    by (intro exI conjI) (assumption | simp add: replicate_append_same)+
qed

text \<open>
  C33: registration races with publication. From a fresh ring, a registration that has loaded
  the head and is held up while 65536 messages are published and the next publication has passed its
  scan, claims an entry at 0, and its consumer then reads slot 0 while the producer
  writes it: a data race that the stamps do not detect.
\<close>

theorem registration_races:
  "\<exists>s pc. reg_reach (conc_init log_new ring_new, RIdle) (s, pc) \<and> data_race s"
proof -
  let ?s0 = "conc_init log_new ring_new"
  let ?p = "\<lparr>p_clock = None, p_channel_id = 1, p_msg_type = 1, p_payload = []\<rparr>"
  obtain s where s: "conc_reach ?s0 s" "ppc s = PIdle" "cpcs s = (\<lambda>_. CIdle)"
    and rel: "ring_rel \<lparr>msgs = replicate RING_SIZE (stamped None 1 1 []), positions = replicate MAX_CONSUMERS None\<rparr> (ring s)"
    using publish_unread [of RING_SIZE] by (auto simp: RING_SIZE_eq)
  let ?x = "producer_seq (ring s)" and ?cs = "consumers (ring s)"
  have x: "unat ?x = RING_SIZE" and len: "length ?cs = MAX_CONSUMERS"
    using ring_relD(1,3) [OF rel] by (simp_all add: ring_shape_def)
  have free: "?cs ! i = CONSUMER_FREE" if "i < MAX_CONSUMERS" for i
    using position_free_iff [OF rel that] that by simp
  then have min: "scan_min U64_MAX ?cs = U64_MAX"
    using scan_min_in [of U64_MAX ?cs] len by (auto simp: in_set_conv_nth CONSUMER_FREE_def)
  have slot0: "seq (slots (ring s) ! 0) = 1"
  proof -
    have "unat (seq (slots (ring s) ! (0 mod RING_SIZE))) = Suc 0"
      using ring_relD(4) [OF rel] by (auto simp: slots_rel_def slot_holds_def)
    then show ?thesis by (simp add: word_unat_eq_iff)
  qed
  have "reg_reach (?s0, RIdle) (?s0, RScan 0 0)"
    using reg_next [OF reg_start r_load [of ?s0]] by (simp add: conc_init_def)
  from reg_reach_base [OF s(1) this] have "reg_reach (?s0, RIdle) (s, RScan 0 0)" .
  from reg_next [OF this base [OF p_start [OF s(2), of ?p]]]
  have "reg_reach (?s0, RIdle) (s\<lparr>ppc := PScan ?x 0 U64_MAX ?p\<rparr>, RScan 0 0)"
    by simp
  from reg_reach_base [OF within_reach [OF scan_run [of _ ?x 0 U64_MAX ?p]] this]
  have "reg_reach (?s0, RIdle) (s\<lparr>ppc := PScan ?x MAX_CONSUMERS U64_MAX ?p\<rparr>, RScan 0 0)"
    by (simp add: min len)
  from reg_next [OF this base [OF p_accept [of _ ?x MAX_CONSUMERS U64_MAX ?p program_order]]]
  have w: "reg_reach (?s0, RIdle) (s\<lparr>ppc := PWrite ?x ?p program_order\<rparr>, RScan 0 0)"
    by (simp add: len set_program_order)
  let ?w = "s\<lparr>ppc := PWrite ?x ?p program_order\<rparr>"
  define s1 where
    "s1 = s\<lparr>ring := (ring s)\<lparr>consumers := ?cs[0 := 0]\<rparr>, ppc := PWrite ?x ?p program_order\<rparr>"
  have s1: "?w\<lparr>ring := (ring ?w)\<lparr>consumers := (consumers (ring ?w))[0 := 0]\<rparr>\<rparr> = s1"
    by (cases s) (simp add: s1_def)
  have "0 < length (consumers (ring ?w))" "consumers (ring ?w) ! 0 = CONSUMER_FREE"
    using free [of 0] len by (simp_all add: MAX_CONSUMERS_def)
  from reg_next [OF w r_claim [OF this, of 0]] have 1: "reg_reach (?s0, RIdle) (s1, RDone 0)"
    unfolding s1 .
  let ?c = "\<lambda>c. s1\<lparr>cpcs := (cpcs s1)(0 := c)\<rparr>"
  have "conc_step s1 Internal (?c (CLoaded 0))"
    by (rule c_load) (simp_all add: s1_def s(3) len MAX_CONSUMERS_def CONSUMER_FREE_def)
  from reg_next [OF 1 base [OF this]] have 2: "reg_reach (?s0, RIdle) (?c (CLoaded 0), RDone 0)" .
  have idx: "slot_index 0 = 0" "slot_index ?x = 0"
    using x by (simp_all add: slot_index_mod)
  have "conc_step (?c (CLoaded 0)) Internal (?c (CReading 0 program_order slot_zeroed))"
    using c_ready [of "?c (CLoaded 0)" 0 0 program_order] slot0 idx set_program_order by (simp add: s1_def)
  from reg_next [OF 2 base [OF this]]
  have "reg_reach (?s0, RIdle) (?c (CReading 0 program_order slot_zeroed), RDone 0)" .
  moreover have "data_race (?c (CReading 0 program_order slot_zeroed))"
    using idx by (auto simp: data_race_def s1_def)
  ultimately show ?thesis by blast
qed

section \<open>Registration under the publish lock\<close>

text \<open>
  The steps of the ring, with \<open>register_consumer\<close> as one step taken between publications, and
  \<open>unregister_consumer\<close> by a consumer outside a call: the document makes it the caller's duty
  that the consumer has stopped touching the ring, since the producer may at once overwrite the
  slot it was reading. Besides the threads, a state holds for each id how many messages had been
  committed when it was last registered; registering also starts the record of what the consumer gets.
\<close>

inductive locked_step :: "Conc \<times> (nat \<Rightarrow> nat) \<Rightarrow> Conc \<times> (nat \<Rightarrow> nat) \<Rightarrow> bool" where
  ring_step: "conc_step s l t \<Longrightarrow> locked_step (s, since) (t, since)"
| register: "ppc s = PIdle \<Longrightarrow> register_consumer (ring s) = (Inr cid, r) \<Longrightarrow>
    locked_step (s, since)
      (s\<lparr>ring := r, got := (got s)(cid := [])\<rparr>, since(cid := length (committed s)))"
| unregister: "cpcs s cid = CIdle \<Longrightarrow>
    locked_step (s, since) (s\<lparr>ring := unregister_consumer (ring s) cid\<rparr>, since)"

inductive locked_reach :: "Conc \<times> (nat \<Rightarrow> nat) \<Rightarrow> Conc \<times> (nat \<Rightarrow> nat) \<Rightarrow> bool" for s0 where
  locked_start: "locked_reach s0 s0"
| locked_next: "locked_reach s0 s \<Longrightarrow> locked_step s t \<Longrightarrow> locked_reach s0 t"

text \<open>The fresh ring, where nobody has registered yet.\<close>

definition locked_init :: "Conc \<times> (nat \<Rightarrow> nat)" where
  "locked_init = (conc_init log_new ring_new, \<lambda>_. 0)"

lemma cons_ok_other:
  assumes "cons_ok n r c pc" and "c \<noteq> cid"
  shows "cons_ok n (r\<lparr>consumers := (consumers r)[cid := v]\<rparr>) c pc"
  using assms by (cases pc) (auto simp: reading_ok_def)

lemma inv_register:
  assumes inv: "conc_inv st s" and idle: "ppc s = PIdle" and reg: "register_consumer (ring s) = (Inr cid, r)"
  shows "conc_inv (st(cid := length (committed s))) (s\<lparr>ring := r, got := (got s)(cid := [])\<rparr>)" (is "conc_inv ?st ?t")
proof -
  let ?n = "length (committed s)" and ?cs = "consumers (ring s)"
  have head: "unat (producer_seq (ring s)) = ?n"
    using conc_invD(5) [OF inv] idle by simp
  have len: "length ?cs = MAX_CONSUMERS"
    using ring_shapeD(2) [OF conc_invD(1) [OF inv]] .
  obtain cs where claim: "claim_free (producer_seq (ring s)) 0 ?cs = Some (cid, cs)" and r: "r = (ring s)\<lparr>consumers := cs\<rparr>"
    using reg by (auto simp: register_consumer_def Let_def split: option.splits)
  from claim_free_Some [OF claim] have cid: "cid < MAX_CONSUMERS" "?cs ! cid = CONSUMER_FREE"
    and cs: "cs = ?cs[cid := producer_seq (ring s)]"
    using len by auto
  have pc: "cpcs s cid = CIdle"
    using conc_invD(6) [OF inv, of cid] cid by (cases "cpcs s cid") (auto simp: reading_ok_def)
  show ?thesis
  proof (rule conc_invI)
    show "ring_shape (ring ?t)"
      using conc_invD(1) [OF inv] by (simp add: r cs ring_shape_def)
    show "cursors_ok (length (committed ?t)) (consumers (ring ?t))"
      using conc_invD(4) [OF inv] head cid(1) len by (auto simp: r cs cursors_ok_def nth_list_update)
    show "prod_ok (length (committed ?t)) (ring ?t) (ppc ?t)"
      using idle head by (simp add: r)
    fix c
    show "cons_ok (length (committed ?t)) (ring ?t) c (cpcs ?t c)"
      using conc_invD(6) [OF inv, of c] pc cons_ok_other [of ?n "ring s" c "cpcs s c" cid]
      by (cases "c = cid") (simp_all add: r cs)
    assume "c < MAX_CONSUMERS" "consumers (ring ?t) ! c \<noteq> CONSUMER_FREE"
    then show "got_ok (committed ?t) (?st c) (seen (consumers (ring ?t) ! c) (cpcs ?t c)) (got ?t c)"
      using conc_invD(7) [OF inv, of c] pc head cid len
      by (cases "c = cid") (simp_all add: r cs got_ok_def)
  qed (use conc_invD [OF inv] in \<open>simp_all add: r\<close>)
qed

lemma inv_unregister:
  assumes inv: "conc_inv st s" and idle: "cpcs s cid = CIdle"
  shows "conc_inv st (s\<lparr>ring := unregister_consumer (ring s) cid\<rparr>)" (is "conc_inv st ?t")
proof (cases "cid < length (consumers (ring s))")
  case False
  then have "?t = s" by (cases s) (simp add: unregister_consumer_def)
  with inv show ?thesis by simp
next
  case True
  then have r: "unregister_consumer (ring s) cid = (ring s)\<lparr>consumers := (consumers (ring s))[cid := CONSUMER_FREE]\<rparr>"
    by (simp add: unregister_consumer_def)
  have max: "m \<le> CONSUMER_FREE" for m by (simp add: CONSUMER_FREE_def)
  show ?thesis
  proof (rule conc_invI)
    show "ring_shape (ring ?t)"
      using conc_invD(1) [OF inv] by (simp add: r ring_shape_def)
    show "cursors_ok (length (committed ?t)) (consumers (ring ?t))"
      using conc_invD(4) [OF inv] True by (auto simp: r cursors_ok_def nth_list_update)
    show "prod_ok (length (committed ?t)) (ring ?t) (ppc ?t)"
      using conc_invD(5) [OF inv] max True
      by (cases "ppc s") (auto simp: r room_def nth_list_update)
    fix c
    show "cons_ok (length (committed ?t)) (ring ?t) c (cpcs ?t c)"
      using conc_invD(6) [OF inv, of c] idle cons_ok_other [of "length (committed s)" "ring s" c "cpcs s c" cid]
      by (cases "c = cid") (simp_all add: r)
    assume "c < MAX_CONSUMERS" "consumers (ring ?t) ! c \<noteq> CONSUMER_FREE"
    then show "got_ok (committed ?t) (st c) (seen (consumers (ring ?t) ! c) (cpcs ?t c)) (got ?t c)"
      using conc_invD(7) [OF inv, of c] True by (cases "c = cid") (simp_all add: r)
  qed (use conc_invD [OF inv] in \<open>simp_all add: r\<close>)
qed

lemma seen_committed:
  assumes inv: "conc_inv st s" and cid: "cid < MAX_CONSUMERS" "consumers (ring s) ! cid \<noteq> CONSUMER_FREE"
  shows "seen (consumers (ring s) ! cid) (cpcs s cid) \<le> length (committed s)"
proof -
  have "unat (consumers (ring s) ! cid) \<le> length (committed s)"
    using conc_invD(4) [OF inv] cid ring_shapeD(2) [OF conc_invD(1) [OF inv]] by (simp add: cursors_ok_def)
  then show ?thesis
    using conc_invD(6) [OF inv, of cid] by (cases "cpcs s cid") (auto simp: seen_def reading_ok_def)
qed

lemma locked_inv:
  assumes "locked_reach s0 t" and "conc_inv (snd s0) (fst s0)" and "length (committed (fst t)) < 2 ^ 64 - 1"
  shows "conc_inv (snd t) (fst t)"
  using assms
proof (induction rule: locked_reach.induct)
  case (locked_next s t)
  from locked_next(2) have mono: "length (committed (fst s)) \<le> length (committed (fst t))"
    by cases (auto dest: committed_mono)
  then have inv: "conc_inv (snd s) (fst s)"
    using locked_next by auto
  from locked_next(2) show ?case
  proof cases
    case (ring_step s' l t' since)
    from conc_step_inv [OF ring_step(3)] inv mono locked_next.prems ring_step(1,2) show ?thesis by auto
  next
    case (register s' cid r since)
    from inv have "conc_inv since s'" by (simp add: register(1))
    from inv_register [OF this register(3,4)] show ?thesis
      by (simp only: register(2) fst_conv snd_conv)
  next
    case (unregister s' cid since)
    with inv_unregister [OF _ unregister(3)] inv show ?thesis by simp
  qed
qed auto

lemma locked_init_inv: "conc_inv (snd locked_init) (fst locked_init)"
proof -
  have "conc_inv (start_positions ring_new) (conc_init log_new ring_new)"
    by (rule init_inv(1) [OF ring_rel_new])
  then show ?thesis
    by (auto simp: conc_inv_def locked_init_def Let_def conc_init_def)
qed

text \<open>
  C32: registration between publications is safe. When consumers register while no publication
  is under way and unregister outside a call, in every interleaving there is no data race, no
  consumer falls behind, and a registered consumer has been given exactly the messages
  committed since its last registration, from the first one on, in order and untorn: outside a call
  its cursor is the number of messages committed when it registered plus the number it was given.
\<close>

theorem locked_registration_safe:
  assumes "locked_reach locked_init (s, since)" and "length (committed s) < 2 ^ 64 - 1"
  shows "\<not> data_race s \<and> cpcs s cid \<noteq> CFell \<and>
    (cid < MAX_CONSUMERS \<longrightarrow> consumers (ring s) ! cid \<noteq> CONSUMER_FREE \<longrightarrow>
       since cid + length (got s cid) \<le> length (committed s) \<and>
       got s cid = take (length (got s cid)) (drop (since cid) (committed s)) \<and>
       (cpcs s cid = CIdle \<longrightarrow> unat (consumers (ring s) ! cid) = since cid + length (got s cid)))"
proof -
  have inv: "conc_inv since s"
    using locked_inv [OF assms(1) locked_init_inv] assms(2) by simp
  have "cpcs s cid \<noteq> CFell"
    using conc_invD(6) [OF inv, of cid] by auto
  moreover have "since cid + length (got s cid) \<le> length (committed s) \<and>
       got s cid = take (length (got s cid)) (drop (since cid) (committed s)) \<and>
       (cpcs s cid = CIdle \<longrightarrow> unat (consumers (ring s) ! cid) = since cid + length (got s cid))"
    if cid: "cid < MAX_CONSUMERS" "consumers (ring s) ! cid \<noteq> CONSUMER_FREE"
  proof -
    have "since cid \<le> seen (consumers (ring s) ! cid) (cpcs s cid)"
      and g: "got s cid = take (seen (consumers (ring s) ! cid) (cpcs s cid) - since cid) (drop (since cid) (committed s))"
      using conc_invD(7) [OF inv cid] by (simp_all add: got_ok_def)
    moreover have "seen (consumers (ring s) ! cid) (cpcs s cid) \<le> length (committed s)"
      by (rule seen_committed [OF inv cid])
    ultimately have len: "length (got s cid) = seen (consumers (ring s) ! cid) (cpcs s cid) - since cid"
      and sum: "since cid + length (got s cid) = seen (consumers (ring s) ! cid) (cpcs s cid)"
      by simp_all
    have "got s cid = take (length (got s cid)) (drop (since cid) (committed s))"
      by (subst len) (rule g)
    then show ?thesis
      using sum seen_committed [OF inv cid] by (simp add: seen_def)
  qed
  ultimately show ?thesis
    using inv_no_race [OF inv] by blast
qed

lemma locked_reach_conc:
  assumes "conc_reach s t" and "locked_reach s0 (s, since)"
  shows "locked_reach s0 (t, since)"
  using assms by (induction rule: conc_reach.induct) (auto intro: locked_next ring_step)

text \<open>
  A consumer that registers after one message and then reads: what it is given starts with
  the second message.
\<close>

lemma late_consumer:
  "\<exists>s since. locked_reach locked_init (s, since) \<and> committed s = [stamped None 1 1 [], stamped None 5 1 [9]] \<and>
     since 0 = 1 \<and> length (got s 0) = 1 \<and> consumers (ring s) ! 0 = 2 \<and> cpcs s 0 = CIdle"
proof -
  let ?m = "stamped None 1 1 []" and ?m' = "stamped None 5 1 [9]"
  let ?since = "(\<lambda>_. 0 :: nat)(0 := 1)"
  let ?a0 = "\<lparr>msgs = [?m], positions = replicate MAX_CONSUMERS None\<rparr>"
  let ?a1 = "\<lparr>msgs = [?m], positions = (replicate MAX_CONSUMERS None)[0 := Some 1]\<rparr>"
  let ?a2 = "\<lparr>msgs = [?m, ?m'], positions = (replicate MAX_CONSUMERS None)[0 := Some 1]\<rparr>"
  obtain s where s: "conc_reach (conc_init log_new ring_new) s" "ppc s = PIdle" "cpcs s = (\<lambda>_. CIdle)" "committed s = [?m]"
    and rel: "ring_rel ?a0 (ring s)"
    using publish_unread [of 1] by auto
  have "log_register ?a0 = (Inr 0, ?a1)"
    by (subst log_register_first) (simp_all add: MAX_CONSUMERS_def)
  with register_sim [OF rel] obtain r where
    reg: "register_consumer (ring s) = (Inr 0, r)" and rel1: "ring_rel ?a1 r"
    by (cases "register_consumer (ring s)") simp
  let ?t = "s\<lparr>ring := r, got := (got s)(0 := [])\<rparr>"
  have "locked_reach locked_init (s, \<lambda>_. 0)"
    using locked_reach_conc [OF s(1) locked_start] by (simp add: locked_init_def)
  from locked_next [OF this register [OF s(2) reg]] have t: "locked_reach locked_init (?t, ?since)"
    by (simp add: s(4))
  have "log_publish ?a1 ?m' = (Inr (), ?a2)"
    by (auto simp: log_publish_def lagging_iff RING_SIZE_eq in_set_conv_nth nth_list_update MAX_CONSUMERS_def
        PAYLOAD_CAP_def stamped_def split: if_splits)
  with publish_sim [OF rel1, of None 5 1 "[9]"] obtain r2 where
    pub: "publish r None 5 1 [9] = (Inr (), r2)" and rel2: "ring_rel ?a2 r2"
    by (cases "publish r None 5 1 [9]") simp
  let ?u = "?t\<lparr>ring := r2, committed := [?m, ?m']\<rparr>"
  from publish_run [of ?t None 5 1 "[9]" r2] pub s(2,4) ring_relD(1) [OF rel1]
  have "conc_reach ?t ?u" by simp
  from locked_reach_conc [OF this t] have u: "locked_reach locked_init (?u, ?since)" .
  have cur: "consumers r2 ! 0 = 1"
    using list_all2_nthD [OF ring_relD(5) [OF rel2], of 0] by (simp add: MAX_CONSUMERS_def word_unat_eq_iff)
  from ring_log.con_ready [OF rel2, of 0 1 "\<lambda>d _. Ret [msg_of_data d]" "[]"]
  obtain ms where con: "try_consume (ring ?u) 0 (\<lambda>d _. Ret [msg_of_data d]) [] = Ret (Inr True, advance r2 0, ms)"
    and ms: "length ms = 1"
    by (auto simp: MAX_CONSUMERS_def)
  from try_consume_run [OF _ _ con] s(3) cur
  have "conc_reach ?u (?u\<lparr>ring := advance r2 0, got := (got ?u)(0 := ms)\<rparr>)" (is "conc_reach _ ?v")
    by (simp add: CONSUMER_FREE_def)
  from locked_reach_conc [OF this u] have "locked_reach locked_init (?v, ?since)" .
  moreover have "consumers (ring ?v) ! 0 = 2"
    using cur ring_shapeD(2) [OF ring_relD(1) [OF rel2]] by (simp add: advance_def MAX_CONSUMERS_def)
  ultimately show ?thesis
    using s(3) ms by (intro exI [of _ ?v] exI [of _ ?since]) simp
qed

theorem locked_registration_safe_witness:
  "\<exists>s since. locked_reach locked_init (s, since) \<and> \<not> data_race s \<and> cpcs s 0 \<noteq> CFell \<and>
     committed s = [stamped None 1 1 [], stamped None 5 1 [9]] \<and> since 0 = 1 \<and> got s 0 = [stamped None 5 1 [9]]"
proof -
  obtain s since where s: "locked_reach locked_init (s, since)"
    "committed s = [stamped None 1 1 [], stamped None 5 1 [9]]" "since 0 = 1" "length (got s 0) = 1"
    "consumers (ring s) ! 0 = 2"
    using late_consumer by blast
  from locked_registration_safe [OF s(1), of 0] s(2-) have safe: "\<not> data_race s" "cpcs s 0 \<noteq> CFell"
    and "got s 0 = take (length (got s 0)) (drop (since 0) (committed s))"
    by (simp_all add: MAX_CONSUMERS_def CONSUMER_FREE_def)
  from this(3) have "got s 0 = [stamped None 5 1 [9]]"
    unfolding s(2-4) by simp
  with s safe show ?thesis by blast
qed

end
