(* ===== verification/Ring_Registrars.thy ===== *)
theory Ring_Registrars
  imports Ring_Registration
begin

text \<open>
  Any number of threads that register and unregister, step by step, while the ring is in use. The races
  with the slots are those of \<open>Ring_Registration\<close>; what the compare-and-exchange of \<open>register_consumer\<close>
  guarantees in every interleaving is that no two of them hold the same entry.
\<close>

section \<open>Steps\<close>

text \<open>
  Thread \<open>t\<close> is at \<open>pcs t\<close> in \<open>register_consumer\<close>; \<open>drops\<close> says whether the holder of an entry may give it
  back, its consumer being outside a call.
\<close>

inductive regs_step :: "bool \<Rightarrow> Conc \<times> (nat \<Rightarrow> RegPc) \<Rightarrow> Conc \<times> (nat \<Rightarrow> RegPc) \<Rightarrow> bool" for drops where
  acts: "reg_step (s, pcs t) (s', pc) \<Longrightarrow> regs_step drops (s, pcs) (s', pcs(t := pc))"
| leaves: "drops \<Longrightarrow> pcs t = RDone i \<Longrightarrow> cpcs s i = CIdle \<Longrightarrow>
    regs_step drops (s, pcs) (s\<lparr>ring := unregister_consumer (ring s) i\<rparr>, pcs(t := RIdle))"

inductive regs_reach :: "bool \<Rightarrow> Conc \<times> (nat \<Rightarrow> RegPc) \<Rightarrow> Conc \<times> (nat \<Rightarrow> RegPc) \<Rightarrow> bool" for drops x0 where
  regs_start: "regs_reach drops x0 x0"
| regs_next: "regs_reach drops x0 x \<Longrightarrow> regs_step drops x y \<Longrightarrow> regs_reach drops x0 y"

section \<open>What holds in spite of the races\<close>

text \<open>No stamp and no cursor is ahead of the messages committed.\<close>

fun head_ok :: "nat \<Rightarrow> Ring \<Rightarrow> ProdPc \<Rightarrow> bool" where
  "head_ok n r PIdle \<longleftrightarrow> unat (producer_seq r) = n"
| "head_ok n r (PScan x i m p) \<longleftrightarrow> producer_seq r = x \<and> unat x = n"
| "head_ok n r (PWrite x p todo) \<longleftrightarrow> producer_seq r = x \<and> unat x = n"
| "head_ok n r (PHead x) \<longleftrightarrow> producer_seq r = x \<and> Suc (unat x) = n"

fun past_ok :: "nat \<Rightarrow> ConsPc \<Rightarrow> bool" where
  "past_ok n (CLoaded x) \<longleftrightarrow> x \<noteq> CONSUMER_FREE"
| "past_ok n (CReading x todo acc) \<longleftrightarrow> unat x < n"
| "past_ok n (CDone x) \<longleftrightarrow> unat x < n"
| "past_ok n CIdle \<longleftrightarrow> True"
| "past_ok n CFell \<longleftrightarrow> True"

definition stamps_le :: "nat \<Rightarrow> Slot list \<Rightarrow> bool" where
  "stamps_le n ss \<longleftrightarrow> length ss = RING_SIZE \<and> (\<forall>i<RING_SIZE. unat (seq (ss ! i)) \<le> n)"

definition base_inv :: "Conc \<Rightarrow> bool" where
  "base_inv s \<longleftrightarrow> head_ok (length (committed s)) (ring s) (ppc s) \<and>
     (\<forall>cid. past_ok (length (committed s)) (cpcs s cid)) \<and> stamps_le (length (committed s)) (slots (ring s))"

lemma head_ok_consumers [simp]: "head_ok n (r\<lparr>consumers := cs\<rparr>) pc = head_ok n r pc"
  by (cases pc) simp_all

lemma base_inv_consumers: "base_inv s \<Longrightarrow> base_inv (s\<lparr>ring := (ring s)\<lparr>consumers := cs\<rparr>\<rparr>)"
  by (simp add: base_inv_def)

lemma past_ok_mono: "past_ok n pc \<Longrightarrow> n \<le> m \<Longrightarrow> past_ok m pc"
  by (cases pc) auto

lemma stamps_le_set_data: "stamps_le n (slots r) \<Longrightarrow> stamps_le n (slots (set_data r i d))"
  by (cases "i < length (slots r)") (auto simp: stamps_le_def slots_set_data, auto simp: set_data_def)

lemma stamps_le_set_seq:
  "stamps_le n (slots r) \<Longrightarrow> unat v \<le> Suc n \<Longrightarrow> stamps_le (Suc n) (slots (set_seq r i v))"
  by (cases "i < length (slots r)") (auto simp: stamps_le_def slots_set_seq le_Suc_eq, auto simp: set_seq_def le_Suc_eq)

lemma unat_free: "unat CONSUMER_FREE = 2 ^ 64 - 1"
  by (simp add: CONSUMER_FREE_def unat_U64_MAX)

lemma next_stamp:
  assumes "unat (x :: u64) < n" and "n < 2 ^ 64 - 1"
  shows "unat (x + 1) = Suc (unat x)" and "x + 1 \<noteq> CONSUMER_FREE"
proof -
  show 1: "unat (x + 1) = Suc (unat x)" using assms by (simp add: u64_add_one)
  with unat_free assms show "x + 1 \<noteq> CONSUMER_FREE" by auto
qed

lemma base_past: "base_inv s \<Longrightarrow> cpcs s cid = pc \<Longrightarrow> past_ok (length (committed s)) pc"
  by (auto simp: base_inv_def)

lemma base_step:
  assumes "conc_step s l t" and "base_inv s" and "length (committed t) < 2 ^ 64 - 1"
  shows "base_inv t"
  using assms
proof (induction rule: conc_step.induct)
  case (p_write s x p fld todo i)
  then show ?case by (simp add: base_inv_def stamps_le_set_data)
next
  case (p_commit s x p)
  then have "unat (x + 1) = Suc (unat x)" by (simp add: base_inv_def u64_add_one)
  with p_commit show ?case
    by (auto simp: base_inv_def stamps_le_set_seq intro: past_ok_mono)
next
  case (p_head s x)
  then show ?case using next_stamp(1) [of x "length (committed s)"] by (simp add: base_inv_def)
next
  case (c_ready s cid x todo)
  then have x: "x \<noteq> CONSUMER_FREE" by (auto simp: base_inv_def dest: spec [of _ cid])
  have "stamps_le (length (committed s)) (slots (ring s))" using c_ready.prems(1) by (simp add: base_inv_def)
  then have "unat (seq (slots (ring s) ! slot_index x)) \<le> length (committed s)"
    unfolding stamps_le_def using slot_index_less by blast
  moreover have "unat x + 1 < 2 ^ 64"
  proof -
    have "unat x \<noteq> unat CONSUMER_FREE" using x by (simp add: word_unat_eq_iff)
    then show ?thesis using unsigned_less [of x, where 'a = nat] by (simp add: unat_free)
  qed
  ultimately have "unat x < length (committed s)" using c_ready by (simp add: u64_add_one)
  with c_ready show ?case by (simp add: base_inv_def)
next
  case (c_read s cid x fld todo acc acc')
  then show ?case using base_past [OF c_read.prems(1) c_read.hyps(1)] by (simp add: base_inv_def)
next
  case (c_call s cid x acc)
  then show ?case using base_past [OF c_call.prems(1) c_call.hyps] by (simp add: base_inv_def)
qed (simp_all add: base_inv_def)

text \<open>An entry that is held stays held, whatever the threads of the ring do.\<close>

definition held :: "Ring \<Rightarrow> nat \<Rightarrow> bool" where
  "held r i \<longleftrightarrow> i < length (consumers r) \<and> consumers r ! i \<noteq> CONSUMER_FREE"

lemma held_update: "v \<noteq> CONSUMER_FREE \<Longrightarrow> held r j \<Longrightarrow> held (r\<lparr>consumers := (consumers r)[i := v]\<rparr>) j"
  by (cases "i = j") (simp_all add: held_def)

lemma held_step:
  assumes "conc_step s l t" and "base_inv s" and "length (committed t) < 2 ^ 64 - 1" and "held (ring s) j"
  shows "held (ring t) j"
  using assms
proof (induction rule: conc_step.induct)
  case (c_store s cid x)
  then have "unat x < length (committed s)" by (auto simp: base_inv_def dest: spec [of _ cid])
  with c_store next_stamp(2) [of x "length (committed s)"] show ?case by (simp add: held_update)
qed (simp_all add: held_def)

section \<open>The invariant of the registrations\<close>

fun reg_ok :: "bool \<Rightarrow> nat \<Rightarrow> Ring \<Rightarrow> RegPc \<Rightarrow> bool" where
  "reg_ok drops n r RIdle \<longleftrightarrow> True"
| "reg_ok drops n r (RScan start i) \<longleftrightarrow> unat start \<le> n \<and> i \<le> length (consumers r) \<and> (\<not> drops \<longrightarrow> (\<forall>j<i. held r j))"
| "reg_ok drops n r (RDone i) \<longleftrightarrow> held r i"
| "reg_ok drops n r RFull \<longleftrightarrow> (\<not> drops \<longrightarrow> (\<forall>j<length (consumers r). held r j))"

definition regs_inv :: "bool \<Rightarrow> Conc \<times> (nat \<Rightarrow> RegPc) \<Rightarrow> bool" where
  "regs_inv drops x \<longleftrightarrow> (case x of (s, pcs) \<Rightarrow> base_inv s \<and>
     (\<forall>t. reg_ok drops (length (committed s)) (ring s) (pcs t)) \<and>
     (\<forall>t u i. pcs t = RDone i \<longrightarrow> pcs u = RDone i \<longrightarrow> t = u))"

lemma reg_ok_mono:
  assumes "reg_ok drops n r pc" and "n \<le> m" and "\<And>j. held r j \<Longrightarrow> held r' j"
    and "length (consumers r') = length (consumers r)"
  shows "reg_ok drops m r' pc"
  using assms by (cases pc) auto

lemma claim_inv:
  assumes inv: "regs_inv drops (s, pcs)" and pc: "pcs t = RScan start i"
    and i: "i < length (consumers (ring s))" "consumers (ring s) ! i = CONSUMER_FREE"
    and n: "length (committed s) < 2 ^ 64 - 1"
  shows "regs_inv drops (s\<lparr>ring := (ring s)\<lparr>consumers := (consumers (ring s))[i := start]\<rparr>\<rparr>, pcs(t := RDone i))"
proof -
  let ?r = "(ring s)\<lparr>consumers := (consumers (ring s))[i := start]\<rparr>"
  have ok: "reg_ok drops (length (committed s)) (ring s) (pcs u)" for u using inv by (simp add: regs_inv_def)
  have "unat start \<le> length (committed s)" using ok [of t] pc by simp
  then have start: "start \<noteq> CONSUMER_FREE" using n unat_free by auto
  have keep: "held (ring s) j \<Longrightarrow> held ?r j" for j using start by (rule held_update)
  have len: "length (consumers ?r) = length (consumers (ring s))" by simp
  have "reg_ok drops (length (committed s)) ?r (pcs u)" for u
    by (rule reg_ok_mono [OF ok order_refl keep len])
  moreover have "pcs u \<noteq> RDone i" for u using ok [of u] i by (auto simp: held_def)
  moreover have "held ?r i" using i start by (simp add: held_def)
  ultimately show ?thesis using inv by (auto simp: regs_inv_def base_inv_consumers)
qed

lemma own_inv:
  assumes step: "reg_step (s, pcs t) (s', pc)" and inv: "regs_inv drops (s, pcs)"
    and n: "length (committed s') < 2 ^ 64 - 1"
  shows "regs_inv drops (s', pcs(t := pc))"
  using step
proof cases
  case (base l)
  have b: "base_inv s" and ok: "reg_ok drops (length (committed s)) (ring s) (pcs u)" for u
    using inv by (simp_all add: regs_inv_def)
  have len: "length (consumers (ring s')) = length (consumers (ring s))" using base(2) by cases simp_all
  have keep: "held (ring s) j \<Longrightarrow> held (ring s') j" for j
    by (rule held_step [OF base(2) b n])
  have "reg_ok drops (length (committed s')) (ring s') (pcs u)" for u
    by (rule reg_ok_mono [OF ok committed_mono [OF base(2)] keep len])
  with inv base base_step [OF base(2) b n] show ?thesis by (simp add: regs_inv_def)
next
  case r_load
  then show ?thesis using inv by (cases "ppc s") (auto simp: regs_inv_def base_inv_def)
next
  case (r_taken i start)
  moreover from this have "reg_ok drops (length (committed s)) (ring s) (RScan start i)"
    using inv by (auto simp: regs_inv_def dest: spec [of _ t])
  ultimately show ?thesis using inv by (auto simp: regs_inv_def held_def less_Suc_eq)
next
  case (r_claim i start)
  then show ?thesis using claim_inv [OF inv _ r_claim(4,5)] n by simp
next
  case (r_full i start)
  moreover from this have "reg_ok drops (length (committed s)) (ring s) (RScan start i)"
    using inv by (auto simp: regs_inv_def dest: spec [of _ t])
  ultimately show ?thesis using inv by (auto simp: regs_inv_def)
qed

lemma leave_inv:
  assumes inv: "regs_inv drops (s, pcs)" and pc: "drops" "pcs t = RDone i"
  shows "regs_inv drops (s\<lparr>ring := unregister_consumer (ring s) i\<rparr>, pcs(t := RIdle))"
proof -
  let ?r = "unregister_consumer (ring s) i"
  have "reg_ok drops (length (committed s)) (ring s) (pcs t)" using inv by (simp add: regs_inv_def)
  then have r: "?r = (ring s)\<lparr>consumers := (consumers (ring s))[i := CONSUMER_FREE]\<rparr>"
    using pc by (simp add: unregister_consumer_def held_def)
  have "reg_ok drops (length (committed s)) ?r (pcs u)" if "u \<noteq> t" for u
  proof -
    have ok: "reg_ok drops (length (committed s)) (ring s) (pcs u)" and other: "pcs u \<noteq> RDone i"
      using inv pc that by (auto simp: regs_inv_def)
    show ?thesis
    proof (cases "pcs u")
      case (RDone j)
      with ok other show ?thesis by (simp add: r held_def)
    qed (use ok pc in \<open>simp_all add: r\<close>)
  qed
  with inv show ?thesis by (auto simp: regs_inv_def r base_inv_consumers)
qed

section \<open>Runs\<close>

lemma regs_mono:
  assumes "regs_step drops (s, pcs) (s', pcs')"
  shows "length (committed s) \<le> length (committed s')" "length (consumers (ring s')) = length (consumers (ring s))"
proof -
  have "conc_step s l s' \<Longrightarrow> length (consumers (ring s')) = length (consumers (ring s))" for l
    by (induction rule: conc_step.induct) simp_all
  with assms show "length (committed s) \<le> length (committed s')" "length (consumers (ring s')) = length (consumers (ring s))"
    by (cases; auto elim!: reg_step.cases dest: committed_mono simp: unregister_consumer_def)+
qed

lemma regs_reach_inv:
  assumes "regs_reach drops (s0, pcs0) (s, pcs)" and "regs_inv drops (s0, pcs0)" and "length (committed s) < 2 ^ 64 - 1"
  shows "regs_inv drops (s, pcs) \<and> length (consumers (ring s)) = length (consumers (ring s0))"
  using assms
proof (induction "(s, pcs)" arbitrary: s pcs rule: regs_reach.induct)
  case (regs_next x)
  obtain s1 pcs1 where x: "x = (s1, pcs1)" by (cases x)
  note mono = regs_mono [OF regs_next(3) [unfolded x]]
  have inv: "regs_inv drops (s1, pcs1)" "length (consumers (ring s1)) = length (consumers (ring s0))"
    using regs_next(2) [OF x regs_next(4)] mono regs_next(5) by simp_all
  from regs_next(3) [unfolded x] have "regs_inv drops (s, pcs)"
    by cases (use inv(1) regs_next(5) own_inv leave_inv in auto)
  with inv(2) mono(2) show ?case by simp
qed simp

lemma regs_init: "regs_inv drops (conc_init log_new ring_new, \<lambda>_. RIdle)"
  by (simp add: regs_inv_def base_inv_def stamps_le_def conc_init_def log_new_def ring_new_def cursor_new_def)

text \<open>
  C17: an entry has one holder. In every interleaving of any number of registering and unregistering threads with the steps
  of the producer and the consumers, no two threads hold the same id, every held id names an entry that is in use, so there are never
  more than 64 holders, and without unregistrations a thread is refused only when every entry is in use.
\<close>

theorem registrations_exclusive:
  assumes "regs_reach drops (conc_init log_new ring_new, \<lambda>_. RIdle) (s, pcs)" and "length (committed s) < 2 ^ 64 - 1"
  shows "(\<forall>t u i. pcs t = RDone i \<and> pcs u = RDone i \<longrightarrow> t = u) \<and>
    (\<forall>t i. pcs t = RDone i \<longrightarrow> i < MAX_CONSUMERS \<and> consumers (ring s) ! i \<noteq> CONSUMER_FREE) \<and>
    card {t. \<exists>i. pcs t = RDone i} \<le> MAX_CONSUMERS \<and>
    (\<not> drops \<longrightarrow> (\<exists>t. pcs t = RFull) \<longrightarrow> CONSUMER_FREE \<notin> set (consumers (ring s)))"
proof -
  have inv: "regs_inv drops (s, pcs)" and len: "length (consumers (ring s)) = MAX_CONSUMERS"
    using regs_reach_inv [OF assms(1) regs_init assms(2)] by (simp_all add: conc_init_def ring_new_def)
  have ok: "reg_ok drops (length (committed s)) (ring s) (pcs t)" for t using inv by (simp add: regs_inv_def)
  have one: "\<forall>t u i. pcs t = RDone i \<and> pcs u = RDone i \<longrightarrow> t = u" using inv unfolding regs_inv_def by blast
  have held: "i < MAX_CONSUMERS \<and> consumers (ring s) ! i \<noteq> CONSUMER_FREE" if "pcs t = RDone i" for t i
    using ok [of t] that len by (simp add: held_def)
  let ?id = "\<lambda>t. case pcs t of RDone i \<Rightarrow> i | _ \<Rightarrow> 0"
  have "inj_on ?id {t. \<exists>i. pcs t = RDone i}" using one by (auto simp: inj_on_def)
  moreover have "?id ` {t. \<exists>i. pcs t = RDone i} \<subseteq> {..<MAX_CONSUMERS}" using held by auto
  ultimately have "card {t. \<exists>i. pcs t = RDone i} \<le> card {..<MAX_CONSUMERS}" by (rule card_inj_on_le) simp
  moreover have "CONSUMER_FREE \<notin> set (consumers (ring s))" if "\<not> drops" "pcs t = RFull" for t
    using ok [of t] that by (auto simp: held_def in_set_conv_nth)
  ultimately show ?thesis using one held by auto
qed

section \<open>A thread on its own\<close>

text \<open>Undisturbed, the steps of a thread are \<open>register_consumer\<close>.\<close>

lemma scan_alone:
  assumes "i + k \<le> length (consumers (ring s))" and "\<forall>j<i + k. consumers (ring s) ! j \<noteq> CONSUMER_FREE"
    and "reg_reach x (s, RScan start i)"
  shows "reg_reach x (s, RScan start (i + k))"
  using assms
proof (induction k)
  case (Suc k)
  then have "reg_reach x (s, RScan start (i + k))" by simp
  from reg_next [OF this r_taken] Suc.prems show ?case by simp
qed simp

lemma register_alone:
  assumes "register_consumer (ring s) = (res, r)"
  shows "reg_reach (s, RIdle) (s\<lparr>ring := r\<rparr>, case res of Inr cid \<Rightarrow> RDone cid | Inl _ \<Rightarrow> RFull)"
proof -
  let ?start = "producer_seq (ring s)" and ?cs = "consumers (ring s)"
  have load: "reg_reach (s, RIdle) (s, RScan ?start 0)" by (rule reg_next [OF reg_start r_load])
  show ?thesis
  proof (cases "claim_free ?start 0 ?cs")
    case None
    then have "CONSUMER_FREE \<notin> set ?cs" by (simp add: claim_free_None)
    then have "\<forall>j<0 + length ?cs. ?cs ! j \<noteq> CONSUMER_FREE" by (metis add_0 nth_mem)
    from scan_alone [OF _ this load] have "reg_reach (s, RIdle) (s, RScan ?start (length ?cs))" by simp
    from reg_next [OF this r_full] None assms show ?thesis by (auto simp: register_consumer_def Let_def)
  next
    case (Some p)
    obtain i cs where p: "p = (i, cs)" by (cases p)
    from claim_free_Some [OF Some [unfolded p]] have i: "i < length ?cs" "?cs ! i = CONSUMER_FREE"
      "\<forall>j<0 + i. ?cs ! j \<noteq> CONSUMER_FREE" "cs = ?cs[i := ?start]" by auto
    from scan_alone [OF _ i(3) load] i(1) have "reg_reach (s, RIdle) (s, RScan ?start i)" by simp
    from reg_next [OF this r_claim [OF i(1,2)]] Some p i(4) assms show ?thesis
      by (auto simp: register_consumer_def Let_def)
  qed
qed

lemma regs_reach_own:
  assumes "reg_reach (s, pc) y" and "regs_reach drops x0 (s, pcs)" and "pcs t = pc"
  shows "regs_reach drops x0 (fst y, pcs(t := snd y))"
  using assms(1)
proof (induction rule: reg_reach.induct)
  case reg_start
  show ?case using assms(2) fun_upd_idem [of pcs t pc] assms(3) by (simp only: fst_conv snd_conv)
next
  case (reg_next z y)
  have "regs_step drops (fst z, pcs(t := snd z)) (fst y, (pcs(t := snd z))(t := snd y))"
    by (rule acts) (use reg_next in simp)
  from regs_next [OF reg_next.IH this] show ?case by (simp only: fun_upd_upd)
qed

theorem registrations_exclusive_witness:
  "\<exists>s pcs. regs_reach True (conc_init log_new ring_new, \<lambda>_. RIdle) (s, pcs) \<and> pcs 7 = RDone 0 \<and> pcs 8 = RDone 1 \<and>
     consumers (ring s) ! 1 \<noteq> CONSUMER_FREE \<and> card {t. \<exists>i. pcs t = RDone i} \<le> MAX_CONSUMERS"
proof -
  let ?s0 = "conc_init log_new ring_new" and ?pcs0 = "\<lambda>_. RIdle"
  let ?free = "replicate 62 CONSUMER_FREE"
  have cs: "consumers (ring ?s0) = CONSUMER_FREE # CONSUMER_FREE # ?free" "producer_seq (ring ?s0) = 0"
    by (simp_all add: conc_init_def ring_new_def consumer_entry_new_def cursor_new_def MAX_CONSUMERS_def
        map_replicate_const replicate_Suc [symmetric] del: replicate_Suc)
  have free: "0 \<noteq> CONSUMER_FREE" by (simp add: CONSUMER_FREE_def)
  let ?s1 = "?s0\<lparr>ring := (ring ?s0)\<lparr>consumers := 0 # CONSUMER_FREE # ?free\<rparr>\<rparr>"
  let ?s2 = "?s0\<lparr>ring := (ring ?s0)\<lparr>consumers := 0 # 0 # ?free\<rparr>\<rparr>"
  have "register_consumer (ring ?s0) = (Inr 0, ring ?s1)" "register_consumer (ring ?s1) = (Inr 1, ring ?s2)"
    using free by (simp_all add: register_consumer_def cs)
  from this [THEN register_alone]
  have r: "reg_reach (?s0, RIdle) (?s1, RDone 0)" "reg_reach (?s1, RIdle) (?s2, RDone 1)" by simp_all
  have 1: "regs_reach True (?s0, ?pcs0) (?s1, ?pcs0(7 := RDone 0))"
    using regs_reach_own [OF r(1) regs_start, of ?pcs0 7] by simp
  have 2: "regs_reach True (?s0, ?pcs0) (?s2, ?pcs0(7 := RDone 0, 8 := RDone 1))"
    using regs_reach_own [OF r(2) 1, of 8] by simp
  have "length (committed ?s2) < 2 ^ 64 - 1" by (simp add: conc_init_def log_new_def)
  note excl = registrations_exclusive [OF 2 this]
  let ?pcs = "?pcs0(7 :: nat := RDone 0, 8 := RDone 1)"
  have pcs: "?pcs 7 = RDone 0" "?pcs 8 = RDone 1" by simp_all
  have "card {t. \<exists>i. ?pcs t = RDone i} \<le> MAX_CONSUMERS" using excl by blast
  moreover have "consumers (ring ?s2) ! 1 \<noteq> CONSUMER_FREE" using excl pcs(2) by blast
  ultimately show ?thesis using 2 pcs by blast
qed

end
