(* ===== verification/Ring_Weak.thy ===== *)
theory Ring_Weak
  imports Ring_Interleaved
begin

text \<open>
  The interleaved ring under the release/acquire memory model its \<open>Ordering\<close> arguments ask
  for. An atomic location keeps all the stores made to it; a load may return an old one,
  unless a newer one happens before it. A Release store carries what its thread knows, a vector clock that
  counts for every thread the accesses that happen before, and an Acquire load learns it. The
  accesses of a slot's data are plain; the clocks say which of them are ordered.
\<close>

section \<open>Locations\<close>

datatype Tid = Producer | Consumer nat

type_synonym VClock = "Tid \<Rightarrow> nat"

text \<open>A store: its value, its number among the accesses of its thread, and what it releases.\<close>

record Store =
  st_value :: u64
  st_event :: nat
  st_clock :: VClock

text \<open>
  Every location has one writing thread. Of its stores, the newest first, a thread that
  knows the first \<open>n\<close> accesses of the writer can load those down to the newest it knows.
\<close>

fun readable :: "nat \<Rightarrow> Store list \<Rightarrow> Store list" where
  "readable n [] = []"
| "readable n (e # h) = e # (if st_event e \<le> n then [] else readable n h)"

text \<open>
  The state: the interleaved ring, whose \<open>ring\<close> holds the newest value of every location and the slots'
  data; the stores to the stamps and to the cursors; the clocks; and the last plain write and reads of
  every slot. \<open>producer_seq\<close> is loaded only by its own writer here.
\<close>

record Weak = Conc +
  seq_stores :: "nat \<Rightarrow> Store list"
  cursor_stores :: "nat \<Rightarrow> Store list"
  clocks :: "Tid \<Rightarrow> VClock"
  last_write :: "nat \<Rightarrow> nat"
  last_read :: "nat \<Rightarrow> nat \<Rightarrow> nat"

definition new_store :: "u64 \<Rightarrow> nat \<Rightarrow> VClock \<Rightarrow> Store" where
  "new_store v n clk = \<lparr>st_value = v, st_event = n, st_clock = clk\<rparr>"

text \<open>The clock of a thread after an access of its own, and after an Acquire load.\<close>

definition bumped :: "Tid \<Rightarrow> VClock \<Rightarrow> VClock" where
  "bumped t clk = clk(t := Suc (clk t))"

definition joined_with :: "Store \<Rightarrow> VClock \<Rightarrow> VClock" where
  "joined_with e clk = (\<lambda>t. max (clk t) (st_clock e t))"

definition set_clock :: "Tid \<Rightarrow> VClock \<Rightarrow> Weak \<Rightarrow> Weak" where
  "set_clock t clk s = s\<lparr>clocks := (clocks s)(t := clk)\<rparr>"

text \<open>What the threads of the ring know at the start: everything made before they were spawned.\<close>

definition weak_init :: "Log \<Rightarrow> Ring \<Rightarrow> Weak" where
  "weak_init a r = \<lparr>ring = r, ppc = PIdle, cpcs = (\<lambda>_. CIdle), committed = msgs a, got = (\<lambda>_. []),
     seq_stores = (\<lambda>i. [new_store (seq (slots r ! i)) 0 (\<lambda>_. 0)]),
     cursor_stores = (\<lambda>c. [new_store (consumers r ! c) 0 (\<lambda>_. 0)]),
     clocks = (\<lambda>_ _. 0), last_write = (\<lambda>_. 0), last_read = (\<lambda>_ _. 0)\<rparr>"

section \<open>Accesses\<close>

text \<open>
  An Acquire load of a location with stores \<open>h\<close> and writer \<open>w\<close> by thread \<open>t\<close>; a Release store to a stamp and to a
  cursor; a plain write and a plain read of a slot's data.
\<close>

definition loadable :: "Weak \<Rightarrow> Tid \<Rightarrow> Tid \<Rightarrow> Store list \<Rightarrow> Store set" where
  "loadable s t w h = set (readable (clocks s t w) h)"

definition acquire :: "Tid \<Rightarrow> Store \<Rightarrow> Weak \<Rightarrow> Weak" where
  "acquire t e s = set_clock t (joined_with e (clocks s t)) s"

definition release_seq :: "nat \<Rightarrow> u64 \<Rightarrow> Weak \<Rightarrow> Weak" where
  "release_seq i v s =
     (let clk = bumped Producer (clocks s Producer) in
      set_clock Producer clk
        (s\<lparr>ring := set_seq (ring s) i v,
           seq_stores := (seq_stores s)(i := new_store v (clk Producer) clk # seq_stores s i)\<rparr>))"

definition release_cursor :: "nat \<Rightarrow> u64 \<Rightarrow> Weak \<Rightarrow> Weak" where
  "release_cursor cid v s =
     (let clk = bumped (Consumer cid) (clocks s (Consumer cid)) in
      set_clock (Consumer cid) clk
        (s\<lparr>ring := (ring s)\<lparr>consumers := (consumers (ring s))[cid := v]\<rparr>,
           cursor_stores := (cursor_stores s)(cid := new_store v (clk (Consumer cid)) clk # cursor_stores s cid)\<rparr>))"

definition write_data :: "nat \<Rightarrow> SlotData \<Rightarrow> Weak \<Rightarrow> Weak" where
  "write_data i d s =
     (let clk = bumped Producer (clocks s Producer) in
      set_clock Producer clk
        (s\<lparr>ring := set_data (ring s) i d, last_write := (last_write s)(i := clk Producer)\<rparr>))"

definition read_data :: "nat \<Rightarrow> nat \<Rightarrow> Weak \<Rightarrow> Weak" where
  "read_data cid i s =
     (let clk = bumped (Consumer cid) (clocks s (Consumer cid)) in
      set_clock (Consumer cid) clk
        (s\<lparr>last_read := (last_read s)(i := (last_read s i)(cid := clk (Consumer cid)))\<rparr>))"

section \<open>Steps\<close>

inductive weak_step :: "Weak \<Rightarrow> Weak \<Rightarrow> bool" where
  a_start: "ppc s = PIdle \<Longrightarrow> \<not> length (p_payload p) > PAYLOAD_CAP \<Longrightarrow>
    weak_step s (s\<lparr>ppc := PScan (producer_seq (ring s)) 0 U64_MAX p\<rparr>)"
| a_scan: "ppc s = PScan x i m p \<Longrightarrow> i < length (consumers (ring s)) \<Longrightarrow>
    e \<in> loadable s Producer (Consumer i) (cursor_stores s i) \<Longrightarrow> v = st_value e \<Longrightarrow>
    weak_step s (acquire Producer e (s\<lparr>ppc := PScan x (Suc i) (if v < m then v else m) p\<rparr>))"
| a_reject: "ppc s = PScan x i m p \<Longrightarrow> i = length (consumers (ring s)) \<Longrightarrow>
    m \<noteq> U64_MAX \<and> as_u64 RING_SIZE \<le> x - m \<Longrightarrow>
    weak_step s (s\<lparr>ppc := PIdle\<rparr>)"
| a_accept: "ppc s = PScan x i m p \<Longrightarrow> i = length (consumers (ring s)) \<Longrightarrow>
    \<not> (m \<noteq> U64_MAX \<and> as_u64 RING_SIZE \<le> x - m) \<Longrightarrow> set todo = UNIV \<Longrightarrow>
    weak_step s (s\<lparr>ppc := PWrite x p todo\<rparr>)"
| a_write: "ppc s = PWrite x p (fld # todo) \<Longrightarrow> i = slot_index x \<Longrightarrow>
    weak_step s (write_data i (write_field p fld (data (slots (ring s) ! i))) (s\<lparr>ppc := PWrite x p todo\<rparr>))"
| a_commit: "ppc s = PWrite x p [] \<Longrightarrow>
    weak_step s (release_seq (slot_index x) (x + 1) (s\<lparr>ppc := PHead x, committed := committed s @ [args_msg p]\<rparr>))"
| a_head: "ppc s = PHead x \<Longrightarrow>
    weak_step s (s\<lparr>ring := (ring s)\<lparr>producer_seq := x + 1\<rparr>, ppc := PIdle\<rparr>)"
| a_load: "cpcs s cid = CIdle \<Longrightarrow> cid < length (consumers (ring s)) \<Longrightarrow>
    e \<in> loadable s (Consumer cid) (Consumer cid) (cursor_stores s cid) \<Longrightarrow> x = st_value e \<Longrightarrow> x \<noteq> CONSUMER_FREE \<Longrightarrow>
    weak_step s (s\<lparr>cpcs := (cpcs s)(cid := CLoaded x)\<rparr>)"
| a_spin: "cpcs s cid = CLoaded x \<Longrightarrow> e \<in> loadable s (Consumer cid) Producer (seq_stores s (slot_index x)) \<Longrightarrow>
    st_value e < x + 1 \<Longrightarrow>
    weak_step s (acquire (Consumer cid) e s)"
| a_false: "cpcs s cid = CLoaded x \<Longrightarrow> e \<in> loadable s (Consumer cid) Producer (seq_stores s (slot_index x)) \<Longrightarrow>
    st_value e < x + 1 \<Longrightarrow>
    weak_step s (acquire (Consumer cid) e (s\<lparr>cpcs := (cpcs s)(cid := CIdle)\<rparr>))"
| a_fell: "cpcs s cid = CLoaded x \<Longrightarrow> e \<in> loadable s (Consumer cid) Producer (seq_stores s (slot_index x)) \<Longrightarrow>
    st_value e > x + 1 \<Longrightarrow>
    weak_step s (acquire (Consumer cid) e (s\<lparr>cpcs := (cpcs s)(cid := CFell)\<rparr>))"
| a_ready: "cpcs s cid = CLoaded x \<Longrightarrow> e \<in> loadable s (Consumer cid) Producer (seq_stores s (slot_index x)) \<Longrightarrow>
    st_value e = x + 1 \<Longrightarrow> set todo = UNIV \<Longrightarrow>
    weak_step s (acquire (Consumer cid) e (s\<lparr>cpcs := (cpcs s)(cid := CReading x todo slot_zeroed)\<rparr>))"
| a_read: "cpcs s cid = CReading x (fld # todo) acc \<Longrightarrow>
    acc' = read_field fld (data (slots (ring s) ! slot_index x)) acc \<Longrightarrow>
    weak_step s (read_data cid (slot_index x) (s\<lparr>cpcs := (cpcs s)(cid := CReading x todo acc')\<rparr>))"
| a_call: "cpcs s cid = CReading x [] acc \<Longrightarrow>
    weak_step s (s\<lparr>cpcs := (cpcs s)(cid := CDone x),
                   got := (got s)(cid := got s cid @ [msg_of_data acc])\<rparr>)"
| a_store: "cpcs s cid = CDone x \<Longrightarrow>
    weak_step s (release_cursor cid (x + 1) (s\<lparr>cpcs := (cpcs s)(cid := CIdle)\<rparr>))"

inductive weak_reach :: "Weak \<Rightarrow> Weak \<Rightarrow> bool" for s0 where
  weak_start: "weak_reach s0 s0"
| weak_next: "weak_reach s0 s \<Longrightarrow> weak_step s t \<Longrightarrow> weak_reach s0 t"

text \<open>
  A data race: the producer is about to write a slot that some consumer's last read of is not among
  the accesses it knows, or a consumer is about to read a slot whose last write it does not
  know. As one thread's clocks only grow, and as the plain accesses go through such a state, an
  execution without these states has all conflicting accesses ordered by happens-before.
\<close>

definition weak_race :: "Weak \<Rightarrow> bool" where
  "weak_race s \<longleftrightarrow>
     (\<exists>x p f todo cid. ppc s = PWrite x p (f # todo) \<and> cid < MAX_CONSUMERS \<and>
        clocks s Producer (Consumer cid) < last_read s (slot_index x) cid) \<or>
     (\<exists>cid x f todo acc. cpcs s cid = CReading x (f # todo) acc \<and>
        clocks s (Consumer cid) Producer < last_write s (slot_index x))"

section \<open>Simplification\<close>

lemma weak_simps [simp]:
  "Conc.truncate (set_clock t clk s) = Conc.truncate s"
  "ring (set_clock t clk s) = ring s" "ppc (set_clock t clk s) = ppc s" "cpcs (set_clock t clk s) = cpcs s"
  "committed (set_clock t clk s) = committed s" "got (set_clock t clk s) = got s"
  "seq_stores (set_clock t clk s) = seq_stores s" "cursor_stores (set_clock t clk s) = cursor_stores s"
  "clocks (set_clock t clk s) = (clocks s)(t := clk)"
  "last_write (set_clock t clk s) = last_write s" "last_read (set_clock t clk s) = last_read s"
  by (simp_all add: set_clock_def Conc.truncate_def)

lemmas access_defs = acquire_def release_seq_def release_cursor_def write_data_def read_data_def Let_def

lemma store_simps [simp]:
  "st_value (new_store v n clk) = v" "st_event (new_store v n clk) = n" "st_clock (new_store v n clk) = clk"
  by (simp_all add: new_store_def)

lemma clock_grows: "clk u \<le> bumped t clk u" "clk u \<le> joined_with e clk u" "st_clock e u \<le> joined_with e clk u"
  by (simp_all add: bumped_def joined_with_def)

lemma readable_subset: "set (readable n h) \<subseteq> set h"
  by (induction h) auto

lemma readable_newest: "h \<noteq> [] \<Longrightarrow> hd h \<in> set (readable n h)"
  by (cases h) simp_all

text \<open>Who knows all the stores reads the newest.\<close>

lemma readable_known: "\<forall>e\<in>set h. st_event e \<le> n \<Longrightarrow> set (readable n h) \<subseteq> {hd h}"
  by (cases h) simp_all

end
