(* ===== verification/Ring_Weak_Sim.thy ===== *)
theory Ring_Weak_Sim
  imports Ring_Weak
begin

text \<open>
  Every run under release/acquire is, in the newest values, a run of the sequentially
  consistent ring: loads of old values come from calls that had not yet passed their test, and these are
  taken as not begun.
\<close>

section \<open>The sequentially consistent view\<close>

fun sc_ppc :: "ProdPc \<Rightarrow> ProdPc" where
  "sc_ppc (PScan x i m p) = PIdle"
| "sc_ppc PIdle = PIdle"
| "sc_ppc (PWrite x p todo) = PWrite x p todo"
| "sc_ppc (PHead x) = PHead x"

fun sc_cpc :: "ConsPc \<Rightarrow> ConsPc" where
  "sc_cpc (CLoaded x) = CIdle"
| "sc_cpc CIdle = CIdle"
| "sc_cpc (CReading x todo acc) = CReading x todo acc"
| "sc_cpc (CDone x) = CDone x"
| "sc_cpc CFell = CFell"

definition settle :: "Conc \<Rightarrow> Conc" where
  "settle c = c\<lparr>ppc := sc_ppc (ppc c), cpcs := sc_cpc \<circ> cpcs c\<rparr>"

definition sc_view :: "Weak \<Rightarrow> Conc" where
  "sc_view s = settle (Conc.truncate s)"

lemma sc_view_eq:
  "sc_view s = \<lparr>ring = ring s, ppc = sc_ppc (ppc s), cpcs = sc_cpc \<circ> cpcs s, committed = committed s, got = got s\<rparr>"
  by (simp add: sc_view_def settle_def Conc.truncate_def)

lemma sc_view_simps [simp]:
  "ring (sc_view s) = ring s" "ppc (sc_view s) = sc_ppc (ppc s)" "cpcs (sc_view s) c = sc_cpc (cpcs s c)"
  "committed (sc_view s) = committed s" "got (sc_view s) = got s"
  by (simp_all add: sc_view_eq)

lemma settle_view [simp]: "settle (sc_view s) = sc_view s"
proof -
  have "sc_ppc (sc_ppc pc) = sc_ppc pc" for pc by (cases pc) simp_all
  moreover have "sc_cpc (sc_cpc pc) = sc_cpc pc" for pc by (cases pc) simp_all
  ultimately show ?thesis by (simp add: sc_view_eq settle_def comp_def)
qed

lemma writing_sc_ppc [simp]: "writing (sc_ppc pc) = writing pc"
  by (cases pc) simp_all

lemma sc_view_pc:
  "sc_ppc pc = sc_ppc (ppc s) \<Longrightarrow> sc_view (s\<lparr>ppc := pc\<rparr>) = sc_view s"
  "sc_cpc c = sc_cpc (cpcs s cid) \<Longrightarrow> sc_view (s\<lparr>cpcs := (cpcs s)(cid := c)\<rparr>) = sc_view s"
  by (auto simp: sc_view_eq)

lemma sc_view_acquire [simp]: "sc_view (acquire t e s) = sc_view s"
  by (simp add: acquire_def sc_view_eq)

section \<open>The invariant\<close>

text \<open>
  A location's stores: the newest has the value of the ring, no other has a greater one, and their
  thread knows them all.
\<close>

definition stores_ok :: "u64 \<Rightarrow> nat \<Rightarrow> Store list \<Rightarrow> bool" where
  "stores_ok v n h \<longleftrightarrow> h \<noteq> [] \<and> st_value (hd h) = v \<and> (\<forall>e\<in>set h. st_event e \<le> n \<and> st_value e \<le> v)"

text \<open>
  A store of thread \<open>t\<close> carries its access number \<open>n\<close>, unless this was made at a position the store's
  value does not cover.
\<close>

definition informed :: "(nat \<Rightarrow> bool) \<Rightarrow> nat \<Rightarrow> Tid \<Rightarrow> Store \<Rightarrow> bool" where
  "informed made n t e \<longleftrightarrow> n \<le> st_clock e t \<or> (\<exists>y. unat (st_value e) \<le> y \<and> made y)"

definition begun :: "Weak \<Rightarrow> nat" where
  "begun s = length (committed s) + (if writing (ppc s) then 1 else 0)"

definition seqs_ok :: "Weak \<Rightarrow> bool" where
  "seqs_ok s \<longleftrightarrow> (\<forall>i<RING_SIZE.
     stores_ok (seq (slots (ring s) ! i)) (clocks s Producer Producer) (seq_stores s i) \<and>
     last_write s i \<le> clocks s Producer Producer \<and>
     (\<forall>e\<in>set (seq_stores s i). informed (\<lambda>y. y mod RING_SIZE = i \<and> y < begun s) (last_write s i) Producer e))"

definition cursors_known :: "Weak \<Rightarrow> bool" where
  "cursors_known s \<longleftrightarrow> (\<forall>c<MAX_CONSUMERS.
     stores_ok (consumers (ring s) ! c) (clocks s (Consumer c) (Consumer c)) (cursor_stores s c) \<and>
     (\<forall>i<RING_SIZE. last_read s i c \<le> clocks s (Consumer c) (Consumer c) \<and>
        (\<forall>e\<in>set (cursor_stores s c).
           informed (\<lambda>y. y mod RING_SIZE = i \<and> y < length (committed s)) (last_read s i c) (Consumer c) e)))"

text \<open>The producer has acquired a store to cursor \<open>j\<close> whose value has the property.\<close>

definition acquired :: "Weak \<Rightarrow> nat \<Rightarrow> (u64 \<Rightarrow> bool) \<Rightarrow> bool" where
  "acquired s j P \<longleftrightarrow> (\<exists>e\<in>set (cursor_stores s j).
     P (st_value e) \<and> st_clock e (Consumer j) \<le> clocks s Producer (Consumer j))"

definition prod_knows :: "Weak \<Rightarrow> bool" where
  "prod_knows s \<longleftrightarrow> (case ppc s of
       PScan x i m p \<Rightarrow> producer_seq (ring s) = x \<and> length (p_payload p) \<le> PAYLOAD_CAP \<and> i \<le> MAX_CONSUMERS \<and>
         (\<forall>j<i. acquired s j (\<lambda>v. m \<le> v))
     | PWrite x p todo \<Rightarrow> (\<forall>j<MAX_CONSUMERS. acquired s j (\<lambda>v. unat x < unat v + RING_SIZE))
     | _ \<Rightarrow> True)"

definition cons_knows :: "Weak \<Rightarrow> nat \<Rightarrow> bool" where
  "cons_knows s c \<longleftrightarrow> (case cpcs s c of
       CLoaded x \<Rightarrow> reading_ok (length (committed s)) (ring s) c x
     | CReading x todo acc \<Rightarrow> (\<exists>e\<in>set (seq_stores s (slot_index x)).
         st_value e = x + 1 \<and> st_clock e Producer \<le> clocks s (Consumer c) Producer)
     | _ \<Rightarrow> True)"

definition weak_inv :: "(nat \<Rightarrow> nat) \<Rightarrow> Weak \<Rightarrow> bool" where
  "weak_inv st s \<longleftrightarrow> conc_inv st (sc_view s) \<and> seqs_ok s \<and> cursors_known s \<and> prod_knows s \<and> (\<forall>c. cons_knows s c)"

lemma weak_invD:
  assumes "weak_inv st s"
  shows "conc_inv st (sc_view s)" "seqs_ok s" "cursors_known s" "prod_knows s" "cons_knows s c"
  using assms by (simp_all add: weak_inv_def)

lemma stores_okD:
  assumes "stores_ok v n h"
  shows "h \<noteq> []" "st_value (hd h) = v" "e \<in> set h \<Longrightarrow> st_event e \<le> n" "e \<in> set h \<Longrightarrow> st_value e \<le> v"
  using assms by (auto simp: stores_ok_def)

lemma weak_shape:
  assumes "weak_inv st s"
  shows "length (slots (ring s)) = RING_SIZE" "length (consumers (ring s)) = MAX_CONSUMERS"
  using ring_shapeD(1,2) [OF conc_invD(1) [OF weak_invD(1) [OF assms]]] by simp_all

lemma loaded_store: "e \<in> loadable s t w h \<Longrightarrow> e \<in> set h"
  using readable_subset by (fastforce simp: loadable_def)

text \<open>A thread's own location gives it the newest value.\<close>

lemma own_cursor:
  assumes "weak_inv st s" and "cid < MAX_CONSUMERS"
    and "e \<in> loadable s (Consumer cid) (Consumer cid) (cursor_stores s cid)"
  shows "st_value e = consumers (ring s) ! cid"
proof -
  have ok: "stores_ok (consumers (ring s) ! cid) (clocks s (Consumer cid) (Consumer cid)) (cursor_stores s cid)"
    using weak_invD(3) [OF assms(1)] assms(2) by (simp add: cursors_known_def)
  then have "e = hd (cursor_stores s cid)"
    using readable_known [of "cursor_stores s cid" "clocks s (Consumer cid) (Consumer cid)"] assms(3)
    by (auto simp: loadable_def stores_ok_def)
  with stores_okD(2) [OF ok] show ?thesis by simp
qed

text \<open>A stamp that was loaded is at most the newest, so no consumer falls behind.\<close>

lemma loaded_stamp:
  assumes inv: "weak_inv st s" and n: "length (committed s) < 2 ^ 64 - 1" and "cpcs s cid = CLoaded x"
    and "e \<in> loadable s (Consumer cid) Producer (seq_stores s (slot_index x))"
  shows "reading_ok (length (committed s)) (ring s) cid x" and "e \<in> set (seq_stores s (slot_index x))"
    and "st_value e \<le> x + 1"
    and "st_value e = x + 1 \<Longrightarrow> seq (slots (ring s) ! slot_index x) = x + 1"
proof -
  let ?q = "seq (slots (ring s) ! slot_index x)"
  show ok: "reading_ok (length (committed s)) (ring s) cid x"
    using weak_invD(5) [OF inv, of cid] assms(3) by (simp add: cons_knows_def)
  show e: "e \<in> set (seq_stores s (slot_index x))" by (rule loaded_store [OF assms(4)])
  have "slot_index x < RING_SIZE" by (simp add: slot_index_mod)
  then have le: "st_value e \<le> ?q"
    using weak_invD(2) [OF inv] e by (auto simp: seqs_ok_def stores_ok_def)
  note sc = weak_invD(1) [OF inv]
  have ok': "reading_ok (length (committed (sc_view s))) (ring (sc_view s)) cid x" using ok by simp
  have q: "?q \<le> x + 1" "unat x \<noteq> length (committed s) \<Longrightarrow> ?q = x + 1" "unat x = length (committed s) \<Longrightarrow> ?q < x + 1"
    using live_seq_at [OF sc ok'] reading_window(1) [OF sc ok'] n
    by (cases "unat x = length (committed s)"; simp)+
  from le q(1) show "st_value e \<le> x + 1" by (rule order_trans)
  show "?q = x + 1" if "st_value e = x + 1"
    using le q that by (cases "unat x = length (committed s)") auto
qed

section \<open>Every step is a run of the other ring\<close>

lemma scan_le: "\<forall>j<length cs. m \<le> cs ! j \<Longrightarrow> m \<le> U64_MAX \<Longrightarrow> m \<le> scan_min U64_MAX cs"
  using scan_min_in [of U64_MAX cs] by (auto simp: in_set_conv_nth)

lemma u64_le_MAX: "(m :: u64) \<le> U64_MAX"
  by (rule word_n1_ge)

text \<open>What passes the test with old cursors passes it with the newest.\<close>

lemma accept_newest:
  assumes cur: "cursors_ok (unat x) cs" and scan: "\<forall>j<length cs. m \<le> cs ! j"
    and pass: "\<not> (m \<noteq> U64_MAX \<and> as_u64 RING_SIZE \<le> x - m)"
  shows "\<not> (scan_min U64_MAX cs \<noteq> U64_MAX \<and> as_u64 RING_SIZE \<le> x - scan_min U64_MAX cs)"
proof (cases "scan_min U64_MAX cs = U64_MAX")
  case False
  let ?m = "scan_min U64_MAX cs"
  have m: "m \<le> ?m" by (rule scan_le [OF scan u64_le_MAX])
  from False obtain j where "j < length cs" "?m = cs ! j"
    using scan_min_in [of U64_MAX cs] by (auto simp: in_set_conv_nth)
  with cur False have "unat ?m \<le> unat x" by (auto simp: cursors_ok_def CONSUMER_FREE_def)
  with m have "unat (x - ?m) = unat x - unat ?m" "unat (x - m) = unat x - unat m" "unat m \<le> unat ?m"
    by (simp_all add: unat_sub word_le_nat_alt)
  then have "x - ?m \<le> x - m" by (simp add: word_le_nat_alt)
  moreover have "m \<noteq> U64_MAX" using False m u64_le_MAX [of ?m] by (metis antisym)
  ultimately show ?thesis using pass by auto
qed simp

lemma sim_accept:
  assumes inv: "weak_inv st s" and pc: "ppc s = PScan x i m p" and i: "i = length (consumers (ring s))"
    and pass: "\<not> (m \<noteq> U64_MAX \<and> as_u64 RING_SIZE \<le> x - m)" and todo: "set todo = UNIV"
  shows "conc_reach (sc_view s) (sc_view (s\<lparr>ppc := PWrite x p todo\<rparr>))"
proof -
  let ?c = "sc_view s" and ?cs = "consumers (ring s)"
  have k: "producer_seq (ring s) = x" "length (p_payload p) \<le> PAYLOAD_CAP" "\<forall>j<length ?cs. acquired s j (\<lambda>v. m \<le> v)"
    using weak_invD(4) [OF inv] pc i by (simp_all add: prod_knows_def)
  have n: "unat x = length (committed s)" "cursors_ok (length (committed s)) ?cs"
    using conc_invD(4,5) [OF weak_invD(1) [OF inv]] pc k(1) by simp_all
  have "m \<le> ?cs ! j" if j: "j < length ?cs" for j
  proof -
    obtain e where e: "e \<in> set (cursor_stores s j)" "m \<le> st_value e" using k(3) j by (auto simp: acquired_def)
    have "st_value e \<le> ?cs ! j"
      using weak_invD(3) [OF inv] e(1) j weak_shape(2) [OF inv] by (auto simp: cursors_known_def stores_ok_def)
    with e(2) show ?thesis by simp
  qed
  then have newest: "\<not> (scan_min U64_MAX ?cs \<noteq> U64_MAX \<and> as_u64 RING_SIZE \<le> x - scan_min U64_MAX ?cs)"
    using accept_newest [of x ?cs m] n pass by simp
  let ?s1 = "?c\<lparr>ppc := PScan x 0 U64_MAX p\<rparr>" and ?s2 = "?c\<lparr>ppc := PScan x (length ?cs) (scan_min U64_MAX ?cs) p\<rparr>"
  have "conc_step ?c Internal ?s1" using p_start [of ?c p] pc k(1,2) by simp
  moreover have "conc_reach ?s1 ?s2" using within_reach [OF scan_run [of ?s1 x 0 U64_MAX p]] by simp
  moreover have "conc_step ?s2 Internal (?c\<lparr>ppc := PWrite x p todo\<rparr>)"
    using p_accept [of ?s2 x "length ?cs" "scan_min U64_MAX ?cs" p todo] newest todo by simp
  ultimately have "conc_reach ?c (?c\<lparr>ppc := PWrite x p todo\<rparr>)"
    by (meson conc_reach_step conc_reach_trans conc_reach.intros)
  then show ?thesis by (simp add: sc_view_eq)
qed

lemma sim_ready:
  assumes inv: "weak_inv st s" and n: "length (committed s) < 2 ^ 64 - 1" and pc: "cpcs s cid = CLoaded x"
    and e: "e \<in> loadable s (Consumer cid) Producer (seq_stores s (slot_index x))" "st_value e = x + 1"
    and todo: "set todo = UNIV"
  shows "conc_reach (sc_view s) (sc_view (s\<lparr>cpcs := (cpcs s)(cid := CReading x todo slot_zeroed)\<rparr>))"
proof -
  let ?c = "sc_view s"
  let ?s1 = "?c\<lparr>cpcs := (cpcs ?c)(cid := CLoaded x)\<rparr>"
  note ok = loaded_stamp [OF inv n pc e(1)]
  have "conc_step ?c Internal ?s1"
    by (rule c_load) (use ok(1) pc weak_shape(2) [OF inv] in \<open>simp_all add: reading_ok_def\<close>)
  moreover have "conc_step ?s1 Internal (?s1\<lparr>cpcs := (cpcs ?s1)(cid := CReading x todo slot_zeroed)\<rparr>)"
    by (rule c_ready) (use ok(4) e(2) todo in simp_all)
  ultimately have "conc_reach ?c (?s1\<lparr>cpcs := (cpcs ?s1)(cid := CReading x todo slot_zeroed)\<rparr>)"
    by (meson conc_reach_step conc_reach.start)
  moreover have "?s1\<lparr>cpcs := (cpcs ?s1)(cid := CReading x todo slot_zeroed)\<rparr> =
      sc_view (s\<lparr>cpcs := (cpcs s)(cid := CReading x todo slot_zeroed)\<rparr>)"
    by (auto simp: sc_view_eq)
  ultimately show ?thesis by simp
qed

lemma one_step: "conc_step s l t \<Longrightarrow> conc_reach s t"
  by (rule conc_reach_step [OF _ conc_reach.start])

lemma weak_step_sim:
  assumes "weak_step s t" and inv: "weak_inv st s" and n: "length (committed s) < 2 ^ 64 - 1"
  shows "conc_reach (sc_view s) (sc_view t)"
  using assms(1)
proof cases
  case (a_accept x i m p todo)
  then show ?thesis using sim_accept [OF inv] by simp
next
  case (a_write x p fld todo i)
  have "sc_view t = (sc_view s)\<lparr>ring := set_data (ring (sc_view s)) i
      (write_field p fld (data (slots (ring (sc_view s)) ! i))), ppc := PWrite x p todo\<rparr>"
    unfolding a_write(1) by (simp add: sc_view_eq access_defs)
  with a_write(2,3) one_step [OF p_write [of "sc_view s" x p fld todo i]] show ?thesis by simp
next
  case (a_commit x p)
  have "sc_view t = (sc_view s)\<lparr>ring := set_seq (ring (sc_view s)) (slot_index x) (x + 1), ppc := PHead x,
      committed := committed (sc_view s) @ [args_msg p]\<rparr>"
    unfolding a_commit(1) by (simp add: sc_view_eq access_defs)
  with a_commit(2) one_step [OF p_commit [of "sc_view s" x p]] show ?thesis by simp
next
  case (a_head x)
  have "sc_view t = (sc_view s)\<lparr>ring := (ring (sc_view s))\<lparr>producer_seq := x + 1\<rparr>, ppc := PIdle\<rparr>"
    unfolding a_head(1) by (simp add: sc_view_eq)
  with a_head(2) one_step [OF p_head [of "sc_view s" x]] show ?thesis by simp
next
  case (a_fell cid x e)
  with loaded_stamp(3) [OF inv n a_fell(2,3)] show ?thesis by auto
next
  case (a_ready cid x e todo)
  then show ?thesis using sim_ready [OF inv n] by simp
next
  case (a_read cid x fld todo acc acc')
  have "sc_view t = (sc_view s)\<lparr>cpcs := (cpcs (sc_view s))(cid := CReading x todo acc')\<rparr>"
    unfolding a_read(1) by (auto simp: sc_view_eq access_defs)
  with a_read(2,3) one_step [OF c_read [of "sc_view s" cid x fld todo acc acc']] show ?thesis by simp
next
  case (a_call cid x acc)
  have "sc_view t = (sc_view s)\<lparr>cpcs := (cpcs (sc_view s))(cid := CDone x),
      got := (got (sc_view s))(cid := got (sc_view s) cid @ [msg_of_data acc])\<rparr>"
    unfolding a_call(1) by (auto simp: sc_view_eq)
  with a_call(2) one_step [OF c_call [of "sc_view s" cid x acc]] show ?thesis by simp
next
  case (a_store cid x)
  have "sc_view t = (sc_view s)\<lparr>ring := (ring (sc_view s))\<lparr>consumers := (consumers (ring (sc_view s)))[cid := x + 1]\<rparr>,
      cpcs := (cpcs (sc_view s))(cid := CIdle)\<rparr>"
    unfolding a_store(1) by (auto simp: sc_view_eq access_defs)
  with a_store(2) one_step [OF c_store [of "sc_view s" cid x]] show ?thesis by simp
qed (auto simp: sc_view_pc intro: conc_reach.start)

end
