(* ===== verification/Ring_Weak_Safety.thy ===== *)
theory Ring_Weak_Safety
  imports Ring_Weak_Sim
begin

text \<open>
  The steps under release/acquire keep the invariant; hence there is no data race, and what the
  sequentially consistent ring promises to a consumer holds.
\<close>

section \<open>What a step leaves\<close>

lemma informed_mono: "informed P n t e \<Longrightarrow> (\<And>y. P y \<Longrightarrow> Q y) \<Longrightarrow> informed Q n t e"
  by (auto simp: informed_def)

lemma seqs_ok_frame:
  assumes "seqs_ok s" and "\<And>i. seq (slots (ring t) ! i) = seq (slots (ring s) ! i)"
    and "seq_stores t = seq_stores s" and "last_write t = last_write s" and "begun s \<le> begun t"
    and "clocks s Producer Producer \<le> clocks t Producer Producer"
  shows "seqs_ok t"
  using assms unfolding seqs_ok_def stores_ok_def
  by (fastforce intro: le_trans [OF _ assms(6)] elim!: informed_mono)

lemma cursors_known_frame:
  assumes "cursors_known s" and "consumers (ring t) = consumers (ring s)"
    and "cursor_stores t = cursor_stores s" and "last_read t = last_read s"
    and "length (committed s) \<le> length (committed t)"
    and "\<And>c. clocks s (Consumer c) (Consumer c) \<le> clocks t (Consumer c) (Consumer c)"
  shows "cursors_known t"
  using assms unfolding cursors_known_def stores_ok_def
  by (fastforce intro: le_trans [OF _ assms(6)] elim!: informed_mono)

lemma acquired_mono:
  assumes "acquired s j P" and "set (cursor_stores s j) \<subseteq> set (cursor_stores t j)"
    and "clocks s Producer (Consumer j) \<le> clocks t Producer (Consumer j)" and "\<And>v. P v \<Longrightarrow> Q v"
  shows "acquired t j Q"
  using assms by (fastforce simp: acquired_def)

lemma prod_knows_frame:
  assumes "prod_knows s" and "ppc t = ppc s" and "producer_seq (ring t) = producer_seq (ring s)"
    and "\<And>j. set (cursor_stores s j) \<subseteq> set (cursor_stores t j)"
    and "\<And>j. clocks s Producer (Consumer j) \<le> clocks t Producer (Consumer j)"
  shows "prod_knows t"
proof -
  have "acquired t j P" if "acquired s j P" for j P using acquired_mono [OF that assms(4,5)] by blast
  with assms(1-3) show ?thesis by (cases "ppc s") (auto simp: prod_knows_def)
qed

lemma cons_knows_frame:
  assumes "cons_knows s c" and "cpcs t c = cpcs s c" and "consumers (ring t) ! c = consumers (ring s) ! c"
    and "\<And>i. set (seq_stores s i) \<subseteq> set (seq_stores t i)"
    and "clocks s (Consumer c) Producer \<le> clocks t (Consumer c) Producer"
  shows "cons_knows t c"
  using assms(1-3) assms(4) [THEN subsetD] le_trans [OF _ assms(5)]
  by (cases "cpcs s c") (auto simp: cons_knows_def reading_ok_def)

section \<open>The stamps\<close>

lemma live_seqs_le:
  assumes "live_seqs n ss" and "i < RING_SIZE"
  shows "unat (seq (ss ! i)) \<le> n"
proof (cases "n \<le> i")
  case True
  with assms show ?thesis by (simp add: live_seqs_def)
next
  case False
  define k where "k = n - 1 - (n - 1 - i) mod RING_SIZE"
  have "(n - 1 - i) mod RING_SIZE \<le> n - 1 - i" "(n - 1 - i) mod RING_SIZE < RING_SIZE" by simp_all
  then have k: "k < n" "n \<le> k + RING_SIZE" "i \<le> k" using False unfolding k_def by linarith+
  have "k - i = n - 1 - i - (n - 1 - i) mod RING_SIZE" using k_def by simp
  then have "RING_SIZE dvd k - i" by (metis dvd_minus_mod)
  then have "k mod RING_SIZE = i" using k(3) assms(2) by (metis le_add_diff_inverse mod_add_right_eq dvd_imp_mod_0 add_0_right mod_less)
  with assms(1) k show ?thesis unfolding live_seqs_def by fastforce
qed

lemma seqs_write:
  assumes inv: "weak_inv st s" and pc: "ppc s = PWrite x p (fld # todo)"
  shows "seqs_ok (write_data (slot_index x) d (s\<lparr>ppc := PWrite x p todo\<rparr>))" (is "seqs_ok ?t")
proof -
  let ?n = "length (committed s)"
  have x: "unat x = ?n" using conc_invD(5) [OF weak_invD(1) [OF inv]] pc by simp
  have i: "slot_index x = ?n mod RING_SIZE" "slot_index x < length (slots (ring s))"
    using weak_shape(1) [OF inv] x by (simp_all add: slot_index_mod)
  have live: "live_seqs ?n (slots (ring s))" using conc_invD(2) [OF weak_invD(1) [OF inv]] by simp
  show ?thesis
    unfolding seqs_ok_def
  proof (intro allI impI conjI ballI)
    fix j assume j: "j < RING_SIZE"
    note old = weak_invD(2) [OF inv, unfolded seqs_ok_def, rule_format, OF j]
    show "stores_ok (seq (slots (ring ?t) ! j)) (clocks ?t Producer Producer) (seq_stores ?t j)"
      using old i by (auto simp: access_defs bumped_def slots_set_data stores_ok_def intro: le_SucI)
    show "last_write ?t j \<le> clocks ?t Producer Producer"
      using old by (simp add: access_defs bumped_def le_SucI)
    fix e assume e: "e \<in> set (seq_stores ?t j)"
    then have old_e: "informed (\<lambda>y. y mod RING_SIZE = j \<and> y < begun s) (last_write s j) Producer e"
      "st_value e \<le> seq (slots (ring s) ! j)"
      using old by (auto simp: access_defs stores_ok_def)
    show "informed (\<lambda>y. y mod RING_SIZE = j \<and> y < begun ?t) (last_write ?t j) Producer e"
    proof (cases "j = slot_index x")
      case True
      have "unat (seq (slots (ring s) ! j)) \<le> ?n" by (rule live_seqs_le [OF live j])
      with old_e(2) have "unat (st_value e) \<le> ?n" by (simp add: word_le_nat_alt)
      then show ?thesis using True i(1) by (auto simp: informed_def access_defs begun_def)
    next
      case False
      then show ?thesis using old_e(1) pc by (simp add: access_defs begun_def)
    qed
  qed
qed

lemma seqs_commit:
  assumes inv: "weak_inv st s" and pc: "ppc s = PWrite x p []" and n: "length (committed s) < 2 ^ 64 - 1"
  shows "seqs_ok (release_seq (slot_index x) (x + 1) (s\<lparr>ppc := PHead x, committed := committed s @ [args_msg p]\<rparr>))"
    (is "seqs_ok ?t")
proof -
  let ?n = "length (committed s)"
  have x: "unat x = ?n" using conc_invD(5) [OF weak_invD(1) [OF inv]] pc by simp
  then have v: "unat (x + 1) = Suc ?n" using n by (simp add: u64_add_one)
  have i: "slot_index x < length (slots (ring s))" using weak_shape(1) [OF inv] by (simp add: slot_index_mod)
  have live: "live_seqs ?n (slots (ring s))" using conc_invD(2) [OF weak_invD(1) [OF inv]] by simp
  have b: "begun s = Suc ?n" "begun ?t = Suc ?n" using pc by (simp_all add: begun_def access_defs)
  show ?thesis
    unfolding seqs_ok_def b(2)
  proof (intro allI impI conjI)
    fix j assume j: "j < RING_SIZE"
    note old = weak_invD(2) [OF inv, unfolded seqs_ok_def, rule_format, OF j, unfolded b(1)]
    have "unat (seq (slots (ring s) ! j)) \<le> ?n" by (rule live_seqs_le [OF live j])
    then have "seq (slots (ring s) ! j) \<le> x + 1" using v by (simp add: word_le_nat_alt)
    then have le: "\<forall>e\<in>set (seq_stores s j). st_value e \<le> x + 1" using old by (auto simp: stores_ok_def)
    show "stores_ok (seq (slots (ring ?t) ! j)) (clocks ?t Producer Producer) (seq_stores ?t j)"
      using old le i by (auto simp: access_defs bumped_def slots_set_seq stores_ok_def intro: le_SucI)
    show "last_write ?t j \<le> clocks ?t Producer Producer"
      using old by (simp add: access_defs bumped_def le_SucI)
    show "\<forall>e\<in>set (seq_stores ?t j). informed (\<lambda>y. y mod RING_SIZE = j \<and> y < Suc ?n) (last_write ?t j) Producer e"
      using old by (cases "j = slot_index x") (simp_all add: access_defs bumped_def informed_def le_SucI)
  qed
qed

lemma step_seqs:
  assumes "weak_step s t" and inv: "weak_inv st s" and n: "length (committed s) < 2 ^ 64 - 1"
  shows "seqs_ok t"
  using assms(1)
proof cases
  case (a_write x p fld todo i)
  then show ?thesis using seqs_write [OF inv] by simp
next
  case (a_commit x p)
  then show ?thesis using seqs_commit [OF inv _ n] by simp
qed (use weak_invD(2) [OF inv] in \<open>auto elim!: seqs_ok_frame simp: access_defs begun_def bumped_def joined_with_def\<close>)

section \<open>The cursors\<close>

lemma cursors_read:
  assumes inv: "weak_inv st s" and pc: "cpcs s cid = CReading x (fld # todo) acc"
  shows "cursors_known (read_data cid (slot_index x) (s\<lparr>cpcs := (cpcs s)(cid := CReading x todo acc')\<rparr>))"
    (is "cursors_known ?t")
proof -
  have x: "consumers (ring s) ! cid = x" "unat x < length (committed s)"
    using conc_invD(6) [OF weak_invD(1) [OF inv], of cid] pc by (simp_all add: reading_ok_def)
  show ?thesis
    unfolding cursors_known_def
  proof (intro allI impI conjI ballI)
    fix c assume c: "c < MAX_CONSUMERS"
    note old = weak_invD(3) [OF inv, unfolded cursors_known_def, rule_format, OF c]
    show "stores_ok (consumers (ring ?t) ! c) (clocks ?t (Consumer c) (Consumer c)) (cursor_stores ?t c)"
      using old by (auto simp: access_defs bumped_def stores_ok_def intro: le_SucI)
    fix i assume i: "i < RING_SIZE"
    show "last_read ?t i c \<le> clocks ?t (Consumer c) (Consumer c)"
      using old i by (auto simp: access_defs bumped_def intro: le_SucI)
    fix e assume e: "e \<in> set (cursor_stores ?t c)"
    then have old_e: "informed (\<lambda>y. y mod RING_SIZE = i \<and> y < length (committed s)) (last_read s i c) (Consumer c) e"
      "st_value e \<le> consumers (ring s) ! c"
      using old i by (auto simp: access_defs stores_ok_def)
    show "informed (\<lambda>y. y mod RING_SIZE = i \<and> y < length (committed ?t)) (last_read ?t i c) (Consumer c) e"
    proof (cases "i = slot_index x \<and> c = cid")
      case True
      then show ?thesis using old_e(2) x by (auto simp: informed_def access_defs slot_index_mod word_le_nat_alt)
    next
      case False
      then show ?thesis using old_e(1) by (auto simp: access_defs)
    qed
  qed
qed

lemma cursors_store:
  assumes inv: "weak_inv st s" and pc: "cpcs s cid = CDone x" and n: "length (committed s) < 2 ^ 64 - 1"
  shows "cursors_known (release_cursor cid (x + 1) (s\<lparr>cpcs := (cpcs s)(cid := CIdle)\<rparr>))" (is "cursors_known ?t")
proof -
  have x: "cid < MAX_CONSUMERS" "consumers (ring s) ! cid = x" "unat x < length (committed s)"
    using conc_invD(6) [OF weak_invD(1) [OF inv], of cid] pc by (simp_all add: reading_ok_def)
  then have up: "x \<le> x + 1" using n by (simp add: u64_add_one word_le_nat_alt)
  show ?thesis
    unfolding cursors_known_def
  proof (intro allI impI conjI)
    fix c assume c: "c < MAX_CONSUMERS"
    note old = weak_invD(3) [OF inv, unfolded cursors_known_def, rule_format, OF c]
    show "stores_ok (consumers (ring ?t) ! c) (clocks ?t (Consumer c) (Consumer c)) (cursor_stores ?t c)"
      using old x up weak_shape(2) [OF inv]
      by (cases "c = cid") (auto simp: access_defs bumped_def stores_ok_def intro: le_SucI order_trans)
    fix i assume i: "i < RING_SIZE"
    show "last_read ?t i c \<le> clocks ?t (Consumer c) (Consumer c)"
      using old i by (auto simp: access_defs bumped_def intro: le_SucI)
    show "\<forall>e\<in>set (cursor_stores ?t c).
        informed (\<lambda>y. y mod RING_SIZE = i \<and> y < length (committed ?t)) (last_read ?t i c) (Consumer c) e"
      using old i by (auto simp: access_defs bumped_def informed_def le_SucI)
  qed
qed

lemma step_cursors:
  assumes "weak_step s t" and inv: "weak_inv st s" and n: "length (committed s) < 2 ^ 64 - 1"
  shows "cursors_known t"
  using assms(1)
proof cases
  case (a_read cid x fld todo acc acc')
  then show ?thesis using cursors_read [OF inv] by simp
next
  case (a_store cid x)
  then show ?thesis using cursors_store [OF inv _ n] by simp
qed (use weak_invD(3) [OF inv] in \<open>auto elim!: cursors_known_frame simp: access_defs bumped_def joined_with_def\<close>)

section \<open>The threads\<close>

lemma prod_scan:
  assumes inv: "weak_inv st s" and pc: "ppc s = PScan x i m p" and i: "i < length (consumers (ring s))"
    and e: "e \<in> loadable s Producer (Consumer i) (cursor_stores s i)"
  defines "v \<equiv> st_value e"
  shows "prod_knows (acquire Producer e (s\<lparr>ppc := PScan x (Suc i) (if v < m then v else m) p\<rparr>))" (is "prod_knows ?t")
proof -
  let ?m = "if v < m then v else m"
  have k: "producer_seq (ring s) = x" "length (p_payload p) \<le> PAYLOAD_CAP" "\<forall>j<i. acquired s j (\<lambda>v. m \<le> v)"
    using weak_invD(4) [OF inv] pc by (simp_all add: prod_knows_def)
  have "acquired ?t j (\<lambda>v. ?m \<le> v)" if "j < Suc i" for j
  proof (cases "j = i")
    case True
    then show ?thesis using loaded_store [OF e] by (auto simp: acquired_def access_defs v_def joined_with_def not_less intro!: bexI [of _ e])
  next
    case False
    with that k(3) have "acquired s j (\<lambda>v. m \<le> v)" by simp
    then show ?thesis by (rule acquired_mono) (auto simp: access_defs joined_with_def)
  qed
  with k i weak_shape(2) [OF inv] show ?thesis by (simp add: prod_knows_def access_defs)
qed

text \<open>What passes the test leaves more than a lap to no acquired cursor.\<close>

lemma accept_room:
  assumes "\<not> (m \<noteq> U64_MAX \<and> as_u64 RING_SIZE \<le> x - m)" and "m \<le> v" and "unat x < 2 ^ 64 - 1"
  shows "unat x < unat v + RING_SIZE"
proof (cases "m = U64_MAX")
  case True
  with assms(2) have "v = U64_MAX" by (metis word_n1_ge antisym)
  with assms(3) show ?thesis using unat_U64_MAX by simp
next
  case False
  have mv: "unat m \<le> unat v" using assms(2) by (simp add: word_le_nat_alt)
  have "\<not> as_u64 RING_SIZE \<le> x - m" using assms(1) False by simp
  then show ?thesis
    using mv by (cases "m \<le> x") (auto simp: unat_sub word_le_nat_alt RING_SIZE_eq)
qed

lemma step_prod:
  assumes "weak_step s t" and inv: "weak_inv st s" and n: "length (committed s) < 2 ^ 64 - 1"
  shows "prod_knows t"
  using assms(1)
proof cases
  case (a_scan x i m p e v)
  show ?thesis unfolding a_scan(1,5) by (rule prod_scan [OF inv a_scan(2-4)])
next
  case (a_accept x i m p todo)
  then have k: "producer_seq (ring s) = x" "\<forall>j<MAX_CONSUMERS. acquired s j (\<lambda>v. m \<le> v)"
    using weak_invD(4) [OF inv] weak_shape(2) [OF inv] by (simp_all add: prod_knows_def)
  have "unat x < 2 ^ 64 - 1"
    using conc_invD(5) [OF weak_invD(1) [OF inv]] a_accept(2) k(1) n by simp
  note room = accept_room [OF a_accept(4) _ this]
  have "acquired s j (\<lambda>v. m \<le> v) \<Longrightarrow> acquired t j (\<lambda>v. unat x < unat v + RING_SIZE)" for j
    by (erule acquired_mono) (simp_all add: a_accept(1) room)
  with k(2) show ?thesis by (simp add: prod_knows_def a_accept(1))
next
  case (a_write x p fld todo i)
  then have "\<forall>j<MAX_CONSUMERS. acquired s j (\<lambda>v. unat x < unat v + RING_SIZE)"
    using weak_invD(4) [OF inv] by (simp add: prod_knows_def)
  then have "\<forall>j<MAX_CONSUMERS. acquired t j (\<lambda>v. unat x < unat v + RING_SIZE)"
    by (auto elim!: acquired_mono simp: a_write(1) access_defs bumped_def)
  then show ?thesis by (simp add: prod_knows_def a_write(1) access_defs)
next
  case (a_store cid x)
  show ?thesis
    by (rule prod_knows_frame [OF weak_invD(4) [OF inv]]) (auto simp: a_store(1) access_defs bumped_def)
next
  case (a_start p)
  then show ?thesis by (simp add: prod_knows_def)
next
  case (a_reject x i m p)
  then show ?thesis by (simp add: prod_knows_def)
next
  case (a_commit x p)
  then show ?thesis by (simp add: prod_knows_def access_defs)
next
  case (a_head x)
  then show ?thesis by (simp add: prod_knows_def)
qed (use prod_knows_frame [OF weak_invD(4) [OF inv], of t] in
    \<open>simp_all add: access_defs bumped_def joined_with_def\<close>)

lemma step_cons:
  assumes "weak_step s t" and inv: "weak_inv st s" and n: "length (committed s) < 2 ^ 64 - 1"
  shows "cons_knows t c"
proof (cases "cpcs t c = cpcs s c \<and> consumers (ring t) ! c = consumers (ring s) ! c")
  case True
  from assms(1) have "set (seq_stores s i) \<subseteq> set (seq_stores t i)"
    "clocks s (Consumer c) Producer \<le> clocks t (Consumer c) Producer" for i
    by (cases; auto simp: access_defs bumped_def joined_with_def)+
  with True show ?thesis using cons_knows_frame [OF weak_invD(5) [OF inv]] by blast
next
  case False
  from assms(1) show ?thesis
  proof cases
    case (a_load cid e x)
    then have cid: "cid < MAX_CONSUMERS" using weak_shape(2) [OF inv] by simp
    with own_cursor [OF inv cid] a_load have "reading_ok (length (committed s)) (ring s) cid x" by (simp add: reading_ok_def)
    moreover have "c = cid" using False a_load(1) by (auto split: if_splits)
    ultimately show ?thesis by (simp add: cons_knows_def a_load(1))
  next
    case (a_ready cid x e todo)
    with loaded_stamp(2) [OF inv n a_ready(2,3)] False show ?thesis
      by (auto simp: cons_knows_def access_defs joined_with_def)
  next
    case (a_read cid x fld todo acc acc')
    then obtain e where "e \<in> set (seq_stores s (slot_index x))" "st_value e = x + 1"
      "st_clock e Producer \<le> clocks s (Consumer cid) Producer"
      using weak_invD(5) [OF inv, of cid] by (auto simp: cons_knows_def)
    with a_read False show ?thesis by (auto simp: cons_knows_def access_defs bumped_def)
  qed (use False weak_invD(5) [OF inv, of c] in \<open>auto simp: cons_knows_def access_defs\<close>)
qed

section \<open>Reachable states\<close>

lemma weak_committed: "weak_step s t \<Longrightarrow> length (committed s) \<le> length (committed t)"
  by (induction rule: weak_step.induct) (simp_all add: access_defs)

lemma reach_conc_inv:
  "conc_reach s t \<Longrightarrow> conc_inv st s \<Longrightarrow> length (committed t) < 2 ^ 64 - 1 \<Longrightarrow> conc_inv st t"
proof (induction rule: conc_reach.induct)
  case (step s l t)
  then have "length (committed s) < 2 ^ 64 - 1" using committed_mono [of s l t] by simp
  with step conc_step_inv [of s l t st] show ?case by blast
qed simp

lemma weak_step_inv:
  assumes "weak_step s t" and inv: "weak_inv st s" and n: "length (committed t) < 2 ^ 64 - 1"
  shows "weak_inv st t"
proof -
  have n': "length (committed s) < 2 ^ 64 - 1" using weak_committed [OF assms(1)] n by simp
  have "conc_inv st (sc_view t)"
    using reach_conc_inv [OF weak_step_sim [OF assms(1) inv n'] weak_invD(1) [OF inv]] n by simp
  with step_seqs [OF assms(1) inv n'] step_cursors [OF assms(1) inv n'] step_prod [OF assms(1) inv n']
    step_cons [OF assms(1) inv n'] show ?thesis by (simp add: weak_inv_def)
qed

lemma sc_view_init: "sc_view (weak_init a r) = conc_init a r"
  by (auto simp: sc_view_eq weak_init_def conc_init_def)

lemma weak_init_inv: "ring_rel a r \<Longrightarrow> weak_inv (start_positions r) (weak_init a r)"
  using init_inv(1) [of a r]
  by (simp add: weak_inv_def sc_view_init)
    (auto simp: weak_init_def seqs_ok_def cursors_known_def stores_ok_def informed_def prod_knows_def cons_knows_def)

lemma weak_reach_inv:
  "weak_reach s0 s \<Longrightarrow> weak_inv st s0 \<Longrightarrow> length (committed s) < 2 ^ 64 - 1 \<Longrightarrow>
   weak_inv st s \<and> conc_reach (sc_view s0) (sc_view s)"
proof (induction rule: weak_reach.induct)
  case (weak_next s t)
  have n: "length (committed s) < 2 ^ 64 - 1" using weak_committed [OF weak_next(2)] weak_next.prems(2) by simp
  with weak_next.IH weak_next.prems(1) have s: "weak_inv st s" "conc_reach (sc_view s0) (sc_view s)" by simp_all
  from weak_step_inv [OF weak_next(2) s(1)] conc_reach_trans [OF s(2) weak_step_sim [OF weak_next(2) s(1) n]]
    weak_next.prems(2) show ?case by simp
qed (simp add: conc_reach.start)

lemma weak_inv_no_race:
  assumes inv: "weak_inv st s" and n: "length (committed s) < 2 ^ 64 - 1"
  shows "\<not> weak_race s"
proof
  have i: "slot_index x < RING_SIZE" for x by (simp add: slot_index_mod)
  assume "weak_race s"
  then consider
    (writing) x p f todo c where "ppc s = PWrite x p (f # todo)" "c < MAX_CONSUMERS"
      "clocks s Producer (Consumer c) < last_read s (slot_index x) c"
  | (reading) c x f todo acc where "cpcs s c = CReading x (f # todo) acc"
      "clocks s (Consumer c) Producer < last_write s (slot_index x)"
    unfolding weak_race_def by blast
  then show False
  proof cases
    case writing
    have x: "unat x = length (committed s)" using conc_invD(5) [OF weak_invD(1) [OF inv]] writing(1) by simp
    obtain e where e: "e \<in> set (cursor_stores s c)" "unat x < unat (st_value e) + RING_SIZE"
      "st_clock e (Consumer c) \<le> clocks s Producer (Consumer c)"
      using weak_invD(4) [OF inv] writing(1,2) by (auto simp: prod_knows_def acquired_def)
    have "informed (\<lambda>y. y mod RING_SIZE = slot_index x \<and> y < length (committed s))
        (last_read s (slot_index x) c) (Consumer c) e"
      using weak_invD(3) [OF inv] writing(2) i e(1) by (auto simp: cursors_known_def)
    with e(3) writing(3) obtain y where y: "unat (st_value e) \<le> y" "y mod RING_SIZE = slot_index x" "y < length (committed s)"
      by (auto simp: informed_def)
    with e(2) x mod_window_eq [of y "unat x" RING_SIZE] show False by (simp add: slot_index_mod)
  next
    case reading
    have ok: "reading_ok (length (committed (sc_view s))) (ring (sc_view s)) c x" "unat x < length (committed s)"
      using conc_invD(6) [OF weak_invD(1) [OF inv], of c] reading(1) by simp_all
    then have bound: "begun s \<le> unat x + RING_SIZE"
      using reading_window(2,3) [OF weak_invD(1) [OF inv] ok(1)] by (auto simp: begun_def)
    obtain e where e: "e \<in> set (seq_stores s (slot_index x))" "st_value e = x + 1"
      "st_clock e Producer \<le> clocks s (Consumer c) Producer"
      using weak_invD(5) [OF inv, of c] reading(1) by (auto simp: cons_knows_def)
    have "informed (\<lambda>y. y mod RING_SIZE = slot_index x \<and> y < begun s) (last_write s (slot_index x)) Producer e"
      using weak_invD(2) [OF inv] i e(1) by (auto simp: seqs_ok_def)
    with e(2,3) reading(2) obtain y where y: "unat (x + 1) \<le> y" "y mod RING_SIZE = slot_index x" "y < begun s"
      by (auto simp: informed_def)
    moreover have "unat (x + 1) = Suc (unat x)" using ok(2) n by (simp add: u64_add_one)
    ultimately show False using bound mod_window_eq [of "unat x" y RING_SIZE] by (simp add: slot_index_mod)
  qed
qed

section \<open>Every run of the other ring is one of these\<close>

text \<open>A load can always take the newest store.\<close>

definition newest :: "Weak \<Rightarrow> bool" where
  "newest s \<longleftrightarrow> length (slots (ring s)) = RING_SIZE \<and> length (consumers (ring s)) = MAX_CONSUMERS \<and>
     (\<forall>i<RING_SIZE. seq_stores s i \<noteq> [] \<and> st_value (hd (seq_stores s i)) = seq (slots (ring s) ! i)) \<and>
     (\<forall>c<MAX_CONSUMERS. cursor_stores s c \<noteq> [] \<and> st_value (hd (cursor_stores s c)) = consumers (ring s) ! c)"

lemma newest_step: "weak_step s t \<Longrightarrow> newest s \<Longrightarrow> newest t"
  by (induction rule: weak_step.induct) (auto simp: newest_def access_defs slots_set_data slots_set_seq slot_index_mod)

lemma load_stamp:
  assumes "newest s"
  obtains e where "e \<in> loadable s (Consumer cid) Producer (seq_stores s (slot_index x))"
    "st_value e = seq (slots (ring s) ! slot_index x)"
proof -
  have i: "slot_index x < RING_SIZE" by (simp add: slot_index_mod)
  with assms have "seq_stores s (slot_index x) \<noteq> []" by (simp add: newest_def)
  from readable_newest [OF this] assms i show thesis by (intro that) (auto simp: newest_def loadable_def)
qed

lemma load_cursor:
  assumes "newest s" and "c < length (consumers (ring s))"
  obtains e where "e \<in> loadable s t (Consumer c) (cursor_stores s c)" "st_value e = consumers (ring s) ! c"
proof -
  have c: "c < MAX_CONSUMERS" using assms by (simp add: newest_def)
  with assms have "cursor_stores s c \<noteq> []" by (simp add: newest_def)
  from readable_newest [OF this] assms c show thesis by (intro that) (auto simp: newest_def loadable_def)
qed

lemma truncate_simps [simp]:
  "ring (Conc.truncate s) = ring s" "ppc (Conc.truncate s) = ppc s" "cpcs (Conc.truncate s) = cpcs s"
  "committed (Conc.truncate s) = committed s" "got (Conc.truncate s) = got s"
  by (simp_all add: Conc.truncate_def)

lemma truncate_updates [simp]:
  "Conc.truncate (s\<lparr>ring := r\<rparr>) = (Conc.truncate s)\<lparr>ring := r\<rparr>"
  "Conc.truncate (s\<lparr>ppc := pp\<rparr>) = (Conc.truncate s)\<lparr>ppc := pp\<rparr>"
  "Conc.truncate (s\<lparr>cpcs := cp\<rparr>) = (Conc.truncate s)\<lparr>cpcs := cp\<rparr>"
  "Conc.truncate (s\<lparr>committed := ms\<rparr>) = (Conc.truncate s)\<lparr>committed := ms\<rparr>"
  "Conc.truncate (s\<lparr>got := g\<rparr>) = (Conc.truncate s)\<lparr>got := g\<rparr>"
  "Conc.truncate (acquire t e s) = Conc.truncate s"
  "Conc.truncate (release_seq i v s) = (Conc.truncate s)\<lparr>ring := set_seq (ring s) i v\<rparr>"
  "Conc.truncate (release_cursor cid v s) =
     (Conc.truncate s)\<lparr>ring := (ring s)\<lparr>consumers := (consumers (ring s))[cid := v]\<rparr>\<rparr>"
  "Conc.truncate (write_data i d s) = (Conc.truncate s)\<lparr>ring := set_data (ring s) i d\<rparr>"
  "Conc.truncate (read_data cid i s) = Conc.truncate s"
  by (simp_all add: Conc.truncate_def access_defs)

lemma step_to: "weak_step s t \<Longrightarrow> Conc.truncate t = d \<Longrightarrow> \<exists>t. weak_step s t \<and> Conc.truncate t = d"
  by blast

lemma sc_step_weak:
  assumes "conc_step (Conc.truncate s) l d" and "newest s"
  shows "\<exists>t. weak_step s t \<and> Conc.truncate t = d"
  using assms(1)
proof cases
  case (p_scan x i m p v)
  then have i: "i < length (consumers (ring s))" by simp
  obtain e where e: "e \<in> loadable s Producer (Consumer i) (cursor_stores s i)" "st_value e = consumers (ring s) ! i"
    by (rule load_cursor [OF assms(2) i])
  then have "v = st_value e" using p_scan(5) by simp
  with p_scan(1-3) i e(1) show ?thesis by - (rule step_to [OF a_scan], auto)
next
  case (c_load cid x)
  then have i: "cid < length (consumers (ring s))" by simp
  obtain e where e: "e \<in> loadable s (Consumer cid) (Consumer cid) (cursor_stores s cid)" "st_value e = consumers (ring s) ! cid"
    by (rule load_cursor [OF assms(2) i])
  then have "x = st_value e" using c_load(5) by simp
  with c_load(1-3,6) i e(1) show ?thesis by - (rule step_to [OF a_load], auto)
next
  case (c_spin cid x)
  then show ?thesis by - (rule load_stamp [OF assms(2)], rule step_to [OF a_spin], auto)
next
  case (c_false cid x)
  then show ?thesis by - (rule load_stamp [OF assms(2)], rule step_to [OF a_false], auto)
next
  case (c_fell cid x)
  then show ?thesis by - (rule load_stamp [OF assms(2)], rule step_to [OF a_fell], auto)
next
  case (c_ready cid x todo)
  then show ?thesis by - (rule load_stamp [OF assms(2)], rule step_to [OF a_ready], auto)
next
  case (p_start p)
  then show ?thesis by - (rule step_to [OF a_start], simp_all)
next
  case (p_reject x i m p)
  then show ?thesis by - (rule step_to [OF a_reject], simp_all)
next
  case (p_accept x i m p todo)
  then show ?thesis by - (rule step_to [OF a_accept], simp_all)
next
  case (p_write x p fld todo i)
  then show ?thesis by - (rule step_to [OF a_write], simp_all add: Conc.truncate_def access_defs del: truncate_updates)
next
  case (p_commit x p)
  then show ?thesis by - (rule step_to [OF a_commit], simp_all add: Conc.truncate_def access_defs del: truncate_updates)
next
  case (p_head x)
  then show ?thesis by - (rule step_to [OF a_head], simp_all add: Conc.truncate_def access_defs del: truncate_updates)
next
  case (c_read cid x fld todo acc acc')
  then show ?thesis by - (rule step_to [OF a_read], simp_all)
next
  case (c_call cid x acc)
  then show ?thesis by - (rule step_to [OF a_call], simp_all add: Conc.truncate_def access_defs del: truncate_updates)
next
  case (c_store cid x)
  then show ?thesis by - (rule step_to [OF a_store], simp_all add: Conc.truncate_def access_defs del: truncate_updates)
qed

lemma sc_reach_weak:
  "conc_reach c0 c \<Longrightarrow> Conc.truncate s0 = c0 \<Longrightarrow> newest s0 \<Longrightarrow>
   \<exists>s. weak_reach s0 s \<and> newest s \<and> Conc.truncate s = c"
proof (induction rule: conc_reach.induct)
  case start
  then show ?case using weak_start by blast
next
  case (step c l d)
  then obtain s where s: "weak_reach s0 s" "newest s" "Conc.truncate s = c" by blast
  with step(2) sc_step_weak [of s l d] obtain t where t: "weak_step s t" "Conc.truncate t = d" by blast
  with s newest_step weak_next show ?case by blast
qed

lemma newest_init: "ring_shape r \<Longrightarrow> newest (weak_init a r)"
  by (simp add: newest_def weak_init_def ring_shape_def)

lemma sc_reach_init:
  assumes "ring_rel a r" and "conc_reach (conc_init a r) c"
  obtains s where "weak_reach (weak_init a r) s" and "Conc.truncate s = c"
proof -
  have "Conc.truncate (weak_init a r) = conc_init a r"
    by (simp add: Conc.truncate_def weak_init_def conc_init_def)
  with sc_reach_weak [OF assms(2) _ newest_init [OF ring_relD(1) [OF assms(1)]]] that show thesis by blast
qed

lemma weak_reachable:
  assumes "ring_rel a r" and "weak_reach (weak_init a r) s" and "length (committed s) < 2 ^ 64 - 1"
  shows "weak_inv (start_positions r) s" and "conc_reach (conc_init a r) (sc_view s)"
  using weak_reach_inv [OF assms(2) weak_init_inv [OF assms(1)] assms(3)] by (simp_all add: sc_view_init)

section \<open>The ring under release/acquire\<close>

text \<open>
  C2: no data race under release/acquire. In every execution of the ring in which a load may return any store that coherence
  and happens-before allow, and only what an Acquire load learns from a Release store is known to
  happen before, a write of a slot's data comes after the reads of its last lap and a read
  after the write of its message: the orderings in the code are enough.
\<close>

theorem ring_race_free_weak:
  assumes "ring_rel a r" and "weak_reach (weak_init a r) s" and "length (committed s) < 2 ^ 64 - 1"
  shows "\<not> weak_race s"
  by (rule weak_inv_no_race [OF weak_reachable(1) [OF assms] assms(3)])

theorem ring_race_free_weak_witness:
  "\<exists>s. weak_reach (weak_init demo_log demo_ring) s \<and> committed s = [stamped None 5 1 [9]] \<and> \<not> weak_race s"
proof -
  obtain c where c: "conc_reach (conc_init demo_log demo_ring) c" "committed c = [stamped None 5 1 [9]]"
    using demo_published by blast
  obtain s where s: "weak_reach (weak_init demo_log demo_ring) s" "Conc.truncate s = c"
    by (rule sc_reach_init [OF demo_rel c(1)])
  then have "committed s = [stamped None 5 1 [9]]" using c(2) by auto
  with ring_race_free_weak [OF demo_rel s(1)] s(1) show ?thesis by auto
qed

text \<open>
  C6: the memory model does not matter to what is delivered. The states of the release/acquire ring, with the calls that have
  not passed their test taken as not begun, are the states of the sequentially consistent ring: the
  ring, the committed messages, what each consumer was given, and the calls under way.
\<close>

theorem weak_runs_are_sc_runs:
  assumes "ring_rel a r"
  shows "{settle (Conc.truncate s) |s. weak_reach (weak_init a r) s \<and> length (committed s) < 2 ^ 64 - 1} =
    {settle c |c. conc_reach (conc_init a r) c \<and> length (committed c) < 2 ^ 64 - 1}" (is "?W = ?S")
proof
  show "?W \<subseteq> ?S"
  proof clarify
    fix s assume s: "weak_reach (weak_init a r) s" "length (committed s) < 2 ^ 64 - 1"
    have "settle (Conc.truncate s) = settle (sc_view s)" unfolding settle_view by (simp add: sc_view_def)
    with weak_reachable(2) [OF assms s] s(2)
    show "\<exists>c. settle (Conc.truncate s) = settle c \<and> conc_reach (conc_init a r) c \<and> length (committed c) < 2 ^ 64 - 1"
      by (intro exI [of _ "sc_view s"]) simp
  qed
  show "?S \<subseteq> ?W"
  proof clarify
    fix c assume c: "conc_reach (conc_init a r) c" "length (committed c) < 2 ^ 64 - 1"
    obtain s where s: "weak_reach (weak_init a r) s" "Conc.truncate s = c" by (rule sc_reach_init [OF assms c(1)])
    then have "length (committed s) < 2 ^ 64 - 1" using c(2) by auto
    with s show "\<exists>s. settle c = settle (Conc.truncate s) \<and> weak_reach (weak_init a r) s \<and> length (committed s) < 2 ^ 64 - 1"
      by blast
  qed
qed

theorem weak_runs_are_sc_runs_witness:
  "\<exists>s. weak_reach (weak_init demo_log demo_ring) s \<and> committed s = [stamped None 5 1 [9]]"
proof -
  obtain c where c: "conc_reach (conc_init demo_log demo_ring) c" "committed c = [stamped None 5 1 [9]]"
    using demo_published by blast
  then have "settle c \<in> {settle c |c. conc_reach (conc_init demo_log demo_ring) c \<and> length (committed c) < 2 ^ 64 - 1}" by auto
  then obtain s where s: "weak_reach (weak_init demo_log demo_ring) s" "settle c = settle (Conc.truncate s)"
    unfolding weak_runs_are_sc_runs [OF demo_rel, symmetric] by blast
  have "committed s = committed c" using arg_cong [OF s(2), of committed] by (simp add: settle_def)
  with s(1) c(2) show ?thesis by auto
qed

text \<open>
  C5: delivery under release/acquire. A registered consumer never falls behind, and its callback is given the next committed messages
  from its start position, in order, none lost, repeated or torn, although its loads may be old.
\<close>

theorem ring_delivers_weak:
  assumes "ring_rel a r" and "weak_reach (weak_init a r) s" and "length (committed s) < 2 ^ 64 - 1"
    and "cid < MAX_CONSUMERS" and "consumers (ring s) ! cid \<noteq> CONSUMER_FREE"
  shows "cpcs s cid \<noteq> CFell \<and>
    got s cid = take (length (got s cid)) (drop (unat (consumers r ! cid)) (committed s))"
proof -
  note inv = weak_invD(1) [OF weak_reachable(1) [OF assms(1-3)]]
  have "cpcs s cid \<noteq> CFell" using conc_invD(6) [OF inv, of cid] by auto
  moreover have "got s cid = take (length (got s cid)) (drop (unat (consumers r ! cid)) (committed s))"
    using conc_invD(7) [OF inv assms(4)] assms(5) by (simp add: got_ok_def start_positions_def min_def)
  ultimately show ?thesis by blast
qed

theorem ring_delivers_weak_witness:
  "\<exists>s. weak_reach (weak_init demo_log demo_ring) s \<and> committed s = [stamped None 5 1 [9]] \<and>
     cpcs s 0 \<noteq> CFell \<and> got s 0 = take (length (got s 0)) [stamped None 5 1 [9]]"
proof -
  obtain c where c: "conc_reach (conc_init demo_log demo_ring) c" "committed c = [stamped None 5 1 [9]]"
    "consumers (ring c) ! 0 = 0" using demo_published by blast
  obtain s where s: "weak_reach (weak_init demo_log demo_ring) s" "Conc.truncate s = c"
    by (rule sc_reach_init [OF demo_rel c(1)])
  then have "committed s = [stamped None 5 1 [9]]" "consumers (ring s) ! 0 = 0" using c(2,3) by auto
  with ring_delivers_weak [OF demo_rel s(1), of 0] s(1) demo_cursor show ?thesis
    by (auto simp: MAX_CONSUMERS_def CONSUMER_FREE_def)
qed

end
