(* ===== verification/Ring_Props.thy ===== *)
theory Ring_Props
  imports Ring_Run
begin

text \<open>
  The behaviour of each method of the ring on each of its branches: what a publication
  changes and when it is refused, how a refused one is released, registration, the wait of
  \<open>consume_one\<close> with its backoff, and what happens outside the contract.
\<close>

section \<open>Publishing\<close>

lemma scan_min_eq_MAX: "scan_min U64_MAX vs \<noteq> U64_MAX \<longleftrightarrow> (\<exists>v\<in>set vs. v \<noteq> U64_MAX)"
proof
  assume "scan_min U64_MAX vs \<noteq> U64_MAX"
  with scan_min_in [of U64_MAX vs] show "\<exists>v\<in>set vs. v \<noteq> U64_MAX" by auto
next
  assume "\<exists>v\<in>set vs. v \<noteq> U64_MAX"
  then obtain v where "v \<in> set vs" "v \<noteq> U64_MAX" by blast
  with scan_min_le [of v U64_MAX vs] show "scan_min U64_MAX vs \<noteq> U64_MAX"
    by (auto dest: word_order.extremum_uniqueI)
qed

text \<open>
  The distance test against the slowest cursor is the distance test against every registered
  cursor, as long as no cursor is ahead of the head.
\<close>

lemma slow_iff:
  assumes "\<forall>c\<in>set cs. c \<noteq> CONSUMER_FREE \<longrightarrow> c \<le> h"
  shows "(scan_min U64_MAX cs \<noteq> U64_MAX \<and> d \<le> h - scan_min U64_MAX cs) \<longleftrightarrow>
         (\<exists>c\<in>set cs. c \<noteq> CONSUMER_FREE \<and> d \<le> h - c)" (is "?l \<longleftrightarrow> ?r")
proof
  assume ?l
  with scan_min_in [of U64_MAX cs] show ?r by (auto simp: CONSUMER_FREE_def)
next
  assume ?r
  then obtain c where c: "c \<in> set cs" "c \<noteq> U64_MAX" "d \<le> h - c"
    by (auto simp: CONSUMER_FREE_def)
  have "scan_min U64_MAX cs \<le> c"
    using c(1) by (intro scan_min_le) simp
  moreover have "c \<le> h"
    using assms c by (auto simp: CONSUMER_FREE_def)
  ultimately have "h - c \<le> h - scan_min U64_MAX cs"
    by (simp add: word_le_nat_alt unat_sub)
  with c scan_min_eq_MAX show ?l
    by (meson order_trans)
qed

lemma publish_unfold:
  assumes "\<forall>c\<in>set (consumers r). c \<noteq> CONSUMER_FREE \<longrightarrow> c \<le> producer_seq r"
  shows "publish r clk ch mt payload =
    (if PAYLOAD_CAP < length payload then (Inl PayloadTooLarge, r)
     else if \<exists>c\<in>set (consumers r). c \<noteq> CONSUMER_FREE \<and> 65536 \<le> producer_seq r - c then (Inl SlowConsumer, r)
     else let i = unat (producer_seq r) mod 65536 in
       (Inr (), \<lparr>slots = (slots r)[i := \<lparr>seq = producer_seq r + 1,
                    data = write_slot_data clk ch mt payload (data (slots r ! i))\<rparr>],
                 producer_seq = producer_seq r + 1, consumers = consumers r\<rparr>))"
proof -
  define behind where
    "behind = (\<exists>c\<in>set (consumers r). c \<noteq> CONSUMER_FREE \<and> 65536 \<le> producer_seq r - c)"
  have slow: "(min_consumer_cursor r \<noteq> U64_MAX \<and> as_u64 RING_SIZE \<le> producer_seq r - min_consumer_cursor r) = behind"
    using slow_iff [OF assms, of "as_u64 RING_SIZE"]
    by (simp add: min_consumer_cursor_def RING_SIZE_eq behind_def)
  have idx: "slot_index (producer_seq r) = unat (producer_seq r) mod 65536"
    by (simp add: slot_index_mod RING_SIZE_eq)
  have rec: "sl\<lparr>data := d, seq := v\<rparr> = \<lparr>seq = v, data = d\<rparr>" for sl :: Slot and d v
    by (cases sl) simp
  show ?thesis
    unfolding publish_def Let_def slow idx behind_def [symmetric] by (cases r) (simp add: rec)
qed

lemma written_length:
  "length payload \<le> PAYLOAD_CAP \<Longrightarrow> unat (d_payload_len (write_slot_data clk ch mt payload d)) = length payload"
  by (simp add: write_slot_data_def PAYLOAD_CAP_def unat_of_nat take_bit_nat_eq_self)

text \<open>A stamp one above the cursor is what \<open>try_consume\<close> waits for, also where the sequence number wraps.\<close>

lemma try_consume_stamped:
  assumes "cid < length (consumers r)" and "seq (slots r ! slot_index (consumers r ! cid)) = consumers r ! cid + 1"
  shows "try_consume r cid f e =
    obind (f (data (slots r ! slot_index (consumers r ! cid))) e) (\<lambda>e'.
      Ret (Inr True, r\<lparr>consumers := (consumers r)[cid := consumers r ! cid + 1]\<rparr>, e'))"
  using assms by (simp add: try_consume_def index_def)

text \<open>
  C13: the outcomes of a publication. A payload above 1024 bytes is refused before anything
  else, then any registered cursor a whole ring behind refuses the message, and a refusal leaves
  the ring as it was. Otherwise slot \<open>head mod 65536\<close> holds the channel, the type, the time and
  the length, the payload in front of the bytes the slot had beyond it, and the stamp
  \<open>head + 1\<close>; the head has moved by one; no other slot and no cursor has changed. A consumer that
  had read everything is handed that slot by its next \<open>try_consume\<close>, which moves its cursor by one.
\<close>

theorem publish_outcomes:
  assumes "\<forall>c\<in>set (consumers r). c \<noteq> CONSUMER_FREE \<longrightarrow> c \<le> producer_seq r" and "ring_shape r"
    and "publish r clk ch mt payload = (res, r')"
  shows "(res = Inl PayloadTooLarge \<longleftrightarrow> 1024 < length payload) \<and>
    (res = Inl SlowConsumer \<longleftrightarrow> length payload \<le> 1024 \<and>
       (\<exists>c\<in>set (consumers r). c \<noteq> CONSUMER_FREE \<and> 65536 \<le> producer_seq r - c)) \<and>
    (res \<noteq> Inr () \<longrightarrow> r' = r) \<and>
    (res = Inr () \<longrightarrow>
      (let i = unat (producer_seq r) mod 65536; d = data (slots r' ! i) in
       d_channel_id d = ch \<and> d_msg_type d = mt \<and>
       d_timestamp_ns d = (case clk of None \<Rightarrow> 0 | Some ns \<Rightarrow> word_of_nat ns) \<and>
       unat (d_payload_len d) = length payload \<and>
       d_payload d = payload @ drop (length payload) (d_payload (data (slots r ! i))) \<and>
       seq (slots r' ! i) = producer_seq r + 1 \<and>
       producer_seq r' = producer_seq r + 1 \<and> consumers r' = consumers r \<and>
       length (slots r') = 65536 \<and> (\<forall>j. j \<noteq> i \<longrightarrow> slots r' ! j = slots r ! j) \<and>
       (\<forall>cid<64. consumers r ! cid = producer_seq r \<longrightarrow>
          try_consume r' cid f e = obind (f d e) (\<lambda>e'.
            Ret (Inr True, r'\<lparr>consumers := (consumers r)[cid := producer_seq r + 1]\<rparr>, e')))))"
proof -
  let ?i = "unat (producer_seq r) mod 65536"
  let ?behind = "\<exists>c\<in>set (consumers r). c \<noteq> CONSUMER_FREE \<and> 65536 \<le> producer_seq r - c"
  let ?new = "write_slot_data clk ch mt payload (data (slots r ! ?i))"
  note pub = publish_unfold [OF assms(1), of clk ch mt payload, unfolded assms(3), unfolded PAYLOAD_CAP_def]
  have len: "length (slots r) = 65536" "length (consumers r) = 64"
    using assms(2) by (simp_all add: ring_shape_def RING_SIZE_eq MAX_CONSUMERS_def)
  consider (large) "1024 < length payload" "res = Inl PayloadTooLarge" "r' = r"
    | (slow) "length payload \<le> 1024" ?behind "res = Inl SlowConsumer" "r' = r"
    | (accepted) "length payload \<le> 1024" "\<not> ?behind" "res = Inr ()"
        "r' = \<lparr>slots = (slots r)[?i := \<lparr>seq = producer_seq r + 1, data = ?new\<rparr>],
               producer_seq = producer_seq r + 1, consumers = consumers r\<rparr>"
    using pub unfolding Let_def by (metis (no_types, lifting) Pair_inject not_less)
  then show ?thesis
  proof cases
    case accepted
    have slot: "slots r' ! ?i = \<lparr>seq = producer_seq r + 1, data = ?new\<rparr>"
      using accepted(4) len by simp
    have idx: "slot_index (producer_seq r) = ?i"
      by (simp add: slot_index_mod RING_SIZE_eq)
    have "try_consume r' cid f e = obind (f ?new e) (\<lambda>e'.
        Ret (Inr True, r'\<lparr>consumers := (consumers r)[cid := producer_seq r + 1]\<rparr>, e'))"
      if "cid < 64" "consumers r ! cid = producer_seq r" for cid
      using try_consume_stamped [of cid r' f e] that len idx slot accepted(4) by simp
    moreover have "unat (d_payload_len ?new) = length payload"
      using accepted(1) by (intro written_length) (simp add: PAYLOAD_CAP_def)
    ultimately show ?thesis
      using accepted len slot by (simp add: Let_def write_slot_data_def now_ns_def split: option.split)
  qed simp_all
qed

text \<open>
  Backpressure is released by the consumer it waits for. When a publication is refused
  for the only registered consumer, that consumer has an unread message, and after it
  consumes one the same publication is accepted.
\<close>

lemma slow_consumer_releases_publish:
  assumes "ring_rel a r" and "cid < MAX_CONSUMERS" and "positions a ! cid = Some k"
    and "\<And>i. i < MAX_CONSUMERS \<Longrightarrow> i \<noteq> cid \<Longrightarrow> positions a ! i = None"
    and "Suc (length (msgs a)) < 2 ^ 64 - 1"
    and "fst (publish r clk ch mt payload) = Inl SlowConsumer"
  shows "\<exists>d r'. msg_of_data d = msgs a ! k \<and>
           try_consume r cid (\<lambda>d _. Ret (Some d)) None = Ret (Inr True, r', Some d) \<and>
           fst (publish r' clk ch mt payload) = Inr ()"
proof -
  from ring_log.backpressure_released [OF assms]
  have k: "k < length (msgs a)" "fst (publish (advance r cid) clk ch mt payload) = Inr ()"
    by simp_all
  from ring_log.con_ready [OF assms(1-3) k(1), of "\<lambda>d _. Ret (Some d)" None] k(2) show ?thesis
    by (metis obind.simps(1))
qed

text \<open>A full ring: 65536 zero messages that its one consumer has not read.\<close>

definition full_ring :: Ring where
  "full_ring = \<lparr>slots = map (\<lambda>i. \<lparr>seq = word_of_nat (Suc i), data = slot_zeroed\<rparr>) [0..<RING_SIZE],
                producer_seq = 65536, consumers = 0 # replicate 63 CONSUMER_FREE\<rparr>"

definition full_log :: Log where
  "full_log = \<lparr>msgs = replicate RING_SIZE (msg_of_data slot_zeroed), positions = Some 0 # replicate 63 None\<rparr>"

lemma full_rel: "ring_rel full_log full_ring"
proof -
  have "unat (word_of_nat (Suc i) :: u64) = Suc i" if "i < RING_SIZE" for i
    using that by (simp add: unat_of_nat take_bit_nat_eq_self RING_SIZE_eq del: of_nat_Suc)
  then have "slots_rel (msgs full_log) (slots full_ring)"
    by (auto simp: slots_rel_def full_log_def full_ring_def slot_holds_def simp del: of_nat_Suc)
  then show ?thesis
    by (simp add: ring_rel_def full_log_def full_ring_def ring_shape_def data_ok_zeroed
        MAX_CONSUMERS_def) (simp add: RING_SIZE_eq list_all2_conv_all_nth)
qed

lemma full_refused: "fst (publish full_ring clk ch mt []) = Inl SlowConsumer"
proof -
  have "lagging full_log"
    by (auto simp: lagging_iff full_log_def)
  with publish_sim [OF full_rel, of clk ch mt "[]"] show ?thesis
    by (simp add: log_publish_def full_log_def RING_SIZE_eq)
qed

lemma slow_consumer_releases_publish_example:
  "\<exists>d r'. msg_of_data d = msg_of_data slot_zeroed \<and>
     try_consume full_ring 0 (\<lambda>d _. Ret (Some d)) None = Ret (Inr True, r', Some d) \<and>
     fst (publish r' None 1 1 []) = Inr ()"
  using slow_consumer_releases_publish [OF full_rel, of 0 0 None 1 1 "[]"] full_refused
  by (simp add: full_log_def MAX_CONSUMERS_def nth_Cons' RING_SIZE_eq)

theorem publish_outcomes_witness:
  "publish full_ring None 1 1 [] = (Inl SlowConsumer, full_ring) \<and>
   (\<exists>r'. publish (ring_new\<lparr>consumers := 0 # replicate 63 CONSUMER_FREE\<rparr>) (Some 5) 7 2 [9, 8] = (Inr (), r') \<and>
      d_channel_id (data (slots r' ! 0)) = 7 \<and> d_msg_type (data (slots r' ! 0)) = 2 \<and>
      d_timestamp_ns (data (slots r' ! 0)) = 5 \<and> take 3 (d_payload (data (slots r' ! 0))) = [9, 8, 0] \<and>
      seq (slots r' ! 0) = 1 \<and> slots r' ! 1 = slots ring_new ! 1 \<and>
      try_consume r' 0 (\<lambda>d e. Ret (d_payload_len d # e)) [] =
        Ret (Inr True, r'\<lparr>consumers := 1 # replicate 63 CONSUMER_FREE\<rparr>, [2]))"
proof
  have full: "\<forall>c\<in>set (consumers full_ring). c \<noteq> CONSUMER_FREE \<longrightarrow> c \<le> producer_seq full_ring"
    by (simp add: full_ring_def)
  obtain res r where r: "publish full_ring None 1 1 [] = (res, r)"
    by (cases "publish full_ring None 1 1 []") simp
  have "\<exists>c\<in>set (consumers full_ring). c \<noteq> CONSUMER_FREE \<and> 65536 \<le> producer_seq full_ring - c"
    by (simp add: full_ring_def CONSUMER_FREE_def)
  with publish_outcomes [OF full ring_relD(1) [OF full_rel] r, of "\<lambda>_. Ret" "()"] r
  show "publish full_ring None 1 1 [] = (Inl SlowConsumer, full_ring)" by simp
next
  let ?r = "ring_new\<lparr>consumers := 0 # replicate 63 CONSUMER_FREE\<rparr>"
  have shape: "ring_shape ?r"
    using ring_relD(1) [OF ring_rel_new] by (simp add: ring_shape_def MAX_CONSUMERS_def)
  have ok: "\<forall>c\<in>set (consumers ?r). c \<noteq> CONSUMER_FREE \<longrightarrow> c \<le> producer_seq ?r" by simp
  obtain res r' where r': "publish ?r (Some 5) 7 2 [9, 8] = (res, r')"
    by (cases "publish ?r (Some 5) 7 2 [9, 8]") simp
  note out = publish_outcomes [OF ok shape r', of "\<lambda>d e. Ret (d_payload_len d # e)" "[]"]
  have "res \<noteq> Inl PayloadTooLarge" "res \<noteq> Inl SlowConsumer"
    using out by simp_all
  then have res: "res = Inr ()"
    by (metis (full_types) PublishError.exhaust old.unit.exhaust sum.exhaust)
  have zero: "data (slots ring_new ! 0) = slot_zeroed"
    using ring_new_simps(2) [of 0] by (simp add: RING_SIZE_eq)
  have len: "d_payload_len (data (slots r' ! 0)) = 2"
    using out res by (simp add: Let_def word_unat_eq_iff)
  have con: "\<forall>cid<64. consumers ?r ! cid = producer_seq ?r \<longrightarrow>
      try_consume r' cid (\<lambda>d e. Ret (d_payload_len d # e)) [] =
        Ret (Inr True, r'\<lparr>consumers := (consumers ?r)[cid := producer_seq ?r + 1]\<rparr>, [2])"
    using out res len by (simp add: Let_def)
  have "try_consume r' 0 (\<lambda>d e. Ret (d_payload_len d # e)) [] =
      Ret (Inr True, r'\<lparr>consumers := 1 # replicate 63 CONSUMER_FREE\<rparr>, [2])"
    using con [rule_format, of 0] by simp
  moreover have "take 3 (d_payload (data (slots r' ! 0))) = [9, 8, 0]"
    using out res zero by (simp add: Let_def slot_zeroed_def PAYLOAD_CAP_def)
  ultimately show "\<exists>r'. publish ?r (Some 5) 7 2 [9, 8] = (Inr (), r') \<and>
      d_channel_id (data (slots r' ! 0)) = 7 \<and> d_msg_type (data (slots r' ! 0)) = 2 \<and>
      d_timestamp_ns (data (slots r' ! 0)) = 5 \<and> take 3 (d_payload (data (slots r' ! 0))) = [9, 8, 0] \<and>
      seq (slots r' ! 0) = 1 \<and> slots r' ! 1 = slots ring_new ! 1 \<and>
      try_consume r' 0 (\<lambda>d e. Ret (d_payload_len d # e)) [] =
        Ret (Inr True, r'\<lparr>consumers := 1 # replicate 63 CONSUMER_FREE\<rparr>, [2])"
    using r' res out by (intro exI [of _ r']) (simp add: Let_def)
qed

section \<open>Registration\<close>

lemma register_consumer_find:
  "register_consumer r =
     (case find (\<lambda>i. consumers r ! i = CONSUMER_FREE) [0..<length (consumers r)] of
        None \<Rightarrow> (Inl Full, r)
      | Some i \<Rightarrow> (Inr i, r\<lparr>consumers := (consumers r)[i := producer_seq r]\<rparr>))"
proof (cases "claim_free (producer_seq r) 0 (consumers r)")
  case None
  then have "find (\<lambda>i. consumers r ! i = CONSUMER_FREE) [0..<length (consumers r)] = None"
    by (auto simp: claim_free_None find_None_iff in_set_conv_nth)
  with None show ?thesis by (simp add: register_consumer_def)
next
  case (Some jc)
  obtain i cs where jc: "jc = (i, cs)" by (cases jc)
  from claim_free_Some [OF Some [unfolded jc]]
  have "find (\<lambda>i. consumers r ! i = CONSUMER_FREE) [0..<length (consumers r)] = Some i"
    "cs = (consumers r)[i := producer_seq r]"
    by (auto simp: find_upt_Some)
  with Some jc show ?thesis by (simp add: register_consumer_def)
qed

text \<open>
  Registration claims the least free entry and starts it at the head, leaving every
  other cursor alone; it fails exactly when no entry is free, and then changes nothing; an
  entry given back by \<open>unregister_consumer\<close> can be claimed again.
\<close>

lemma register_consumer_spec:
  "(case register_consumer r of
      (Inl Full, r') \<Rightarrow> r' = r \<and> CONSUMER_FREE \<notin> set (consumers r)
    | (Inr i, r') \<Rightarrow>
        i < length (consumers r) \<and> consumers r ! i = CONSUMER_FREE \<and>
        list_all (\<lambda>c. c \<noteq> CONSUMER_FREE) (take i (consumers r)) \<and>
        r' = r\<lparr>consumers := (consumers r)[i := producer_seq r]\<rparr>) \<and>
   (cid < length (consumers r) \<longrightarrow>
      fst (register_consumer (unregister_consumer r cid)) \<in> Inr ` {..cid})"
proof
  show "case register_consumer r of
      (Inl Full, r') \<Rightarrow> r' = r \<and> CONSUMER_FREE \<notin> set (consumers r)
    | (Inr i, r') \<Rightarrow>
        i < length (consumers r) \<and> consumers r ! i = CONSUMER_FREE \<and>
        list_all (\<lambda>c. c \<noteq> CONSUMER_FREE) (take i (consumers r)) \<and>
        r' = r\<lparr>consumers := (consumers r)[i := producer_seq r]\<rparr>"
    unfolding register_consumer_find
    by (auto simp: find_upt_Some find_None_iff list_all_iff in_set_conv_nth
        split: option.split RegisterError.split)
  show "cid < length (consumers r) \<longrightarrow>
      fst (register_consumer (unregister_consumer r cid)) \<in> Inr ` {..cid}"
  proof
    let ?r = "unregister_consumer r cid"
    assume cid: "cid < length (consumers r)"
    then have free: "cid < length (consumers ?r) \<and> consumers ?r ! cid = CONSUMER_FREE"
      by (simp add: unregister_consumer_def)
    show "fst (register_consumer ?r) \<in> Inr ` {..cid}"
    proof (cases "find (\<lambda>i. consumers ?r ! i = CONSUMER_FREE) [0..<length (consumers ?r)]")
      case None
      with free show ?thesis by (auto simp: find_None_iff)
    next
      case (Some i)
      with free have "i \<le> cid" by (meson find_upt_Some not_le_imp_less)
      with Some show ?thesis by (simp add: register_consumer_find)
    qed
  qed
qed

lemma register_consumer_spec_example:
  "fst (register_consumer (unregister_consumer
     \<lparr>slots = [], producer_seq = 9, consumers = [4, 5]\<rparr> 1)) \<in> Inr ` {..1}"
  using register_consumer_spec [of "\<lparr>slots = [], producer_seq = 9, consumers = [4, 5]\<rparr>" 1] by simp

section \<open>Waiting\<close>

lemma saturating_count:
  assumes "unat (b :: u32) = min k (2 ^ 32 - 1)"
  shows "unat (saturating_add b 1) = min (Suc k) (2 ^ 32 - 1)"
proof (cases "b = - 1")
  case True
  then have max: "unat b = 2 ^ 32 - 1"
    by (simp add: unsigned_minus_1_eq_mask mask_eq_exp_minus_1)
  have "saturating_add b 1 = b"
    using True by (simp add: saturating_add_def word_less_nat_alt max [unfolded True])
  with assms max show ?thesis by simp
next
  case False
  then have "unat (b + 1) = Suc (unat b)"
    by (rule unat_Suc_word)
  moreover have "unat b \<noteq> 2 ^ 32 - 1"
    using False by (simp add: word_unat_eq_iff unsigned_minus_1_eq_mask mask_eq_exp_minus_1)
  ultimately show ?thesis
    using assms by (auto simp: saturating_add_def word_less_nat_alt min_def split: if_splits)
qed

definition spin_hint :: "nat \<Rightarrow> hint" where
  "spin_hint k = (if k < 4096 then SpinLoop else YieldNow)"

lemma backoff_hint_count:
  "unat b = min k (2 ^ 32 - 1) \<Longrightarrow> backoff_hint b = spin_hint k"
  by (auto simp: backoff_hint_def spin_hint_def word_less_nat_alt min_def split: if_splits)

lemma wait_slot_found:
  assumes "\<And>l. i \<le> l \<Longrightarrow> l < j \<Longrightarrow> load l < e" and "e \<le> load j" and "i \<le> j"
    and "unat b = min i (2 ^ 32 - 1)"
  shows "wait_slot load e b i hs =
    Some (if load j = e then Inr () else Inl FellBehind, j, hs @ map spin_hint [i..<j])"
  using assms
proof (induction "j - i" arbitrary: i b hs)
  case 0
  then show ?case by (subst wait_slot.simps) auto
next
  case (Suc d)
  then have less: "load i < e" and ij: "i < j" by auto
  have "wait_slot load e (saturating_add b 1) (Suc i) (hs @ [backoff_hint b]) =
      Some (if load j = e then Inr () else Inl FellBehind, j, (hs @ [backoff_hint b]) @ map spin_hint [Suc i..<j])"
    using Suc ij saturating_count [of b i] by (intro Suc.hyps(1)) auto
  with less ij Suc.prems(4) show ?case
    by (subst wait_slot.simps) (auto simp: backoff_hint_count upt_conv_Cons)
qed

lemma wait_slot_returns:
  assumes "wait_slot load e b i hs = Some res"
  shows "\<exists>j. e \<le> load j"
proof (rule wait_slot.raw_induct [OF _ assms, where P = "\<lambda>load e b i hs res. \<exists>j. e \<le> load j"])
  fix f load e b i hs res
  assume IH: "\<And>load e b i hs res. f load e b i hs = Some res \<Longrightarrow> \<exists>j. e \<le> (load j :: u64)"
    and eq: "(if load i = e then Some (Inr (), i, hs)
      else if load i > e then Some (Inl FellBehind, i, hs)
      else f load e (saturating_add b 1) (Suc i) (hs @ [backoff_hint b])) = Some res"
  show "\<exists>j. e \<le> load j"
  proof (cases "e \<le> load i")
    case False
    with eq IH show ?thesis by (auto split: if_splits)
  qed blast
qed

lemma wait_slot_least:
  "wait_slot load e 0 0 [] =
     (if \<exists>i. e \<le> load i
      then (let j = (LEAST i. e \<le> load i) in
            Some (if load j = e then Inr () else Inl FellBehind, j, map spin_hint [0..<j]))
      else None)"
proof (cases "\<exists>i. e \<le> load i")
  case True
  define j where "j = (LEAST i. e \<le> load i)"
  have "e \<le> load j"
    unfolding j_def using True by (rule LeastI_ex)
  moreover have "load l < e" if "l < j" for l
    using that not_less_Least [of l "\<lambda>i. e \<le> load i"] by (simp add: j_def not_le)
  ultimately have "wait_slot load e 0 0 [] =
      Some (if load j = e then Inr () else Inl FellBehind, j, map spin_hint [0..<j])"
    using wait_slot_found [of 0 j load e 0 "[]"] by simp
  with True show ?thesis
    by (simp add: j_def Let_def)
next
  case False
  then have "wait_slot load e 0 0 [] = None"
    using wait_slot_returns [of load e 0 0 "[]"] by (cases "wait_slot load e 0 0 []") auto
  with False show ?thesis by simp
qed

text \<open>
  C19: the wait of \<open>consume_one\<close> returns exactly when some load shows the awaited stamp or a
  later one; then it returns at the first such load, with success exactly for the awaited
  stamp, having issued a spin hint before each of the first 4096 reloads and a yield before
  every later one. The saturating counter never makes it spin again.
\<close>

theorem wait_slot_exact:
  "wait_slot load e 0 0 [] =
     (if \<exists>i. e \<le> load i
      then (let j = (LEAST i. e \<le> load i) in
            Some (if load j = e then Inr () else Inl FellBehind, j,
                  map (\<lambda>k. if k < 4096 then SpinLoop else YieldNow) [0..<j]))
      else None)"
  unfolding wait_slot_least spin_hint_def [abs_def] by simp

text \<open>A \<open>try_consume\<close> that found a message, as a result of \<open>consume_one\<close>.\<close>

definition as_consumed ::
  "((ConsumerError + bool) \<times> Ring \<times> 'e) outcome \<Rightarrow> ((ConsumerError + unit) \<times> Ring \<times> 'e) outcome" where
  "as_consumed res = obind res (\<lambda>(x, r, e). Ret (map_sum id (\<lambda>_. ()) x, r, e))"

text \<open>
  C20: \<open>consume_one\<close> is \<open>try_consume\<close> repeated. When only the caller moves its cursor,
  \<open>consume_one\<close> returns exactly if at some load \<open>try_consume\<close> would not report an empty
  slot, and then it is that \<open>try_consume\<close>, on the ring as it is at that load.
\<close>

theorem consume_one_repeats_try_consume:
  fixes f :: "SlotData \<Rightarrow> 'e \<Rightarrow> 'e outcome"
  assumes own: "\<And>i. length (consumers (env i)) = MAX_CONSUMERS \<and> consumers (env i) ! cid = x"
    and cid: "cid < MAX_CONSUMERS"
  shows "consume_one env cid f e =
    (if \<exists>i. try_consume (env i) cid f e \<noteq> Ret (Inr False, env i, e)
     then let j = (LEAST i. try_consume (env i) cid f e \<noteq> Ret (Inr False, env i, e)) in
          Some (as_consumed (try_consume (env j) cid f e))
     else None)"
proof -
  define load where "load i = seq (slots (env i) ! slot_index x)" for i
  have try_c: "try_consume (env i) cid f e =
      (if load i < x + 1 then Ret (Inr False, env i, e)
       else if load i > x + 1 then Ret (Inl FellBehind, env i, e)
       else obind (f (data (slots (env i) ! slot_index x)) e) (\<lambda>e'.
              Ret (Inr True, (env i)\<lparr>consumers := (consumers (env i))[cid := x + 1]\<rparr>, e')))" for i
    using own [of i] cid by (simp add: try_consume_def load_def Let_def)
  have ready: "try_consume (env i) cid f e \<noteq> Ret (Inr False, env i, e) \<longleftrightarrow> x + 1 \<le> load i" for i
    by (cases "f (data (slots (env i) ! slot_index x)) e") (auto simp: try_c not_less)
  have one: "consume_one env cid f e =
      (case wait_slot load (x + 1) 0 0 [] of
         None \<Rightarrow> None
       | Some (Inl err, i, hs) \<Rightarrow> Some (Ret (Inl err, env i, e))
       | Some (Inr _, i, hs) \<Rightarrow>
           Some (obind (f (data (slots (env i) ! slot_index x)) e) (\<lambda>e'.
             Ret (Inr (), (env i)\<lparr>consumers := (consumers (env i))[cid := x + 1]\<rparr>, e'))))"
    using own [of 0] cid by (simp add: consume_one_def load_def [abs_def] Let_def)
  show ?thesis
  proof (cases "\<exists>i. x + 1 \<le> load i")
    case True
    define j where "j = (LEAST i. x + 1 \<le> load i)"
    have "x + 1 \<le> load j"
      unfolding j_def using True by (rule LeastI_ex)
    then show ?thesis
      unfolding one wait_slot_least ready using True
      by (auto simp: j_def [symmetric] Let_def try_c as_consumed_def obind_assoc not_less)
  next
    case False
    then show ?thesis by (simp add: one wait_slot_least ready)
  qed
qed

theorem consume_one_repeats_try_consume_witness:
  "consume_one (\<lambda>i. full_ring) 0 (\<lambda>d _. Ret d) slot_zeroed =
   (if \<exists>i::nat. try_consume full_ring 0 (\<lambda>d _. Ret d) slot_zeroed \<noteq> Ret (Inr False, full_ring, slot_zeroed)
    then let j = (LEAST i::nat. try_consume full_ring 0 (\<lambda>d _. Ret d) slot_zeroed \<noteq>
                    Ret (Inr False, full_ring, slot_zeroed)) in
         Some (as_consumed (try_consume full_ring 0 (\<lambda>d _. Ret d) slot_zeroed))
    else None)"
  using consume_one_repeats_try_consume [of "\<lambda>i. full_ring" 0 0 "\<lambda>d _. Ret d" slot_zeroed]
  by (simp add: full_ring_def MAX_CONSUMERS_def)

section \<open>Outside the contract\<close>

text \<open>Every residue has one representative among the last \<open>R\<close> numbers below \<open>n\<close>.\<close>

lemma window_rep:
  assumes "x < (n :: nat)" and "0 < R"
  obtains k where "x \<le> k" "k < n" "n \<le> k + R" "k mod R = x mod R"
proof
  let ?q = "(n - 1 - x) div R"
  have d: "n - 1 - x = R * ?q + (n - 1 - x) mod R" "(n - 1 - x) mod R < R"
    using assms(2) by simp_all
  show "x \<le> x + R * ?q" "(x + R * ?q) mod R = x mod R" by simp_all
  show "x + R * ?q < n" "n \<le> x + R * ?q + R"
    using d assms(1) by linarith+
qed

text \<open>
  An id that is not registered is not refused. \<open>try_consume\<close> reads the free entry's
  sentinel as a cursor: on a ring with fewer than 65536 messages it hands out the last slot's
  zeroed data as a message nobody published and registers the id at position 0; on a ring
  that has been filled it reports \<open>FellBehind\<close>.
\<close>

lemma try_consume_unregistered:
  assumes rel: "ring_rel a r" and cid: "cid < MAX_CONSUMERS" "positions a ! cid = None"
  shows "try_consume r cid f e =
    (if length (msgs a) < RING_SIZE
     then obind (f (data (slots r ! 65535)) e) (\<lambda>e'.
            Ret (Inr True, r\<lparr>consumers := (consumers r)[cid := 0]\<rparr>, e'))
     else Ret (Inl FellBehind, r, e))"
proof -
  let ?n = "length (msgs a)"
  have c: "cid < length (consumers r)" "consumers r ! cid = U64_MAX"
    using position_free_iff [OF rel cid(1)] cid ring_relD(1) [OF rel]
    by (simp_all add: ring_shape_def CONSUMER_FREE_def)
  have idx: "slot_index U64_MAX = 65535"
    by (simp add: slot_index_mod RING_SIZE_eq unsigned_minus_1_eq_mask mask_eq_exp_minus_1)
  have live: "slots_rel (msgs a) (slots r)" by (rule ring_relD(4) [OF rel])
  have stamp: "(seq (slots r ! 65535) = 0) = (?n < RING_SIZE)"
  proof (cases "?n < RING_SIZE")
    case True
    with live show ?thesis by (simp add: slots_rel_def RING_SIZE_eq)
  next
    case False
    then obtain k where "k < ?n" "?n \<le> k + RING_SIZE" "k mod RING_SIZE = 65535"
      using window_rep [of 65535 ?n RING_SIZE] by (auto simp: RING_SIZE_eq)
    with live have "unat (seq (slots r ! 65535)) = Suc k"
      unfolding slots_rel_def slot_holds_def by metis
    with False show ?thesis by auto
  qed
  then show ?thesis
    using c by (auto simp: try_consume_def idx Let_def word_gt_0)
qed

lemma try_consume_unregistered_example:
  "try_consume ring_new 5 (\<lambda>d _. Ret (Some d)) None =
     Ret (Inr True, ring_new\<lparr>consumers := (replicate MAX_CONSUMERS CONSUMER_FREE)[5 := 0]\<rparr>, Some slot_zeroed)"
  using try_consume_unregistered [OF ring_rel_new, of 5 "\<lambda>d _. Ret (Some d)" None]
  by (simp add: log_new_def size_consts)

text \<open>
  A stale registration. \<open>register_consumer\<close> loads the head and then claims an entry; a
  thread held up between the two, while more than 65536 messages are published, claims an
  entry behind the window. From then on its every call reports \<open>FellBehind\<close> without
  moving the cursor, and every publication is refused for it.
\<close>

lemma stale_registration_blocks:
  assumes rel: "ring_rel a r" and stale: "unat start + RING_SIZE < length (msgs a)"
    and claim: "claim_free start 0 (consumers r) = Some (cid, cs)"
  defines "r' \<equiv> r\<lparr>consumers := cs\<rparr>"
  shows "try_consume r' cid f e = Ret (Inl FellBehind, r', e) \<and>
         publish r' clk ch mt payload =
           (Inl (if PAYLOAD_CAP < length payload then PayloadTooLarge else SlowConsumer), r')"
proof
  let ?n = "length (msgs a)"
  have n: "?n < 2 ^ 64 - 1" "unat (producer_seq r) = ?n" and live: "slots_rel (msgs a) (slots r)"
    using ring_relD [OF rel] by simp_all
  from claim_free_Some [OF claim] have cs: "cid < length (consumers r)" "cs = (consumers r)[cid := start]"
    by auto
  then have c: "cid < length cs" "cs ! cid = start" by simp_all
  obtain k where k: "unat start \<le> k" "k < ?n" "?n \<le> k + RING_SIZE" "k mod RING_SIZE = unat start mod RING_SIZE"
    using window_rep [of "unat start" ?n RING_SIZE] stale by auto
  with live have "unat (seq (slots r ! slot_index start)) = Suc k"
    unfolding slots_rel_def slot_holds_def slot_index_mod by metis
  moreover have "unat (start + 1) = Suc (unat start)"
    using stale n by (simp add: u64_add_one)
  ultimately have "start + 1 < seq (slots r ! slot_index start)"
    using k stale by (simp add: word_less_nat_alt)
  then show "try_consume r' cid f e = Ret (Inl FellBehind, r', e)"
    using c by (auto simp: try_consume_def r'_def Let_def)
  have "scan_min U64_MAX cs \<le> start"
    using c by (intro scan_min_le) (auto dest: nth_mem)
  then have "unat (scan_min U64_MAX cs) \<le> unat start"
    by (simp add: word_le_nat_alt)
  moreover from this have "scan_min U64_MAX cs \<noteq> U64_MAX"
    using stale n unat_U64_MAX by auto
  ultimately have "scan_min U64_MAX cs \<noteq> U64_MAX \<and>
      as_u64 RING_SIZE \<le> producer_seq r - scan_min U64_MAX cs"
    using stale n by (simp add: word_le_nat_alt unat_sub RING_SIZE_eq)
  then show "publish r' clk ch mt payload =
      (Inl (if PAYLOAD_CAP < length payload then PayloadTooLarge else SlowConsumer), r')"
    by (simp add: publish_def r'_def min_consumer_cursor_def Let_def)
qed

text \<open>The full ring after its consumer has left and ten more messages have come.\<close>

lemma stale_registration_blocks_example:
  "\<exists>r. fst (publish r None 1 1 []) = Inl SlowConsumer \<and>
       try_consume r 0 (\<lambda>d _. Ret d) slot_zeroed = Ret (Inl FellBehind, r, slot_zeroed)"
proof -
  define a1 r1 where "a1 = log_unregister full_log 0" and "r1 = unregister_consumer full_ring 0"
  define r2 where "r2 = snd (publish r1 None 1 1 [])"
  have 1: "ring_rel a1 r1"
    unfolding a1_def r1_def by (rule unregister_sim [OF full_rel])
  have a1: "msgs a1 = replicate RING_SIZE (msg_of_data slot_zeroed)" "positions a1 = replicate 64 None"
    by (simp_all add: a1_def log_unregister_def full_log_def replicate_Suc [symmetric] del: replicate_Suc)
  then have "\<not> lagging a1"
    by (auto simp: lagging_iff)
  then have "log_publish a1 (stamped None 1 1 []) = (Inr (), a1\<lparr>msgs := msgs a1 @ [stamped None 1 1 []]\<rparr>)"
    by (simp add: log_publish_def)
  with publish_sim [OF 1, of None 1 1 "[]"] a1
  have 2: "ring_rel (a1\<lparr>msgs := msgs a1 @ [stamped None 1 1 []]\<rparr>) r2"
    by (simp add: r2_def RING_SIZE_eq)
  have claim: "claim_free 0 0 (consumers r2) = Some (0, 0 # replicate 63 CONSUMER_FREE)"
    by (simp add: r2_def r1_def publish_def Let_def unregister_consumer_def full_ring_def)
  have "unat (0 :: u64) + RING_SIZE < length (msgs (a1\<lparr>msgs := msgs a1 @ [stamped None 1 1 []]\<rparr>))"
    using a1(1) by simp
  from stale_registration_blocks [OF 2 this claim, of "\<lambda>d _. Ret d" slot_zeroed None 1 1 "[]"]
  show ?thesis by (intro exI [of _ "r2\<lparr>consumers := 0 # replicate 63 CONSUMER_FREE\<rparr>"]) simp
qed

end
