(* ===== verification/Float64.thy ===== *)
theory Float64
  imports Complex_Main Bus_Prelude "HOL-Library.Log_Nat"
begin

text \<open>
  Rust's \<open>f64\<close> as the programs under \<open>bench/\<close> use it: IEEE 754 binary64 with rounding to nearest,
  ties to even. A number is its sign and its magnitude, a rational that binary64 represents;
  every operation computes the exact result and rounds it. Executable throughout.
\<close>

section \<open>Rounding a magnitude\<close>

text \<open>The binary logarithm of a positive rational, rounded down.\<close>

definition ilog2 :: "rat \<Rightarrow> int" where
  "ilog2 x = (let (p, q) = quotient_of x; d = bitlen p - bitlen q in if 2 powi d \<le> x then d else d - 1)"

text \<open>
  The exponent of the last of the 53 places of a magnitude; below \<open>2 ^ -1022\<close> the numbers
  are subnormal and the last place stays at \<open>2 ^ -1074\<close>.
\<close>

definition last_place :: "rat \<Rightarrow> int" where
  "last_place x = max (- 1074) (ilog2 x - 52)"

definition round_even :: "rat \<Rightarrow> int" where
  "round_even y =
     (let n = \<lfloor>y\<rfloor>; f = y - of_int n in if f < 1 / 2 \<or> f = 1 / 2 \<and> even n then n else n + 1)"

definition round_mag :: "rat \<Rightarrow> rat" where
  "round_mag x = (if x \<le> 0 then 0 else let u = 2 powi last_place x in of_int (round_even (x / u)) * u)"

lemma ilog2_bounds:
  assumes "0 < x"
  shows "2 powi ilog2 x \<le> x \<and> x < 2 powi (ilog2 x + 1)"
proof -
  obtain p q where pq: "quotient_of x = (p, q)" by fastforce
  have q: "0 < q" and x: "x = of_int p / of_int q"
    using quotient_of_denom_pos [OF pq] quotient_of_div [OF pq] by simp_all
  with assms have p: "0 < p" by (simp add: zero_less_divide_iff)
  have bits: "(2 :: rat) powi (bitlen n - 1) \<le> of_int n" "(of_int n :: rat) < 2 powi bitlen n"
    "0 < bitlen n" if "0 < n" for n :: int
  proof -
    have b: "0 < bitlen n"
      using that by (simp add: bitlen_eq_zero_iff bitlen_nonneg order_less_le)
    with bitlen_bounds [OF that]
    have "2 ^ nat (bitlen n - 1) \<le> n" "n < 2 ^ nat (bitlen n)" by simp_all
    then have "(of_int (2 ^ nat (bitlen n - 1)) :: rat) \<le> of_int n"
      "(of_int n :: rat) < of_int (2 ^ nat (bitlen n))"
      by (simp_all only: of_int_le_iff of_int_less_iff)
    with b show "(2 :: rat) powi (bitlen n - 1) \<le> of_int n" "(of_int n :: rat) < 2 powi bitlen n"
      "0 < bitlen n"
      by (simp_all add: power_int_nonneg_exp)
  qed
  let ?d = "bitlen p - bitlen q"
  have "(2 :: rat) powi (?d - 1) = 2 powi (bitlen p - 1) / 2 powi bitlen q"
    by (simp add: power_int_diff [symmetric] algebra_simps)
  also have "\<dots> \<le> x"
    unfolding x using bits [OF p] bits [OF q] q p by (intro frac_le) simp_all
  finally have lo: "(2 :: rat) powi (?d - 1) \<le> x" .
  have "x < 2 powi bitlen p / 2 powi (bitlen q - 1)"
    unfolding x using bits [OF p] bits [OF q] q p by (intro frac_less) simp_all
  also have "\<dots> = 2 powi (?d + 1)"
    by (simp add: power_int_diff [symmetric] algebra_simps)
  finally show ?thesis
    using lo by (auto simp: ilog2_def pq Let_def)
qed

lemma powi2_less_iff [simp]: "(2 :: rat) powi a < 2 powi b \<longleftrightarrow> a < b"
proof
  show "a < b" if "(2 :: rat) powi a < 2 powi b"
  proof (rule ccontr)
    assume "\<not> a < b"
    then have "(2 :: rat) powi b \<le> 2 powi a" by (intro power_int_increasing) simp_all
    with that show False by simp
  qed
qed (simp add: power_int_strict_increasing)

lemma powi2_le_iff [simp]: "(2 :: rat) powi a \<le> 2 powi b \<longleftrightarrow> a \<le> b"
  by (simp flip: not_less)

lemma ilog2_le_iff: assumes "0 < x" shows "e \<le> ilog2 x \<longleftrightarrow> 2 powi e \<le> x"
proof
  assume "e \<le> ilog2 x"
  then have "(2 :: rat) powi e \<le> 2 powi ilog2 x" by simp
  with ilog2_bounds [OF assms] show "2 powi e \<le> x" by linarith
next
  assume "2 powi e \<le> x"
  with ilog2_bounds [OF assms] have "(2 :: rat) powi e < 2 powi (ilog2 x + 1)" by linarith
  then show "e \<le> ilog2 x" by simp
qed

lemma ilog2_less_iff: "0 < x \<Longrightarrow> ilog2 x < e \<longleftrightarrow> x < 2 powi e"
  using ilog2_le_iff [of x e] by (simp flip: not_le)

lemma ilog2_mono: "0 < x \<Longrightarrow> x \<le> y \<Longrightarrow> ilog2 x \<le> ilog2 y"
  using ilog2_le_iff [of y "ilog2 x"] ilog2_bounds [of x] by simp

lemma last_place_mono: "0 < x \<Longrightarrow> x \<le> y \<Longrightarrow> last_place x \<le> last_place y"
  using ilog2_mono [of x y] by (simp add: last_place_def)

lemma round_even_of_int [simp]: "round_even (of_int n) = n"
  by (simp add: round_even_def)

lemma round_even_bounds: "\<lfloor>y\<rfloor> \<le> round_even y" "round_even y \<le> \<lfloor>y\<rfloor> + 1"
  by (simp_all add: round_even_def Let_def)

lemma round_even_mono:
  assumes "x \<le> y"
  shows "round_even x \<le> round_even y"
proof (cases "\<lfloor>x\<rfloor> = \<lfloor>y\<rfloor>")
  case True
  with assms show ?thesis by (auto simp: round_even_def Let_def)
next
  case False
  with floor_mono [OF assms] have "\<lfloor>x\<rfloor> + 1 \<le> \<lfloor>y\<rfloor>" by simp
  with round_even_bounds(2) [of x] round_even_bounds(1) [of y] show ?thesis by linarith
qed

lemma round_even_le: "y \<le> of_int n \<Longrightarrow> round_even y \<le> n"
  using round_even_mono [of y "of_int n"] by simp

lemma round_even_ge: "of_int n \<le> y \<Longrightarrow> n \<le> round_even y"
  using round_even_mono [of "of_int n" y] by simp

lemma round_even_nearest: "\<bar>of_int (round_even y) - y\<bar> \<le> 1 / 2"
proof -
  have "of_int \<lfloor>y\<rfloor> \<le> y" "y < of_int \<lfloor>y\<rfloor> + 1"
    using floor_correct [of y] by simp_all
  then show ?thesis
    by (cases "y - of_int \<lfloor>y\<rfloor>" "1 / 2 :: rat" rule: linorder_cases)
      (auto simp: round_even_def Let_def abs_le_iff)
qed

lemma round_mag_0 [simp]: "round_mag 0 = 0"
  by (simp add: round_mag_def)

lemma round_mag_nonneg [simp]: "0 \<le> round_mag x"
  by (auto simp: round_mag_def Let_def intro!: mult_nonneg_nonneg round_even_ge)

lemma round_mag_not_neg [simp]: "\<not> round_mag x < 0"
  by (simp add: not_less)

lemma last_place_upper: "0 < x \<Longrightarrow> x < 2 powi (last_place x + 53)"
  using ilog2_less_iff [of x "last_place x + 53"] by (simp add: last_place_def max_def split: if_splits)

lemma round_mag_upper:
  assumes "0 < x"
  shows "round_mag x \<le> 2 powi (last_place x + 53)"
proof -
  let ?u = "2 powi last_place x :: rat"
  have "x / ?u \<le> of_int (2 ^ 53)"
    using last_place_upper [OF assms] by (simp add: power_int_add divide_le_eq mult.commute)
  then have "of_int (round_even (x / ?u)) \<le> (of_int (2 ^ 53) :: rat)"
    by (simp only: of_int_le_iff round_even_le)
  then have "of_int (round_even (x / ?u)) * ?u \<le> 2 ^ 53 * ?u"
    by (intro mult_right_mono) simp_all
  with assms show ?thesis by (simp add: round_mag_def Let_def power_int_add mult.commute)
qed

lemma round_mag_lower:
  assumes "0 < x" and "- 1074 < last_place x"
  shows "2 powi (last_place x + 52) \<le> round_mag x"
proof -
  let ?u = "2 powi last_place x :: rat"
  have "2 powi (last_place x + 52) \<le> x"
    using assms ilog2_le_iff [of x "last_place x + 52"] by (simp add: last_place_def)
  then have "of_int (2 ^ 52) \<le> x / ?u"
    by (simp add: power_int_add le_divide_eq mult.commute)
  then have "(of_int (2 ^ 52) :: rat) \<le> of_int (round_even (x / ?u))"
    by (simp only: of_int_le_iff round_even_ge)
  then have "2 ^ 52 * ?u \<le> of_int (round_even (x / ?u)) * ?u"
    by (intro mult_right_mono) simp_all
  with assms show ?thesis by (simp add: round_mag_def Let_def power_int_add mult.commute)
qed

text \<open>Rounding is monotone, and fixes every number that has at most 53 significant places.\<close>

lemma round_mag_mono:
  assumes "x \<le> y"
  shows "round_mag x \<le> round_mag y"
proof (cases "0 < x")
  case False
  then have "round_mag x = 0" by (simp add: round_mag_def)
  then show ?thesis by simp
next
  case True
  with assms have y: "0 < y" by simp
  show ?thesis
  proof (cases "last_place x = last_place y")
    case same: True
    have "x / 2 powi last_place y \<le> y / 2 powi last_place y"
      using assms by (intro divide_right_mono) simp_all
    from round_even_mono [OF this] show ?thesis
      using True y by (simp add: round_mag_def Let_def same mult_right_mono)
  next
    case False
    with last_place_mono [OF True assms] have less: "last_place x < last_place y" by simp
    then have "- 1074 < last_place y" by (simp add: last_place_def)
    have "round_mag x \<le> 2 powi (last_place x + 53)" by (rule round_mag_upper [OF True])
    also have "\<dots> \<le> 2 powi (last_place y + 52)" using less by simp
    also have "\<dots> \<le> round_mag y" by (rule round_mag_lower) fact+
    finally show ?thesis .
  qed
qed

lemma round_mag_exact:
  assumes "0 \<le> m" and "m \<le> 2 ^ 53" and "- 1074 \<le> e"
  shows "round_mag (of_int m * 2 powi e) = of_int m * 2 powi e"
proof (cases "m = 0")
  case False
  let ?x = "of_int m * 2 powi e :: rat"
  from False assms have pos: "0 < ?x" by simp
  have "\<exists>n. ?x / 2 powi last_place ?x = of_int n"
  proof (cases "m = 2 ^ 53")
    case True
    then have x: "?x = 2 powi (e + 53)" by (simp add: power_int_add mult.commute)
    then have "ilog2 ?x = e + 53"
      using ilog2_le_iff [OF pos, of "e + 53"] ilog2_less_iff [OF pos, of "e + 54"] by simp
    then have "last_place ?x = e + 1" using assms(3) by (simp add: last_place_def)
    then have "?x / 2 powi last_place ?x = 2 powi 52" by (simp add: x power_int_diff [symmetric])
    then show ?thesis by (metis of_int_numeral of_int_power power_int_numeral)
  next
    case False
    with assms have "(of_int m :: rat) < of_int (2 ^ 53)" by (simp only: of_int_less_iff)
    then have "?x < 2 powi (e + 53)" by (simp add: power_int_add mult.commute)
    then have "last_place ?x \<le> e"
      using ilog2_less_iff [OF pos, of "e + 53"] assms(3) by (simp add: last_place_def)
    then have "?x / 2 powi last_place ?x = of_int (m * 2 ^ nat (e - last_place ?x))"
      by (simp add: power_int_diff [symmetric] power_int_nonneg_exp [symmetric] flip: times_divide_eq_right)
    then show ?thesis ..
  qed
  then obtain n where n: "?x / 2 powi last_place ?x = of_int n" ..
  have "round_mag ?x = of_int n * 2 powi last_place ?x"
    using pos by (simp only: round_mag_def Let_def n round_even_of_int not_le [symmetric] if_False)
  also have "\<dots> = ?x" by (simp flip: n)
  finally show ?thesis .
qed simp

lemma round_mag_nearest:
  assumes "0 \<le> x"
  shows "\<bar>round_mag x - x\<bar> \<le> 2 powi last_place x / 2"
proof (cases "x = 0")
  case False
  let ?u = "2 powi last_place x :: rat"
  have eq: "of_int (round_even (x / ?u)) * ?u - x = (of_int (round_even (x / ?u)) - x / ?u) * ?u"
    by (simp add: left_diff_distrib)
  have "\<bar>of_int (round_even (x / ?u)) * ?u - x\<bar> = \<bar>of_int (round_even (x / ?u)) - x / ?u\<bar> * ?u"
    unfolding eq abs_mult by simp
  also have "\<dots> \<le> 1 / 2 * ?u"
    by (intro mult_right_mono round_even_nearest) simp
  finally show ?thesis using False assms by (simp add: round_mag_def Let_def)
qed simp

lemma round_mag_idem [simp]: "round_mag (round_mag x) = round_mag x"
proof (cases "0 < x")
  case True
  let ?u = "2 powi last_place x :: rat"
  let ?k = "round_even (x / ?u)"
  have x: "round_mag x = of_int ?k * ?u" using True by (simp add: round_mag_def Let_def)
  have "of_int ?k * ?u \<le> 2 ^ 53 * ?u"
    using round_mag_upper [OF True] by (simp add: x power_int_add mult.commute)
  then have "(of_int ?k :: rat) \<le> of_int (2 ^ 53)" by simp
  then have "?k \<le> 2 ^ 53" by (simp only: of_int_le_iff)
  moreover have "0 \<le> ?k" using True by (intro round_even_ge) simp
  ultimately show ?thesis
    unfolding x by (intro round_mag_exact) (simp_all add: last_place_def)
qed (simp add: round_mag_def)

section \<open>Rounding with a sign\<close>

definition rnd :: "rat \<Rightarrow> rat" where
  "rnd r = (if r < 0 then - round_mag (- r) else round_mag r)"

definition exact :: "rat \<Rightarrow> bool" where
  "exact r \<longleftrightarrow> rnd r = r"

lemma rnd_mono: "x \<le> y \<Longrightarrow> rnd x \<le> rnd y"
  using round_mag_mono [of x y] round_mag_mono [of "- y" "- x"] round_mag_nonneg [of y] round_mag_nonneg [of "- x"]
  by (auto simp: rnd_def intro: order_trans [of _ 0])

lemma rnd_minus [simp]: "rnd (- x) = - rnd x"
  by (auto simp: rnd_def round_mag_def)

lemma rnd_idem [simp]: "exact (rnd x)"
  by (auto simp: exact_def rnd_def neg_less_iff_less not_less dest: order_antisym)

lemma exact_minus [simp]: "exact (- x) \<longleftrightarrow> exact x"
  by (auto simp: exact_def)

lemma rnd_le: "x \<le> y \<Longrightarrow> exact y \<Longrightarrow> rnd x \<le> y"
  using rnd_mono [of x y] by (simp add: exact_def)

lemma rnd_ge: "x \<le> y \<Longrightarrow> exact x \<Longrightarrow> x \<le> rnd y"
  using rnd_mono [of x y] by (simp add: exact_def)

lemma exact_round_mag: "0 \<le> m \<Longrightarrow> exact m \<longleftrightarrow> round_mag m = m"
  by (simp add: exact_def rnd_def)

lemma exactI:
  assumes "\<bar>m\<bar> \<le> 2 ^ 53" and "- 1074 \<le> e" and r: "r = of_int m * 2 powi e"
  shows "exact r"
proof -
  have "exact (of_int \<bar>m\<bar> * 2 powi e)"
    using round_mag_exact [of "\<bar>m\<bar>" e] assms by (simp add: exact_round_mag)
  then show ?thesis
    unfolding r using exact_minus [of "of_int m * 2 powi e"] by (auto simp: abs_if split: if_splits)
qed

lemma exact_of_int: "\<bar>m\<bar> \<le> 2 ^ 53 \<Longrightarrow> exact (of_int m)"
  by (rule exactI [of m 0]) simp_all

lemma exact_of_nat: "n \<le> 2 ^ 53 \<Longrightarrow> exact (of_nat n)"
  using exact_of_int [of "int n"] by simp

lemma exact_numeral [simp]:
  "exact 0" "exact 1" "(numeral k :: int) \<le> 2 ^ 53 \<Longrightarrow> exact (numeral k)"
  using exact_of_int [of 0] exact_of_int [of 1] exact_of_int [of "numeral k"] by simp_all

text \<open>The error of rounding, and the rounding of a number near a given exponent.\<close>

lemma last_place_eqI: "2 powi (e + 52) \<le> x \<Longrightarrow> x < 2 powi (e + 53) \<Longrightarrow> - 1074 \<le> e \<Longrightarrow> last_place x = e"
proof -
  assume a: "2 powi (e + 52) \<le> x" "x < 2 powi (e + 53)" "- 1074 \<le> e"
  have "0 < x" using a(1) by (rule less_le_trans [rotated]) simp
  then have "ilog2 x = e + 52"
    using a ilog2_le_iff [of x "e + 52"] ilog2_less_iff [of x "e + 53"] by simp
  with a(3) show ?thesis by (simp add: last_place_def)
qed

lemma last_place_le: "0 < x \<Longrightarrow> x < 2 powi (e + 53) \<Longrightarrow> - 1074 \<le> e \<Longrightarrow> last_place x \<le> e"
  using ilog2_less_iff [of x "e + 53"] by (simp add: last_place_def)

lemma round_mag_eqI:
  assumes "last_place x = e" "0 < x" "of_int n - 1 / 2 < x / 2 powi e" "x / 2 powi e < of_int n + 1 / 2"
  shows "round_mag x = of_int n * 2 powi e"
proof -
  have "round_even (x / 2 powi e) = n"
  proof (cases "of_int n \<le> x / 2 powi e")
    case True
    with assms have fl: "\<lfloor>x / 2 powi e\<rfloor> = n" by (intro floor_unique) linarith+
    have "x / 2 powi e - of_int n < 1 / 2" using assms(4) by linarith
    then show ?thesis unfolding round_even_def Let_def fl by (rule if_P [OF disjI1])
  next
    case False
    with assms have fl: "\<lfloor>x / 2 powi e\<rfloor> = n - 1" by (intro floor_unique) simp_all
    have "1 / 2 < x / 2 powi e - of_int (n - 1)" using assms(3) unfolding of_int_diff of_int_1 by linarith
    then have "\<not> (x / 2 powi e - of_int (n - 1) < 1 / 2 \<or> x / 2 powi e - of_int (n - 1) = 1 / 2 \<and> even (n - 1))"
      by linarith
    then show ?thesis unfolding round_even_def Let_def fl by simp
  qed
  with assms show ?thesis by (simp add: round_mag_def Let_def)
qed

lemma round_mag_pos:
  assumes "2 powi (- 1075) < x"
  shows "0 < round_mag x"
proof -
  define e :: int where "e = - 1074"
  have half: "2 powi (- 1075) = (1 / 2 :: rat) * 2 powi e"
    using power_int_add [of "2 :: rat" "- 1" e] by (simp add: e_def power_int_minus)
  have pos: "0 < x" using assms by (rule less_trans [rotated]) simp
  show ?thesis
  proof (cases "2 powi e \<le> x")
    case True
    have "round_mag (of_int 1 * 2 powi e) \<le> round_mag x" using True by (intro round_mag_mono) simp
    then have "2 powi e \<le> round_mag x" by (subst (asm) round_mag_exact) (simp_all add: e_def)
    then show ?thesis by (rule less_le_trans [rotated]) simp
  next
    case False
    then have "x < 2 powi (e + 53)"
      by (rule order.strict_trans2 [OF not_le_imp_less]) simp
    then have e: "last_place x = e"
      using last_place_le [OF pos, of e] by (simp add: last_place_def e_def)
    have "round_mag x = of_int 1 * 2 powi e"
    proof (rule round_mag_eqI [OF e pos])
      show "of_int 1 - 1 / 2 < x / 2 powi e"
        using assms unfolding half by (simp add: less_divide_eq)
      have "x / 2 powi e < 1" using False by (simp add: divide_less_eq)
      then show "x / 2 powi e < of_int 1 + 1 / 2" by (rule less_trans) simp
    qed
    then show ?thesis by simp
  qed
qed

lemma rnd_error:
  assumes "\<bar>x\<bar> < 2 powi (e + 53)" and "- 1074 \<le> e"
  shows "\<bar>rnd x - x\<bar> \<le> 2 powi e / 2"
proof (cases "x = 0")
  case False
  have "\<bar>rnd x - x\<bar> = \<bar>round_mag \<bar>x\<bar> - \<bar>x\<bar>\<bar>" by (auto simp: rnd_def abs_if)
  also have "\<dots> \<le> 2 powi last_place \<bar>x\<bar> / 2" by (rule round_mag_nearest) simp
  also have "\<dots> \<le> 2 powi e / 2" using False assms last_place_le [of "\<bar>x\<bar>" e] by simp
  finally show ?thesis .
qed (simp add: rnd_def)

lemma exact_pos_lower:
  assumes "0 < x" and "exact x"
  shows "2 powi (- 1074) \<le> x"
proof (rule ccontr)
  assume less: "\<not> 2 powi (- 1074) \<le> x"
  let ?k = "round_even (x / 2 powi last_place x)"
  have x: "x = of_int ?k * 2 powi last_place x"
    using assms exact_round_mag [of x] by (simp add: round_mag_def Let_def)
  have "0 < ?k"
  proof (rule ccontr)
    assume "\<not> 0 < ?k"
    then have "of_int ?k * 2 powi last_place x \<le> (0 :: rat)" by (simp add: mult_le_0_iff)
    with assms(1) x show False by linarith
  qed
  then have "(1 :: rat) \<le> of_int ?k" by simp
  then have "1 * 2 powi last_place x \<le> of_int ?k * (2 powi last_place x :: rat)"
    by (intro mult_right_mono) simp_all
  moreover have "(2 :: rat) powi (- 1074) \<le> 2 powi last_place x"
    by (subst powi2_le_iff) (simp add: last_place_def)
  ultimately show False using less x by linarith
qed

section \<open>The numbers\<close>

datatype F64 = NaN | Infinity bool | Finite bool rat

primrec f64_val :: "F64 \<Rightarrow> rat" where
  "f64_val NaN = 0"
| "f64_val (Infinity s) = 0"
| "f64_val (Finite s m) = (if s then - m else m)"

primrec is_finite :: "F64 \<Rightarrow> bool" where
  "is_finite NaN = False"
| "is_finite (Infinity s) = False"
| "is_finite (Finite s m) = True"

primrec wf_f64 :: "F64 \<Rightarrow> bool" where
  "wf_f64 NaN = True"
| "wf_f64 (Infinity s) = True"
| "wf_f64 (Finite s m) = (0 \<le> m \<and> m < 2 ^ 1024 \<and> exact m)"

text \<open>The number nearest to an exact result; \<open>z\<close> is the sign of an exact zero.\<close>

definition f64_of_rat :: "bool \<Rightarrow> rat \<Rightarrow> F64" where
  "f64_of_rat z r =
     (let m = round_mag \<bar>r\<bar>; s = (if r = 0 then z else r < 0) in
      if 2 ^ 1024 \<le> m then Infinity s else Finite s m)"

abbreviation f64_lit :: "rat \<Rightarrow> F64" where
  "f64_lit r \<equiv> f64_of_rat False r"

text \<open>\<open>n as f64\<close> for an unsigned integer, and \<open>x as u32\<close>, \<open>x as usize\<close>, which saturate.\<close>

definition f64_of_nat :: "nat \<Rightarrow> F64" where
  "f64_of_nat n = f64_of_rat False (of_nat n)"

primrec f64_to_uint :: "F64 \<Rightarrow> 'a::len word" where
  "f64_to_uint NaN = 0"
| "f64_to_uint (Infinity s) = (if s then 0 else - 1)"
| "f64_to_uint (Finite s m) = (if s then 0 else if 2 ^ LENGTH('a) \<le> m then - 1 else word_of_int \<lfloor>m\<rfloor>)"

section \<open>The operations\<close>

fun f64_add :: "F64 \<Rightarrow> F64 \<Rightarrow> F64" where
  "f64_add NaN b = NaN"
| "f64_add a NaN = NaN"
| "f64_add (Infinity s) (Infinity t) = (if s = t then Infinity s else NaN)"
| "f64_add (Infinity s) (Finite t b) = Infinity s"
| "f64_add (Finite s a) (Infinity t) = Infinity t"
| "f64_add (Finite s a) (Finite t b) = f64_of_rat (s \<and> t) (f64_val (Finite s a) + f64_val (Finite t b))"

primrec f64_neg :: "F64 \<Rightarrow> F64" where
  "f64_neg NaN = NaN"
| "f64_neg (Infinity s) = Infinity (\<not> s)"
| "f64_neg (Finite s m) = Finite (\<not> s) m"

definition f64_sub :: "F64 \<Rightarrow> F64 \<Rightarrow> F64" where
  "f64_sub a b = f64_add a (f64_neg b)"

fun f64_mul :: "F64 \<Rightarrow> F64 \<Rightarrow> F64" where
  "f64_mul NaN b = NaN"
| "f64_mul a NaN = NaN"
| "f64_mul (Infinity s) (Infinity t) = Infinity (s \<noteq> t)"
| "f64_mul (Infinity s) (Finite t b) = (if b = 0 then NaN else Infinity (s \<noteq> t))"
| "f64_mul (Finite s a) (Infinity t) = (if a = 0 then NaN else Infinity (s \<noteq> t))"
| "f64_mul (Finite s a) (Finite t b) = f64_of_rat (s \<noteq> t) (f64_val (Finite s a) * f64_val (Finite t b))"

fun f64_div :: "F64 \<Rightarrow> F64 \<Rightarrow> F64" where
  "f64_div NaN b = NaN"
| "f64_div a NaN = NaN"
| "f64_div (Infinity s) (Infinity t) = NaN"
| "f64_div (Infinity s) (Finite t b) = Infinity (s \<noteq> t)"
| "f64_div (Finite s a) (Infinity t) = Finite (s \<noteq> t) 0"
| "f64_div (Finite s a) (Finite t b) =
     (if b = 0 then (if a = 0 then NaN else Infinity (s \<noteq> t))
      else f64_of_rat (s \<noteq> t) (f64_val (Finite s a) / f64_val (Finite t b)))"

fun f64_less :: "F64 \<Rightarrow> F64 \<Rightarrow> bool" where
  "f64_less (Infinity s) (Infinity t) = (s \<and> \<not> t)"
| "f64_less (Infinity s) (Finite t b) = s"
| "f64_less (Finite s a) (Infinity t) = (\<not> t)"
| "f64_less (Finite s a) (Finite t b) = (f64_val (Finite s a) < f64_val (Finite t b))"
| "f64_less _ _ = False"

text \<open>\<open>f64::max\<close> and \<open>f64::min\<close> ignore a NaN.\<close>

definition f64_max :: "F64 \<Rightarrow> F64 \<Rightarrow> F64" where
  "f64_max a b = (if a = NaN then b else if b = NaN then a else if f64_less a b then b else a)"

definition f64_min :: "F64 \<Rightarrow> F64 \<Rightarrow> F64" where
  "f64_min a b = (if a = NaN then b else if b = NaN then a else if f64_less b a then b else a)"

text \<open>\<open>f64::round\<close>: the nearest integer, ties away from zero.\<close>

primrec f64_round :: "F64 \<Rightarrow> F64" where
  "f64_round NaN = NaN"
| "f64_round (Infinity s) = Infinity s"
| "f64_round (Finite s m) = Finite s (of_int \<lfloor>m + 1 / 2\<rfloor>)"

section \<open>What the operations compute\<close>

lemma f64_of_rat_eq:
  assumes "\<bar>rnd r\<bar> < 2 ^ 1024"
  shows "is_finite (f64_of_rat z r) \<and> f64_val (f64_of_rat z r) = rnd r"
  using assms by (auto simp: f64_of_rat_def rnd_def Let_def split: if_splits)

text \<open>Results up to \<open>2 ^ 1000\<close> do not overflow.\<close>

definition moderate :: "rat \<Rightarrow> bool" where
  "moderate r \<longleftrightarrow> \<bar>r\<bar> \<le> 2 ^ 1000"

lemma exact_powi: "- 1074 \<le> e \<Longrightarrow> exact (2 powi e)"
  by (rule exactI [of 1 e]) simp_all

lemma rnd_moderate: "moderate r \<Longrightarrow> moderate (rnd r)"
  using rnd_le [of r "2 powi 1000"] rnd_ge [of "- (2 powi 1000)" r] exact_powi [of 1000]
  by (simp add: moderate_def abs_le_iff)

lemma moderateI: "- B \<le> r \<Longrightarrow> r \<le> B \<Longrightarrow> B \<le> 2 ^ 1000 \<Longrightarrow> moderate r"
  by (simp add: moderate_def abs_le_iff)

lemma small_moderate: "\<bar>r\<bar> \<le> 2 ^ 70 \<Longrightarrow> moderate r"
  unfolding moderate_def by (erule order_trans) (intro power_increasing; simp)

lemma f64_of_rat_val:
  assumes "moderate r"
  shows "is_finite (f64_of_rat z r)" "f64_val (f64_of_rat z r) = rnd r"
proof -
  have "(2 :: rat) ^ 1000 < 2 ^ 1024" by (simp add: power_strict_increasing_iff)
  with rnd_moderate [OF assms] have "\<bar>rnd r\<bar> < 2 ^ 1024"
    unfolding moderate_def by (rule le_less_trans)
  from f64_of_rat_eq [OF this] show "is_finite (f64_of_rat z r)" "f64_val (f64_of_rat z r) = rnd r"
    by simp_all
qed

lemma finite_cases: "is_finite a \<Longrightarrow> \<exists>s m. a = Finite s m"
  by (cases a) simp_all

lemma f64_add_val:
  assumes "is_finite a" "is_finite b" "moderate (f64_val a + f64_val b)"
  shows "is_finite (f64_add a b)" "f64_val (f64_add a b) = rnd (f64_val a + f64_val b)"
  using assms f64_of_rat_val by (cases a; cases b; force)+

lemma f64_neg_val [simp]: "is_finite (f64_neg a) = is_finite a" "f64_val (f64_neg a) = - f64_val a"
  by (cases a; simp)+

lemma f64_sub_val:
  assumes "is_finite a" "is_finite b" "moderate (f64_val a - f64_val b)"
  shows "is_finite (f64_sub a b)" "f64_val (f64_sub a b) = rnd (f64_val a - f64_val b)"
  using f64_add_val [of a "f64_neg b"] assms by (simp_all add: f64_sub_def)

lemma f64_mul_val:
  assumes "is_finite a" "is_finite b" "moderate (f64_val a * f64_val b)"
  shows "is_finite (f64_mul a b)" "f64_val (f64_mul a b) = rnd (f64_val a * f64_val b)"
  using assms f64_of_rat_val by (cases a; cases b; force)+

lemma f64_div_val:
  assumes "is_finite a" "is_finite b" "f64_val b \<noteq> 0" "moderate (f64_val a / f64_val b)"
  shows "is_finite (f64_div a b)" "f64_val (f64_div a b) = rnd (f64_val a / f64_val b)"
proof -
  obtain s x t y where ab: "a = Finite s x" "b = Finite t y" using assms finite_cases by metis
  from assms(3) have "y \<noteq> 0" by (cases t) (simp_all add: ab)
  then have "f64_div a b = f64_of_rat (s \<noteq> t) (f64_val a / f64_val b)" by (simp add: ab)
  with f64_of_rat_val [OF assms(4)]
  show "is_finite (f64_div a b)" "f64_val (f64_div a b) = rnd (f64_val a / f64_val b)" by simp_all
qed

lemma f64_of_nat_val:
  assumes "n \<le> 2 ^ 64"
  shows "is_finite (f64_of_nat n)" "f64_val (f64_of_nat n) = rnd (of_nat n)"
proof -
  have "(of_nat n :: rat) \<le> of_nat (2 ^ 64)" using assms by (simp only: of_nat_le_iff)
  then have "moderate (of_nat n)" by (simp add: moderate_def)
  from f64_of_rat_val [OF this]
  show "is_finite (f64_of_nat n)" "f64_val (f64_of_nat n) = rnd (of_nat n)"
    by (simp_all add: f64_of_nat_def)
qed

lemma f64_of_nat_exact:
  assumes "n \<le> 2 ^ 53"
  shows "is_finite (f64_of_nat n)" "f64_val (f64_of_nat n) = of_nat n"
  using f64_of_nat_val [of n] exact_of_nat [OF assms] assms by (simp_all add: exact_def)

lemma f64_less_val: "is_finite a \<Longrightarrow> is_finite b \<Longrightarrow> f64_less a b \<longleftrightarrow> f64_val a < f64_val b"
  by (cases a; cases b) simp_all

lemma f64_max_val:
  assumes "is_finite a" "is_finite b"
  shows "is_finite (f64_max a b)" "f64_val (f64_max a b) = max (f64_val a) (f64_val b)"
  using assms f64_less_val [of a b] by (auto simp: f64_max_def)

lemma f64_lit_exact:
  assumes "exact r" "moderate r"
  shows "is_finite (f64_lit r)" "f64_val (f64_lit r) = r"
  using f64_of_rat_val [OF assms(2), of False] assms(1) by (simp_all add: exact_def)

section \<open>Well-formed numbers\<close>

lemma wf_f64_of_rat [simp]: "wf_f64 (f64_of_rat z r)"
  by (simp add: f64_of_rat_def Let_def exact_round_mag not_le)

lemma exact_val: "wf_f64 a \<Longrightarrow> exact (f64_val a)"
  by (cases a) simp_all

lemma wf_f64_of_nat [simp]: "wf_f64 (f64_of_nat n)"
  by (simp add: f64_of_nat_def)

lemma wf_f64_add [simp]: "wf_f64 a \<Longrightarrow> wf_f64 b \<Longrightarrow> wf_f64 (f64_add a b)"
  by (cases "(a, b)" rule: f64_add.cases) simp_all

lemma wf_f64_neg [simp]: "wf_f64 a \<Longrightarrow> wf_f64 (f64_neg a)"
  by (cases a) simp_all

lemma wf_f64_sub [simp]: "wf_f64 a \<Longrightarrow> wf_f64 b \<Longrightarrow> wf_f64 (f64_sub a b)"
  by (simp add: f64_sub_def)

lemma wf_f64_mul [simp]: "wf_f64 a \<Longrightarrow> wf_f64 b \<Longrightarrow> wf_f64 (f64_mul a b)"
  by (cases "(a, b)" rule: f64_mul.cases) (simp_all split: if_splits)

lemma wf_f64_div [simp]: "wf_f64 a \<Longrightarrow> wf_f64 b \<Longrightarrow> wf_f64 (f64_div a b)"
  by (cases "(a, b)" rule: f64_div.cases) (simp_all split: if_splits)

lemma wf_f64_div_finite: "is_finite a \<Longrightarrow> is_finite b \<Longrightarrow> f64_val b \<noteq> 0 \<Longrightarrow> wf_f64 (f64_div a b)"
  by (cases a; cases b) auto

lemma wf_f64_max [simp]: "wf_f64 a \<Longrightarrow> wf_f64 b \<Longrightarrow> wf_f64 (f64_max a b)"
  by (simp add: f64_max_def)

lemma wf_f64_min [simp]: "wf_f64 a \<Longrightarrow> wf_f64 b \<Longrightarrow> wf_f64 (f64_min a b)"
  by (simp add: f64_min_def)

end
