(* ===== verification/Float64_Bits.thy ===== *)
theory Float64_Bits
  imports Float64
begin

text \<open>
  The 64-bit pattern of an \<open>f64\<close> (\<open>to_bits\<close>, \<open>from_bits\<close>), which is what a message carries, the
  square root, and the conversions to unsigned integers.
\<close>

section \<open>Bit patterns\<close>

text \<open>
  Sign, 11 bits of exponent, 52 bits of fraction. A normal number has a leading place that
  the pattern leaves out; added to the exponent field it counts it up by one. Which NaN an
  operation yields is not specified, and the pattern of the quiet one is taken.
\<close>

definition f64_pattern :: "bool \<Rightarrow> int \<Rightarrow> int \<Rightarrow> u64" where
  "f64_pattern s ex mant = word_of_int ((if s then 2 ^ 63 else 0) + ex * 2 ^ 52 + mant)"

primrec f64_to_bits :: "F64 \<Rightarrow> u64" where
  "f64_to_bits NaN = f64_pattern False 2047 (2 ^ 51)"
| "f64_to_bits (Infinity s) = f64_pattern s 2047 0"
| "f64_to_bits (Finite s m) =
     (if m = 0 then f64_pattern s 0 0
      else let e = last_place m; k = \<lfloor>m / 2 powi e\<rfloor> in
        if k < 2 ^ 52 then f64_pattern s 0 k else f64_pattern s (e + 1075) (k - 2 ^ 52))"

definition f64_from_bits :: "u64 \<Rightarrow> F64" where
  "f64_from_bits b =
     (let n = uint b; s = 2 ^ 63 \<le> n; ex = n div 2 ^ 52 mod 2 ^ 11; mant = n mod 2 ^ 52 in
      if ex = 2047 then (if mant = 0 then Infinity s else NaN)
      else if ex = 0 then Finite s (of_int mant * 2 powi (- 1074))
      else Finite s (of_int (2 ^ 52 + mant) * 2 powi (ex - 1075)))"

lemma uint_word_of_int_u64: "0 \<le> n \<Longrightarrow> n < 2 ^ 64 \<Longrightarrow> uint (word_of_int n :: u64) = n"
  by (simp add: uint_word_of_int take_bit_int_eq_self)

lemma f64_pattern_fields:
  assumes "0 \<le> ex" "ex < 2 ^ 11" "0 \<le> mant" "mant < 2 ^ 52"
  shows "2 ^ 63 \<le> uint (f64_pattern s ex mant) \<longleftrightarrow> s"
    "uint (f64_pattern s ex mant) div 2 ^ 52 mod 2 ^ 11 = ex"
    "uint (f64_pattern s ex mant) mod 2 ^ 52 = mant"
proof -
  let ?n = "(if s then 2 ^ 63 else 0) + ex * 2 ^ 52 + mant"
  have "ex * 2 ^ 52 + mant < 2 ^ 63"
    using assms by simp
  moreover have nonneg: "0 \<le> ex * 2 ^ 52 + mant"
    using assms by (intro add_nonneg_nonneg) simp_all
  ultimately have less: "ex * 2 ^ 52 + mant < 2 ^ 63" by blast
  then have "?n < 2 ^ 64" by simp
  moreover from nonneg have "0 \<le> ?n" by simp
  ultimately have u: "uint (f64_pattern s ex mant) = ?n"
    unfolding f64_pattern_def by (intro uint_word_of_int_u64)
  show "2 ^ 63 \<le> uint (f64_pattern s ex mant) \<longleftrightarrow> s"
    using less nonneg by (simp add: u)
  have n: "?n = mant + 2 ^ 52 * (ex + (if s then 2 ^ 11 else 0))" by simp
  have "?n div 2 ^ 52 = ex + (if s then 2 ^ 11 else 0)"
    unfolding n using assms by (subst div_mult_self2) (simp_all add: div_pos_pos_trivial)
  with assms show "uint (f64_pattern s ex mant) div 2 ^ 52 mod 2 ^ 11 = ex"
    by (simp add: u mod_pos_pos_trivial)
  show "uint (f64_pattern s ex mant) mod 2 ^ 52 = mant"
    unfolding u n mod_mult_self2 using assms by (intro mod_pos_pos_trivial) simp_all
qed

lemma places_of_mag:
  assumes "0 < m" and "exact m"
  obtains k where "m = of_int k * 2 powi last_place m" "0 < k" "k < 2 ^ 53" "\<lfloor>m / 2 powi last_place m\<rfloor> = k"
    "k < 2 ^ 52 \<Longrightarrow> last_place m = - 1074"
proof -
  let ?u = "2 powi last_place m :: rat" and ?k = "round_even (m / 2 powi last_place m)"
  have m: "m = of_int ?k * ?u"
    using assms exact_round_mag [of m] by (simp add: round_mag_def Let_def)
  then have q: "m / ?u = of_int ?k" by (metis nonzero_mult_div_cancel_right power_int_eq_0_iff zero_neq_numeral)
  have "(0 :: rat) < of_int ?k" using assms by (simp flip: q)
  moreover have "of_int ?k < (of_int (2 ^ 53) :: rat)"
    using last_place_upper [OF assms(1)] by (simp add: power_int_add divide_less_eq mult.commute flip: q)
  moreover have "last_place m = - 1074" if "?k < 2 ^ 52"
  proof (rule ccontr)
    assume "last_place m \<noteq> - 1074"
    then have "- 1074 < last_place m" by (simp add: last_place_def)
    from round_mag_lower [OF assms(1) this] have "2 ^ 52 * ?u \<le> m"
      using assms exact_round_mag [of m] by (simp add: power_int_add mult.commute)
    then have "(of_int (2 ^ 52) :: rat) \<le> of_int ?k"
      by (simp add: le_divide_eq flip: q)
    with that show False by (simp only: of_int_le_iff)
  qed
  moreover have "\<lfloor>m / ?u\<rfloor> = ?k" using q by (metis floor_of_int)
  ultimately show thesis using that [of ?k] m by (simp only: of_int_less_iff of_int_0_less_iff)
qed

lemma f64_from_pattern:
  assumes "0 \<le> ex" "ex < 2 ^ 11" "0 \<le> mant" "mant < 2 ^ 52"
  shows "f64_from_bits (f64_pattern s ex mant) =
    (if ex = 2047 then (if mant = 0 then Infinity s else NaN)
     else if ex = 0 then Finite s (of_int mant * 2 powi (- 1074))
     else Finite s (of_int (2 ^ 52 + mant) * 2 powi (ex - 1075)))"
  by (simp only: f64_from_bits_def Let_def f64_pattern_fields [OF assms])

text \<open>The pattern of a number gives the number back.\<close>

lemma f64_from_to_bits:
  assumes "wf_f64 x"
  shows "f64_from_bits (f64_to_bits x) = x"
proof (cases x)
  case NaN
  then show ?thesis by (simp add: f64_from_pattern)
next
  case (Infinity s)
  then show ?thesis by (simp add: f64_from_pattern)
next
  case (Finite s m)
  show ?thesis
  proof (cases "m = 0")
    case True
    then show ?thesis by (simp add: Finite f64_from_pattern)
  next
    case False
    with assms have m: "0 < m" "exact m" "m < 2 powi 1024" by (simp_all add: Finite)
    obtain k where k: "m = of_int k * 2 powi last_place m" "0 < k" "k < 2 ^ 53"
      "\<lfloor>m / 2 powi last_place m\<rfloor> = k" "k < 2 ^ 52 \<Longrightarrow> last_place m = - 1074"
      using places_of_mag [OF m(1,2)] by blast
    have "last_place m \<le> 971" "- 1074 \<le> last_place m"
      using ilog2_less_iff [OF m(1), of 1024] m(3) by (simp_all add: last_place_def)
    moreover have "f64_to_bits x =
        (if k < 2 ^ 52 then f64_pattern s 0 k else f64_pattern s (last_place m + 1075) (k - 2 ^ 52))"
      using False by (simp only: Finite f64_to_bits.simps Let_def k(4) if_False)
    ultimately show ?thesis
      using k by (cases "k < 2 ^ 52") (simp_all add: Finite f64_from_pattern)
  qed
qed

section \<open>Square root\<close>

text \<open>The integer square root, two bits at a time.\<close>

function isqrt :: "int \<Rightarrow> int" where
  "isqrt n = (if n \<le> 0 then 0 else let r = 2 * isqrt (n div 4) in if (r + 1) * (r + 1) \<le> n then r + 1 else r)"
  by pat_completeness auto
termination
  by (relation "measure nat") auto

declare isqrt.simps [simp del]

lemma isqrt_bounds: "0 \<le> n \<Longrightarrow> 0 \<le> isqrt n \<and> isqrt n * isqrt n \<le> n \<and> n < (isqrt n + 1) * (isqrt n + 1)"
proof (induction n rule: isqrt.induct)
  case (1 n)
  show ?case
  proof (cases "n = 0")
    case False
    define r where "r = isqrt (n div 4)"
    from 1 False have ih: "0 \<le> r" "r * r \<le> n div 4" "n div 4 < (r + 1) * (r + 1)" by (simp_all add: r_def)
    from ih(2) have "4 * (r * r) \<le> n" by linarith
    moreover from ih(3) have "n < 4 * ((r + 1) * (r + 1))" by linarith
    ultimately show ?thesis
      using False 1 ih(1)
      by (subst (1 2 3 4 5) isqrt.simps) (simp add: Let_def algebra_simps flip: r_def)
  qed (simp add: isqrt.simps)
qed

text \<open>
  \<open>f64::sqrt\<close>: the root in units of its last place, rounded to the nearest by comparing the
  number with the square of the midpoint.
\<close>

definition sqrt_mag :: "rat \<Rightarrow> rat" where
  "sqrt_mag x =
     (let u = 2 powi (ilog2 x div 2 - 52); n = isqrt \<lfloor>x / (u * u)\<rfloor>; h = (of_int n + 1 / 2) * u in
      if x < h * h \<or> x = h * h \<and> even n then of_int n * u else of_int (n + 1) * u)"

primrec f64_sqrt :: "F64 \<Rightarrow> F64" where
  "f64_sqrt NaN = NaN"
| "f64_sqrt (Infinity s) = (if s then NaN else Infinity False)"
| "f64_sqrt (Finite s m) = (if m = 0 then Finite s m else if s then NaN else Finite False (sqrt_mag m))"

text \<open>The root is within half a unit of its last place.\<close>

lemma sqrt_mag_nearest:
  assumes "0 < x"
  defines "u \<equiv> 2 powi (ilog2 x div 2 - 52)"
  shows "(sqrt_mag x - u / 2) ^ 2 \<le> x \<or> sqrt_mag x \<le> u / 2" "x \<le> (sqrt_mag x + u / 2) ^ 2"
proof -
  define k where "k = \<lfloor>x / (u * u)\<rfloor>"
  define n where "n = isqrt k"
  have u: "0 < u" by (simp add: u_def)
  have "0 \<le> k" using assms(1) u by (simp add: k_def)
  note n = isqrt_bounds [OF this, folded n_def]
  have "of_int (n * n) \<le> (of_int k :: rat)" "of_int (k + 1) \<le> (of_int ((n + 1) * (n + 1)) :: rat)"
    using n by (simp_all only: of_int_le_iff zless_imp_add1_zle)
  moreover have "of_int k \<le> x / (u * u)" "x / (u * u) < of_int (k + 1)"
    unfolding k_def using floor_correct by blast+
  ultimately have "of_int (n * n) \<le> x / (u * u)" "x / (u * u) \<le> of_int ((n + 1) * (n + 1))"
    by (blast intro: order_trans less_imp_le)+
  then have lo': "(of_int n * u) ^ 2 \<le> x" and hi': "x \<le> (of_int (n + 1) * u) ^ 2"
    using u by (simp_all add: le_divide_eq divide_le_eq power2_eq_square algebra_simps)
  let ?h = "(of_int n + 1 / 2) * u"
  have s: "sqrt_mag x = (if x < ?h * ?h \<or> x = ?h * ?h \<and> even n then of_int n * u else of_int (n + 1) * u)"
    by (simp add: sqrt_mag_def Let_def n_def k_def u_def)
  show "x \<le> (sqrt_mag x + u / 2) ^ 2"
  proof (cases "x < ?h * ?h \<or> x = ?h * ?h \<and> even n")
    case True
    then have "x \<le> ?h * ?h" by auto
    then show ?thesis unfolding s if_P [OF True] by (simp add: power2_eq_square algebra_simps)
  next
    case False
    have "(of_int (n + 1) * u) ^ 2 \<le> (of_int (n + 1) * u + u / 2) ^ 2"
      using u n by (intro power_mono) simp_all
    with hi' show ?thesis unfolding s if_not_P [OF False] by (rule order_trans)
  qed
  show "(sqrt_mag x - u / 2) ^ 2 \<le> x \<or> sqrt_mag x \<le> u / 2"
  proof (cases "x < ?h * ?h \<or> x = ?h * ?h \<and> even n")
    case True
    have "(of_int n * u - u / 2) ^ 2 \<le> (of_int n * u) ^ 2" if "\<not> of_int n * u \<le> u / 2"
      using that u by (intro power_mono) simp_all
    with lo' show ?thesis unfolding s if_P [OF True] by (meson order_trans)
  next
    case False
    then have "?h * ?h \<le> x" by auto
    then show ?thesis unfolding s if_not_P [OF False] by (simp add: power2_eq_square algebra_simps)
  qed
qed

section \<open>To unsigned integers\<close>

lemma f64_to_uint_val:
  assumes "is_finite x" "0 \<le> f64_val x" "wf_f64 x" "f64_val x < 2 ^ LENGTH('a)"
  shows "unat (f64_to_uint x :: 'a::len word) = nat \<lfloor>f64_val x\<rfloor>"
proof -
  obtain s m where x: "x = Finite s m" using finite_cases [OF assms(1)] by blast
  have m: "0 \<le> m" "f64_val x = m" using assms by (cases s; simp add: x)+
  with assms(4) have "nat \<lfloor>m\<rfloor> < 2 ^ LENGTH('a)"
    by (simp add: nat_less_iff floor_less_iff)
  moreover have "f64_to_uint x = (word_of_nat (nat \<lfloor>m\<rfloor>) :: 'a word)"
    using assms m by (cases s) (simp_all add: x)
  ultimately show ?thesis
    by (simp only: m(2) unat_of_nat mod_less)
qed

end
