(* ===== verification/Bench_Prelude.thy ===== *)
theory Bench_Prelude
  imports Float64_Bits
begin

text \<open>
  What the programs under \<open>bench/\<close> take from the standard library besides sockets and floats:
  arithmetic with the overflow checks of a debug build, \<open>str::parse\<close> for unsigned integers,
  and readings of the monotonic clock.
\<close>

section \<open>Checked arithmetic\<close>

text \<open>
  \<open>+\<close>, \<open>*\<close> and \<open>-\<close> on unsigned integers: a debug build (\<open>checks\<close>) panics where a release build
  wraps.
\<close>

definition add_u :: "bool \<Rightarrow> 'a::len word \<Rightarrow> 'a word \<Rightarrow> 'a word outcome" where
  "add_u checks a b = (if checks \<and> 2 ^ LENGTH('a) \<le> unat a + unat b then Panic else Ret (a + b))"

definition mul_u :: "bool \<Rightarrow> 'a::len word \<Rightarrow> 'a word \<Rightarrow> 'a word outcome" where
  "mul_u checks a b = (if checks \<and> 2 ^ LENGTH('a) \<le> unat a * unat b then Panic else Ret (a * b))"

definition saturating_sub :: "'a::len word \<Rightarrow> 'a word \<Rightarrow> 'a word" where
  "saturating_sub a b = (if a < b then 0 else a - b)"

lemma add_u_Ret: "unat a + unat b < 2 ^ LENGTH('a) \<Longrightarrow> add_u checks (a :: 'a::len word) b = Ret (a + b)"
  by (simp add: add_u_def)

lemma mul_u_Ret: "unat a * unat b < 2 ^ LENGTH('a) \<Longrightarrow> mul_u checks (a :: 'a::len word) b = Ret (a * b)"
  by (simp add: mul_u_def)

lemma add_u_release [simp]: "add_u False a b = Ret (a + b)"
  by (simp add: add_u_def)

lemma mul_u_release [simp]: "mul_u False a b = Ret (a * b)"
  by (simp add: mul_u_def)

lemma unat_saturating_sub: "unat (saturating_sub a b) = unat a - unat b"
  by (simp add: saturating_sub_def word_less_nat_alt unat_sub word_le_nat_alt)

section \<open>Parsing unsigned integers\<close>

text \<open>
  \<open>str::parse\<close>: an optional plus sign, then at least one digit, and a value that fits. The
  parser of the library checks for overflow digit by digit, which refuses the same strings.
\<close>

definition digit_val :: "char \<Rightarrow> nat option" where
  "digit_val c = (let k = of_char c in if 48 \<le> k \<and> k \<le> (57 :: nat) then Some (k - 48) else None)"

fun digits_val :: "nat \<Rightarrow> string \<Rightarrow> nat option" where
  "digits_val n [] = Some n"
| "digits_val n (c # cs) = (case digit_val c of None \<Rightarrow> None | Some d \<Rightarrow> digits_val (10 * n + d) cs)"

definition strip_plus :: "string \<Rightarrow> string" where
  "strip_plus s = (case s of [] \<Rightarrow> [] | c # cs \<Rightarrow> if c = CHR ''+'' then cs else s)"

definition parse_uint :: "string \<Rightarrow> 'a::len word option" where
  "parse_uint s =
     (let ds = strip_plus s in
      if ds = [] then None
      else case digits_val 0 ds of
        None \<Rightarrow> None
      | Some n \<Rightarrow> if n < 2 ^ LENGTH('a) then Some (word_of_nat n) else None)"

text \<open>The decimal digits of a number, as \<open>to_string\<close> writes them.\<close>

fun show_nat :: "nat \<Rightarrow> string" where
  "show_nat n = (if n < 10 then [char_of (48 + n)] else show_nat (n div 10) @ [char_of (48 + n mod 10)])"

declare show_nat.simps [simp del]

lemma digit_val_char_of [simp]: "d < 10 \<Longrightarrow> digit_val (char_of (48 + d)) = Some d"
  by (simp add: digit_val_def of_char_of Let_def)

lemma digits_val_append: "digits_val n (xs @ ys) = (case digits_val n xs of None \<Rightarrow> None | Some m \<Rightarrow> digits_val m ys)"
  by (induction n xs rule: digits_val.induct) (auto split: option.split)

lemma digits_val_show: "digits_val 0 (show_nat n) = Some n"
proof (induction n rule: show_nat.induct)
  case (1 n)
  then show ?case
    by (cases "n < 10") (simp_all add: show_nat.simps [of n] digits_val_append)
qed

lemma show_nat_not_Nil [simp]: "show_nat n \<noteq> []"
  by (simp add: show_nat.simps [of n])

lemma strip_plus_show [simp]: "strip_plus (show_nat n) = show_nat n"
proof -
  have "hd (show_nat n) \<noteq> CHR ''+''"
  proof
    assume "hd (show_nat n) = CHR ''+''"
    moreover have "digit_val CHR ''+'' = None" by (simp add: digit_val_def)
    ultimately have "digits_val 0 (show_nat n) = None" by (cases "show_nat n") simp_all
    then show False by (simp add: digits_val_show)
  qed
  then show ?thesis by (cases "show_nat n") (simp_all add: strip_plus_def)
qed

lemma parse_uint_show: "n < 2 ^ LENGTH('a) \<Longrightarrow> parse_uint (show_nat n) = Some (word_of_nat n :: 'a::len word)"
  by (simp add: parse_uint_def digits_val_show)

lemma parse_uint_show_unat [simp]: "parse_uint (show_nat (unat w)) = Some (w :: 'a::len word)"
  by (simp add: parse_uint_show)

lemma digits_val_Some_iff: "digits_val n cs \<noteq> None \<longleftrightarrow> (\<forall>c \<in> set cs. digit_val c \<noteq> None)"
  by (induction n cs rule: digits_val.induct) (auto split: option.split)

section \<open>The monotonic clock\<close>

text \<open>\<open>Instant::now()\<close> is a reading in nanoseconds; \<open>elapsed\<close> saturates at zero.\<close>

type_synonym Instant = nat

definition elapsed :: "Instant \<Rightarrow> Instant \<Rightarrow> nat" where
  "elapsed now start = now - start"

end
