(* ===== verification/Market_Rng.thy ===== *)
theory Market_Rng
  imports Bench_Prelude
begin

text \<open>
  The xorshift generator of the market data producer (\<open>Rng\<close> in \<open>bench/src/main.rs\<close>).
\<close>

record Rng =
  rng_s :: u64

definition rng_new :: "u64 \<Rightarrow> Rng" where
  "rng_new seed = \<lparr>rng_s = if seed = 0 then 0xdeadbeefcafef00d else seed\<rparr>"

definition rng_next :: "Rng \<Rightarrow> u64 \<times> Rng" where
  "rng_next r =
     (let s = rng_s r; s = s XOR push_bit 13 s; s = s XOR drop_bit 7 s; s = s XOR push_bit 17 s in (s, \<lparr>rng_s = s\<rparr>))"

definition rng_f64 :: "Rng \<Rightarrow> F64 \<times> Rng" where
  "rng_f64 r =
     (let (n, r) = rng_next r in
      (f64_div (f64_of_nat (unat (drop_bit 11 n))) (f64_of_nat (unat (push_bit 53 1 :: u64))), r))"

section \<open>The step is a permutation\<close>

lemma xorshift_left_inj:
  assumes "0 < k" and "x XOR push_bit k x = y XOR push_bit k y"
  shows "x = (y :: 'a::len word)"
proof (rule bit_word_eqI)
  fix n assume "n < LENGTH('a)"
  then show "bit x n \<longleftrightarrow> bit y n"
  proof (induction n rule: less_induct)
    case (less n)
    have "bit (x XOR push_bit k x) n \<longleftrightarrow> bit (y XOR push_bit k y) n" using assms(2) by simp
    then show ?case
      using less assms(1) less.IH [of "n - k"] by (auto simp: bit_simps)
  qed
qed

lemma xorshift_right_inj:
  assumes "0 < k" and "x XOR drop_bit k x = y XOR drop_bit k y"
  shows "x = (y :: 'a::len word)"
proof (rule bit_word_eqI)
  fix n assume "n < LENGTH('a)"
  then show "bit x n \<longleftrightarrow> bit y n"
  proof (induction "LENGTH('a) - n" arbitrary: n rule: less_induct)
    case less
    have "bit (x XOR drop_bit k x) n \<longleftrightarrow> bit (y XOR drop_bit k y) n" using assms(2) by simp
    moreover have "bit x (n + k) \<longleftrightarrow> bit y (n + k)"
      using less.hyps [of "n + k"] less.prems assms(1) bit_imp_le_length [of _ "n + k"]
      by (cases "n + k < LENGTH('a)") (auto dest: bit_imp_le_length)
    ultimately show ?case using less.prems by (auto simp: bit_simps add.commute)
  qed
qed

lemma rng_next_inj:
  assumes "snd (rng_next r) = snd (rng_next q)"
  shows "r = q"
proof -
  let ?a = "\<lambda>r. rng_s r XOR push_bit 13 (rng_s r)"
  let ?b = "\<lambda>r. ?a r XOR drop_bit 7 (?a r)"
  have "?b r XOR push_bit 17 (?b r) = ?b q XOR push_bit 17 (?b q)"
    using assms unfolding rng_next_def Let_def by (simp only: snd_conv Rng.ext_inject)
  from xorshift_left_inj [OF _ this] have "?b r = ?b q" by simp
  from xorshift_right_inj [OF _ this] have "?a r = ?a q" by simp
  from xorshift_left_inj [OF _ this] show ?thesis by simp
qed

lemma rng_next_state: "rng_next r = (n, r') \<Longrightarrow> rng_s r' = n"
  by (auto simp: rng_next_def Let_def)

lemma rng_next_0: "snd (rng_next \<lparr>rng_s = 0\<rparr>) = \<lparr>rng_s = 0\<rparr>"
  by (simp add: rng_next_def)

lemma rng_next_nonzero: "rng_s r \<noteq> 0 \<Longrightarrow> rng_s (snd (rng_next r)) \<noteq> 0"
  using rng_next_inj [of r "\<lparr>rng_s = 0\<rparr>"] rng_next_0 by (cases r; cases "snd (rng_next r)") auto

lemma rng_new_nonzero: "rng_s (rng_new seed) \<noteq> 0"
  by (simp add: rng_new_def)

section \<open>The floats it yields\<close>

lemma exact_53: "k \<le> 2 ^ 53 \<Longrightarrow> exact (of_nat k / 2 ^ 53)"
  by (rule exactI [of "int k" "- 53"]) (simp_all add: power_int_minus field_simps)

lemma moderate_53:
  assumes "k < 2 ^ 53"
  shows "moderate (of_nat k / 2 ^ 53)"
proof (rule moderateI [of 1])
  have "(of_nat k :: rat) \<le> of_nat (2 ^ 53)" using assms by (simp only: of_nat_le_iff less_imp_le)
  then show "of_nat k / 2 ^ 53 \<le> (1 :: rat)" by simp
  have "- 1 \<le> (0 :: rat)" by simp
  also have "0 \<le> (of_nat k / 2 ^ 53 :: rat)" by simp
  finally show "- 1 \<le> (of_nat k / 2 ^ 53 :: rat)" .
qed simp

lemma f64_div_53:
  assumes "k < 2 ^ 53"
  shows "is_finite (f64_div (f64_of_nat k) (f64_of_nat (2 ^ 53)))"
    "f64_val (f64_div (f64_of_nat k) (f64_of_nat (2 ^ 53))) = of_nat k / 2 ^ 53"
proof -
  have a: "is_finite (f64_of_nat k)" "f64_val (f64_of_nat k) = of_nat k"
    using f64_of_nat_exact [of k] assms by simp_all
  have b: "is_finite (f64_of_nat (2 ^ 53))" "f64_val (f64_of_nat (2 ^ 53)) = 2 ^ 53"
    using f64_of_nat_exact [of "2 ^ 53"] by simp_all
  have e: "rnd (of_nat k / 2 ^ 53) = of_nat k / 2 ^ 53"
    using exact_53 [of k] assms by (simp only: exact_def less_imp_le)
  have m: "moderate (f64_val (f64_of_nat k) / f64_val (f64_of_nat (2 ^ 53)))"
    unfolding a b by (rule moderate_53 [OF assms])
  have nz: "f64_val (f64_of_nat (2 ^ 53)) \<noteq> 0" unfolding b by simp
  from f64_div_val [OF a(1) b(1) nz m]
  show "is_finite (f64_div (f64_of_nat k) (f64_of_nat (2 ^ 53)))"
    "f64_val (f64_div (f64_of_nat k) (f64_of_nat (2 ^ 53))) = of_nat k / 2 ^ 53"
    unfolding a(2) b(2) e by simp_all
qed

lemma rng_f64_spec:
  obtains k r' where "rng_f64 r = (fst (rng_f64 r), r')" "r' = snd (rng_next r)"
    "k = unat (drop_bit 11 (rng_s r'))" "k < 2 ^ 53" "wf_f64 (fst (rng_f64 r))" "is_finite (fst (rng_f64 r))"
    "f64_val (fst (rng_f64 r)) = of_nat k / 2 ^ 53"
proof -
  obtain n r' where n: "rng_next r = (n, r')" by fastforce
  let ?k = "unat (drop_bit 11 n)"
  have k: "?k < 2 ^ 53"
    using unat_u64_bound [of n] unfolding unat_drop_bit_eq by (simp add: drop_bit_eq_div)
  have one: "unat (push_bit 53 1 :: u64) = 2 ^ 53" by (simp add: push_bit_eq_mult)
  have f: "rng_f64 r = (f64_div (f64_of_nat ?k) (f64_of_nat (2 ^ 53)), r')"
    unfolding rng_f64_def n Let_def prod.case one ..
  show thesis
  proof (rule that [of r' ?k])
    show "is_finite (fst (rng_f64 r))" "f64_val (fst (rng_f64 r)) = of_nat ?k / 2 ^ 53"
      unfolding f fst_conv using f64_div_53 [OF k] by blast+
    show "wf_f64 (fst (rng_f64 r))" unfolding f fst_conv by (intro wf_f64_div wf_f64_of_nat)
  qed (use k in \<open>simp_all add: f n rng_next_state [OF n]\<close>)
qed

lemma rng_f64_unit:
  "is_finite (fst (rng_f64 r))" "0 \<le> f64_val (fst (rng_f64 r))" "f64_val (fst (rng_f64 r)) < 1"
  "wf_f64 (fst (rng_f64 r))"
proof -
  obtain k where k: "k < 2 ^ 53" "is_finite (fst (rng_f64 r))" "f64_val (fst (rng_f64 r)) = of_nat k / 2 ^ 53"
    "wf_f64 (fst (rng_f64 r))"
    by (rule rng_f64_spec [of r])
  then have "(of_nat k :: rat) < of_nat (2 ^ 53)" by (simp only: of_nat_less_iff)
  with k show "is_finite (fst (rng_f64 r))" "0 \<le> f64_val (fst (rng_f64 r))" "f64_val (fst (rng_f64 r)) < 1"
    "wf_f64 (fst (rng_f64 r))"
    by (auto simp: divide_less_eq)
qed

text \<open>
  The generator. From any seed its state is never zero, where it would stay; the step is a permutation of the states, so the
  sequence comes back to its seed and repeats from there; and every float it yields is exactly
  a multiple of \<open>2 ^ -53\<close> in the half-open unit interval.
\<close>

lemma rng_sound:
  "rng_s (((\<lambda>r. snd (rng_next r)) ^^ n) (rng_new seed)) \<noteq> 0 \<and>
   bij (\<lambda>r. snd (rng_next r)) \<and>
   (\<exists>p>0. ((\<lambda>r. snd (rng_next r)) ^^ p) (rng_new seed) = rng_new seed) \<and>
   is_finite (fst (rng_f64 r)) \<and> 0 \<le> f64_val (fst (rng_f64 r)) \<and> f64_val (fst (rng_f64 r)) < 1 \<and>
   (\<exists>k. f64_val (fst (rng_f64 r)) = of_nat k / 2 ^ 53)"
proof (intro conjI)
  let ?f = "\<lambda>r. snd (rng_next r)"
  show "rng_s ((?f ^^ n) (rng_new seed)) \<noteq> 0"
    by (induction n) (simp_all add: rng_new_nonzero rng_next_nonzero)
  have inj: "inj ?f" by (rule injI) (rule rng_next_inj)
  have "finite (range (\<lambda>s. \<lparr>rng_s = s\<rparr>))" by simp
  moreover have "range (\<lambda>s. \<lparr>rng_s = s\<rparr>) = (UNIV :: Rng set)"
    by (metis (mono_tags) Rng.cases surjI)
  ultimately have fin: "finite (UNIV :: Rng set)" by simp
  show "bij ?f" using inj fin by (simp add: bij_def finite_UNIV_inj_surj)
  show "\<exists>p>0. (?f ^^ p) (rng_new seed) = rng_new seed"
    using funpow_inj_finite [OF inj, of "rng_new seed"] finite_subset [OF subset_UNIV fin] by blast
  show "is_finite (fst (rng_f64 r))" "0 \<le> f64_val (fst (rng_f64 r))" "f64_val (fst (rng_f64 r)) < 1"
    by (rule rng_f64_unit)+
  show "\<exists>k. f64_val (fst (rng_f64 r)) = of_nat k / 2 ^ 53"
    by (rule rng_f64_spec [of r]) blast
qed

end
