(* ===== verification/Codec.thy ===== *)
theory Codec
  imports Bus_Prelude
begin

text \<open>
  The \<open>Encode\<close> and \<open>Decode\<close> traits (\<open>protocol/src/codec.rs\<close>) and the contract their
  implementations share: a value of a codec takes exactly \<open>encoded_size\<close> bytes, decoding
  reads those bytes and ignores what follows, and a shorter buffer is \<open>None\<close>, never a
  panic. The wire header, \<open>PriceTick\<close> and \<open>Heartbeat\<close> interpret the contract.
\<close>

type_synonym 'a Encode = "'a \<Rightarrow> u8 list outcome"
type_synonym 'a Decode = "u8 list \<Rightarrow> 'a option outcome"

locale codec =
  fixes encode :: "'a Encode"
    and decode :: "'a Decode"
    and encoded_size :: nat
  assumes encode_total: "\<exists>bs. encode x = Ret bs \<and> length bs = encoded_size"
    and decode_encode: "encode x = Ret bs \<Longrightarrow> decode (bs @ rest) = Ret (Some x)"
    and decode_short: "length buf < encoded_size \<Longrightarrow> decode buf = Ret None"
    and decode_long: "encoded_size \<le> length buf \<Longrightarrow>
      \<exists>x. decode buf = Ret (Some x) \<and> encode x = Ret (take encoded_size buf)"
begin

lemma encode_length: "encode x = Ret bs \<Longrightarrow> length bs = encoded_size"
  using encode_total [of x] by auto

lemma encode_no_panic: "encode x \<noteq> Panic"
  using encode_total [of x] by auto

lemma decode_no_panic: "decode buf \<noteq> Panic"
  by (cases "length buf < encoded_size") (auto dest: decode_short dest!: decode_long simp: not_less)

lemma decode_None_iff: "decode buf = Ret None \<longleftrightarrow> length buf < encoded_size"
  by (cases "length buf < encoded_size") (auto dest: decode_short dest!: decode_long simp: not_less)

lemma decode_Some_iff:
  "decode buf = Ret (Some x) \<longleftrightarrow> encoded_size \<le> length buf \<and> encode x = Ret (take encoded_size buf)"
proof
  assume d: "decode buf = Ret (Some x)"
  then have "encoded_size \<le> length buf"
    by (metis decode_short not_less option.distinct(1) outcome.inject)
  with d show "encoded_size \<le> length buf \<and> encode x = Ret (take encoded_size buf)"
    using decode_long by fastforce
next
  assume "encoded_size \<le> length buf \<and> encode x = Ret (take encoded_size buf)"
  then show "decode buf = Ret (Some x)"
    using decode_encode [of x "take encoded_size buf" "drop encoded_size buf"] by simp
qed

lemma encode_inj: "encode x = encode y \<Longrightarrow> x = y"
  using encode_total [of x] decode_encode by (metis option.inject outcome.inject)

lemma roundtrip: "obind (encode x) (\<lambda>bs. decode (bs @ rest)) = Ret (Some x)"
  using encode_total [of x] decode_encode by auto

lemma decode_prefix: "encoded_size \<le> length buf \<Longrightarrow> decode (take encoded_size buf) = decode buf"
  using decode_long [of buf] by (metis append.right_neutral decode_encode)

end

end
