(* ===== verification/Messages.thy ===== *)
theory Messages
  imports Codec
begin

text \<open>
  The message types and the two payload structs the protocol crate implements
  (\<open>protocol/src/types.rs\<close>, \<open>messages/price_tick.rs\<close>, \<open>messages/heartbeat.rs\<close>). An
  \<open>f64\<close> is its 64-bit pattern, which is what \<open>to_le_bytes\<close> and \<open>from_le_bytes\<close> move.
\<close>

section \<open>Message types\<close>

datatype MsgType =
  PriceTick | OrderBookDelta | Signal | ExecutionReport | RiskBreach | Heartbeat

text \<open>\<open>t as u8\<close>: the discriminants of the \<open>repr(u8)\<close> enum.\<close>

primrec msg_type_as_u8 :: "MsgType \<Rightarrow> u8" where
  "msg_type_as_u8 PriceTick = 1"
| "msg_type_as_u8 OrderBookDelta = 2"
| "msg_type_as_u8 Signal = 3"
| "msg_type_as_u8 ExecutionReport = 4"
| "msg_type_as_u8 RiskBreach = 5"
| "msg_type_as_u8 Heartbeat = 6"

definition from_u8 :: "u8 \<Rightarrow> MsgType option" where
  "from_u8 v =
     (if v = 1 then Some PriceTick
      else if v = 2 then Some OrderBookDelta
      else if v = 3 then Some Signal
      else if v = 4 then Some ExecutionReport
      else if v = 5 then Some RiskBreach
      else if v = 6 then Some Heartbeat
      else None)"

lemma from_u8_as_u8 [simp]: "from_u8 (msg_type_as_u8 t) = Some t"
  by (cases t) (simp_all add: from_u8_def)

lemma msg_type_as_u8_inj: "msg_type_as_u8 s = msg_type_as_u8 t \<longleftrightarrow> s = t"
  by (metis from_u8_as_u8 option.inject)

text \<open>The order of the discriminants, so that the library's order automation applies.\<close>

instantiation MsgType :: linorder
begin

definition less_eq_MsgType :: "MsgType \<Rightarrow> MsgType \<Rightarrow> bool" where
  "s \<le> t \<longleftrightarrow> msg_type_as_u8 s \<le> msg_type_as_u8 t"

definition less_MsgType :: "MsgType \<Rightarrow> MsgType \<Rightarrow> bool" where
  "s < t \<longleftrightarrow> msg_type_as_u8 s < msg_type_as_u8 t"

instance
  by standard (auto simp: less_eq_MsgType_def less_MsgType_def
      simp flip: msg_type_as_u8_inj)

end

text \<open>
  \<open>from_u8\<close> is the exact inverse of \<open>as u8\<close>: it accepts the six discriminants and
  nothing else, and no message type is \<open>0\<close>, the byte the bus reserves for subscribers.
\<close>

lemma from_u8_exact:
  "(from_u8 v = Some t \<longleftrightarrow> v = msg_type_as_u8 t) \<and>
   (from_u8 v = None \<longleftrightarrow> v = 0 \<or> 6 < v) \<and>
   msg_type_as_u8 t \<noteq> 0"
proof (intro conjI)
  show "from_u8 v = Some t \<longleftrightarrow> v = msg_type_as_u8 t"
    by (cases t) (simp_all add: from_u8_def)
  show "from_u8 v = None \<longleftrightarrow> v = 0 \<or> 6 < v"
  proof -
    have "unat v = 0 \<or> unat v = 1 \<or> unat v = 2 \<or> unat v = 3 \<or> unat v = 4 \<or> unat v = 5 \<or>
          unat v = 6 \<or> 6 < unat v"
      by linarith
    then show ?thesis
      by (elim disjE) (simp_all add: from_u8_def word_unat_eq_iff word_less_nat_alt)
  qed
  show "msg_type_as_u8 t \<noteq> 0"
    by (cases t) simp_all
qed

section \<open>Price ticks\<close>

type_synonym f64 = "64 word"

record PriceTick =
  instrument_id :: u32
  last_price :: f64
  volume :: u32
  total_traded_volume :: u64
  tick_timestamp_ns :: u64

definition PRICE_TICK_SIZE :: nat where
  "PRICE_TICK_SIZE = 32"

definition price_tick_encode :: "PriceTick Encode" where
  "price_tick_encode t =
     Ret (to_le_bytes 4 (instrument_id t) @ to_le_bytes 8 (last_price t)
          @ to_le_bytes 4 (volume t) @ to_le_bytes 8 (total_traded_volume t)
          @ to_le_bytes 8 (tick_timestamp_ns t))"

definition price_tick_decode :: "PriceTick Decode" where
  "price_tick_decode buf =
     (if length buf < PRICE_TICK_SIZE then Ret None
      else obind (slice 0 4 buf) (\<lambda>s1. try_some (le_array 4 s1) (\<lambda>inst.
           obind (slice 4 12 buf) (\<lambda>s2. try_some (le_array 8 s2) (\<lambda>price.
           obind (slice 12 16 buf) (\<lambda>s3. try_some (le_array 4 s3) (\<lambda>vol.
           obind (slice 16 24 buf) (\<lambda>s4. try_some (le_array 8 s4) (\<lambda>tot.
           obind (slice 24 32 buf) (\<lambda>s5. try_some (le_array 8 s5) (\<lambda>ts.
           Ret (Some \<lparr>instrument_id = inst, last_price = price, volume = vol,
                      total_traded_volume = tot, tick_timestamp_ns = ts\<rparr>))))))))))))"

lemma price_tick_decode_long:
  assumes "PRICE_TICK_SIZE \<le> length buf"
  shows "\<exists>t. price_tick_decode buf = Ret (Some t) \<and>
             price_tick_encode t = Ret (take PRICE_TICK_SIZE buf)"
proof -
  let ?s = "\<lambda>a b. take (b - a) (drop a buf)"
  let ?t = "\<lparr>instrument_id = from_le_bytes (?s 0 4), last_price = from_le_bytes (?s 4 12),
             volume = from_le_bytes (?s 12 16), total_traded_volume = from_le_bytes (?s 16 24),
             tick_timestamp_ns = from_le_bytes (?s 24 32)\<rparr>"
  have len: "32 \<le> length buf"
    using assms by (simp add: PRICE_TICK_SIZE_def)
  have "price_tick_decode buf = Ret (Some ?t)"
    using len by (simp add: price_tick_decode_def PRICE_TICK_SIZE_def le_array_length)
  moreover have "price_tick_encode ?t = Ret (?s 0 4 @ ?s 4 12 @ ?s 12 16 @ ?s 16 24 @ ?s 24 32)"
    using len to_from_le_bytes [where 'a = 32, of "?s 0 4"]
      to_from_le_bytes [where 'a = 64, of "?s 4 12"]
      to_from_le_bytes [where 'a = 32, of "?s 12 16"]
      to_from_le_bytes [where 'a = 64, of "?s 16 24"]
      to_from_le_bytes [where 'a = 64, of "?s 24 32"]
    by (simp add: price_tick_encode_def)
  moreover have "?s 0 4 @ ?s 4 12 @ ?s 12 16 @ ?s 16 24 @ ?s 24 32 = take 32 buf"
    using slices_join [of 16 24 32 buf] slices_join [of 12 16 32 buf]
      slices_join [of 4 12 32 buf] slices_join [of 0 4 32 buf] by simp
  ultimately show ?thesis by (auto simp: PRICE_TICK_SIZE_def)
qed

interpretation price_tick: codec price_tick_encode price_tick_decode PRICE_TICK_SIZE
proof unfold_locales
  fix buf :: "u8 list"
  assume "PRICE_TICK_SIZE \<le> length buf"
  then show "\<exists>x. price_tick_decode buf = Ret (Some x) \<and> price_tick_encode x = Ret (take PRICE_TICK_SIZE buf)"
    by (rule price_tick_decode_long)
next
  fix t bs and rest :: "u8 list"
  assume "price_tick_encode t = Ret bs"
  then show "price_tick_decode (bs @ rest) = Ret (Some t)"
    by (auto simp: price_tick_encode_def price_tick_decode_def PRICE_TICK_SIZE_def)
qed (simp_all add: price_tick_encode_def price_tick_decode_def PRICE_TICK_SIZE_def)

section \<open>Heartbeats\<close>

record Heartbeat =
  source_id :: u32
  sequence_num :: u64

definition HEARTBEAT_SIZE :: nat where
  "HEARTBEAT_SIZE = 12"

definition heartbeat_encode :: "Heartbeat Encode" where
  "heartbeat_encode hb = Ret (to_le_bytes 4 (source_id hb) @ to_le_bytes 8 (sequence_num hb))"

definition heartbeat_decode :: "Heartbeat Decode" where
  "heartbeat_decode buf =
     (if length buf < HEARTBEAT_SIZE then Ret None
      else obind (slice 0 4 buf) (\<lambda>s1. try_some (le_array 4 s1) (\<lambda>src.
           obind (slice 4 12 buf) (\<lambda>s2. try_some (le_array 8 s2) (\<lambda>sn.
           Ret (Some \<lparr>source_id = src, sequence_num = sn\<rparr>))))))"

lemma heartbeat_decode_long:
  assumes "HEARTBEAT_SIZE \<le> length buf"
  shows "\<exists>hb. heartbeat_decode buf = Ret (Some hb) \<and>
              heartbeat_encode hb = Ret (take HEARTBEAT_SIZE buf)"
proof -
  let ?s = "\<lambda>a b. take (b - a) (drop a buf)"
  let ?t = "\<lparr>source_id = from_le_bytes (?s 0 4), sequence_num = from_le_bytes (?s 4 12)\<rparr>"
  have len: "12 \<le> length buf"
    using assms by (simp add: HEARTBEAT_SIZE_def)
  have "heartbeat_decode buf = Ret (Some ?t)"
    using len by (simp add: heartbeat_decode_def HEARTBEAT_SIZE_def le_array_length)
  moreover have "heartbeat_encode ?t = Ret (?s 0 4 @ ?s 4 12)"
    using len to_from_le_bytes [where 'a = 32, of "?s 0 4"]
      to_from_le_bytes [where 'a = 64, of "?s 4 12"]
    by (simp add: heartbeat_encode_def)
  moreover have "?s 0 4 @ ?s 4 12 = take 12 buf"
    using slices_join [of 0 4 12 buf] by simp
  ultimately show ?thesis by (auto simp: HEARTBEAT_SIZE_def)
qed

interpretation heartbeat: codec heartbeat_encode heartbeat_decode HEARTBEAT_SIZE
proof unfold_locales
  fix buf :: "u8 list"
  assume "HEARTBEAT_SIZE \<le> length buf"
  then show "\<exists>x. heartbeat_decode buf = Ret (Some x) \<and> heartbeat_encode x = Ret (take HEARTBEAT_SIZE buf)"
    by (rule heartbeat_decode_long)
next
  fix hb bs and rest :: "u8 list"
  assume "heartbeat_encode hb = Ret bs"
  then show "heartbeat_decode (bs @ rest) = Ret (Some hb)"
    by (auto simp: heartbeat_encode_def heartbeat_decode_def HEARTBEAT_SIZE_def)
qed (simp_all add: heartbeat_encode_def heartbeat_decode_def HEARTBEAT_SIZE_def)

text \<open>
  C35: the payload round trip, for both payload structs: a decoder given an encoded value,
  followed by anything, returns that value, and two different values never encode alike.
\<close>

theorem payload_roundtrip:
  "obind (price_tick_encode t) (\<lambda>bs. price_tick_decode (bs @ rest)) = Ret (Some t) \<and>
   obind (heartbeat_encode hb) (\<lambda>bs. heartbeat_decode (bs @ rest)) = Ret (Some hb) \<and>
   (price_tick_encode t = price_tick_encode t' \<longleftrightarrow> t = t') \<and>
   (heartbeat_encode hb = heartbeat_encode hb' \<longleftrightarrow> hb = hb')"
  using price_tick.roundtrip heartbeat.roundtrip price_tick.encode_inj heartbeat.encode_inj by auto

text \<open>
  Decoding a payload is total and exact: it never panics, it is \<open>None\<close> for the buffers
  shorter than the struct and for no other, and what it returns encodes to the bytes it read.
\<close>

lemma payload_decode_exact:
  "price_tick_decode buf \<noteq> Panic \<and> heartbeat_decode buf \<noteq> Panic \<and>
   (price_tick_decode buf = Ret None \<longleftrightarrow> length buf < PRICE_TICK_SIZE) \<and>
   (heartbeat_decode buf = Ret None \<longleftrightarrow> length buf < HEARTBEAT_SIZE) \<and>
   (price_tick_decode buf = Ret (Some t) \<longleftrightarrow>
      PRICE_TICK_SIZE \<le> length buf \<and> price_tick_encode t = Ret (take PRICE_TICK_SIZE buf)) \<and>
   (heartbeat_decode buf = Ret (Some hb) \<longleftrightarrow>
      HEARTBEAT_SIZE \<le> length buf \<and> heartbeat_encode hb = Ret (take HEARTBEAT_SIZE buf))"
  by (simp add: price_tick.decode_no_panic heartbeat.decode_no_panic price_tick.decode_None_iff
      heartbeat.decode_None_iff price_tick.decode_Some_iff heartbeat.decode_Some_iff)

end
