(* ===== verification/Market_Instrument.thy ===== *)
theory Market_Instrument
  imports Market_Rng Messages
begin

text \<open>
  The instruments of the market data producer and their price walk (\<open>Instrument::tick\<close> in
  \<open>bench/src/main.rs\<close>), floats rounded as the code rounds them.
\<close>

record Instrument =
  inst_instrument_id :: u32
  inst_channel_id :: u32
  inst_name :: string
  price :: F64
  tick_size :: F64
  total_vol :: u64

definition bench_now_ns :: "clock \<Rightarrow> u64" where
  "bench_now_ns clk = (case clk of None \<Rightarrow> 0 | Some ns \<Rightarrow> as_u64 ns)"

definition tick :: "bool \<Rightarrow> clock \<Rightarrow> Instrument \<Rightarrow> Rng \<Rightarrow> (PriceTick \<times> Instrument \<times> Rng) outcome" where
  "tick checks now self rng =
     (let (a, rng) = rng_f64 rng; (b, rng) = rng_f64 rng;
          move = f64_mul (f64_sub (f64_add a b) (f64_lit 1)) (tick_size self);
          self = self\<lparr>price := f64_max (f64_add (price self) move) (f64_mul (price self) (f64_lit (95 / 100)))\<rparr>;
          (c, rng) = rng_f64 rng in
      obind (add_u checks (f64_to_uint (f64_mul c (f64_lit 500))) 50) (\<lambda>vol.
      obind (add_u checks (total_vol self) (ucast vol)) (\<lambda>total.
        let self = self\<lparr>total_vol := total\<rparr> in
        Ret (\<lparr>instrument_id = inst_instrument_id self,
              last_price = f64_to_bits (f64_div (f64_round (f64_mul (price self) (f64_lit 100))) (f64_lit 100)),
              volume = vol, total_traded_volume = total_vol self, tick_timestamp_ns = bench_now_ns now\<rparr>, self, rng))))"

text \<open>A well-formed instrument: a positive finite price and a tick size that does not swamp it.\<close>

definition inst_ok :: "Instrument \<Rightarrow> bool" where
  "inst_ok i \<longleftrightarrow> wf_f64 (price i) \<and> is_finite (price i) \<and> 0 < f64_val (price i) \<and> f64_val (price i) \<le> 2 ^ 60 \<and>
     wf_f64 (tick_size i) \<and> is_finite (tick_size i) \<and> 0 \<le> f64_val (tick_size i) \<and> f64_val (tick_size i) \<le> 64"

lemma lit_95: "is_finite (f64_lit (95 / 100))" "3 / 4 \<le> f64_val (f64_lit (95 / 100))" "f64_val (f64_lit (95 / 100)) \<le> 1"
proof -
  have "exact (3 / 4)" by (rule exactI [of 3 "- 2"]) (simp_all add: power_int_minus)
  moreover have "moderate (95 / 100)" by (rule small_moderate) simp
  ultimately show "is_finite (f64_lit (95 / 100))" "3 / 4 \<le> f64_val (f64_lit (95 / 100))"
    "f64_val (f64_lit (95 / 100)) \<le> 1"
    using f64_of_rat_val [of "95 / 100"] rnd_ge [of "3 / 4" "95 / 100"] rnd_le [of "95 / 100" 1] by simp_all
qed

lemma lit_1: "is_finite (f64_lit 1)" "f64_val (f64_lit 1) = 1"
  using f64_lit_exact [of 1] small_moderate [of 1] by simp_all

lemma lit_100: "is_finite (f64_lit 100)" "f64_val (f64_lit 100) = 100"
  using f64_lit_exact [of 100] small_moderate [of 100] by simp_all

lemma lit_500: "is_finite (f64_lit 500)" "f64_val (f64_lit 500) = 500"
  using f64_lit_exact [of 500] small_moderate [of 500] by simp_all

text \<open>The move is at most the tick size.\<close>

lemma move_bounds:
  assumes a: "is_finite a" "0 \<le> f64_val a" "f64_val a \<le> 1"
    and b: "is_finite b" "0 \<le> f64_val b" "f64_val b \<le> 1"
    and t: "is_finite t" "wf_f64 t" "0 \<le> f64_val t" "f64_val t \<le> 64"
  defines "m \<equiv> f64_mul (f64_sub (f64_add a b) (f64_lit 1)) t"
  shows "is_finite m" "\<bar>f64_val m\<bar> \<le> f64_val t"
proof -
  have s: "is_finite (f64_add a b)" "f64_val (f64_add a b) = rnd (f64_val a + f64_val b)"
    using f64_add_val [OF a(1) b(1) small_moderate] a b by simp_all
  have s': "0 \<le> f64_val (f64_add a b)" "f64_val (f64_add a b) \<le> 2"
    unfolding s using a b by (auto intro!: rnd_ge rnd_le)
  define d where "d = f64_sub (f64_add a b) (f64_lit 1)"
  have d: "is_finite d" "f64_val d = rnd (f64_val (f64_add a b) - 1)"
    unfolding d_def using f64_sub_val [OF s(1) lit_1(1) small_moderate] s' lit_1 by simp_all
  have d': "- 1 \<le> f64_val d" "f64_val d \<le> 1"
    unfolding d using s' by (auto intro!: rnd_ge rnd_le)
  have p: "- f64_val t \<le> f64_val d * f64_val t" "f64_val d * f64_val t \<le> f64_val t"
    using mult_right_mono [OF d'(1) t(3)] mult_right_mono [OF d'(2) t(3)] by simp_all
  have "moderate (f64_val d * f64_val t)" using p t by (intro small_moderate) (simp add: abs_le_iff)
  from f64_mul_val [OF d(1) t(1) this]
  show "is_finite m" "\<bar>f64_val m\<bar> \<le> f64_val t"
    unfolding m_def d_def [symmetric] using p exact_val [OF t(2)] rnd_ge [OF p(1)] rnd_le [OF p(2)]
    by (simp_all add: abs_le_iff)
qed

text \<open>Adding a tick to the greatest price the invariant allows does not change it.\<close>

lemma rnd_top: "rnd (2 ^ 60 + 64) = 2 ^ 60"
proof -
  have "last_place (2 ^ 60 + 64) = 8" by (rule last_place_eqI) simp_all
  then have "round_mag (2 ^ 60 + 64) = of_int (2 ^ 52) * 2 powi 8" by (rule round_mag_eqI) simp_all
  then show ?thesis by (simp add: rnd_def)
qed

lemma price_step:
  assumes p: "wf_f64 p" "is_finite p" "0 < f64_val p" "f64_val p \<le> 2 ^ 60"
    and m: "is_finite m" "\<bar>f64_val m\<bar> \<le> t" "t \<le> 64"
  defines "q \<equiv> f64_max (f64_add p m) (f64_mul p (f64_lit (95 / 100)))"
  shows "is_finite q" "0 < f64_val q" "f64_val q \<le> 2 ^ 60"
    "rnd (f64_val p - t) \<le> f64_val q" "f64_val q \<le> rnd (f64_val p + t)"
    "rnd (f64_val p * f64_val (f64_lit (95 / 100))) \<le> f64_val q"
proof -
  let ?p = "f64_val p" and ?c = "f64_val (f64_lit (95 / 100))"
  have "moderate (?p + f64_val m)" using p m by (intro small_moderate) (simp add: abs_le_iff)
  note add = f64_add_val [OF p(2) m(1) this]
  have pc: "?p * (3 / 4) \<le> ?p * ?c" "?p * ?c \<le> ?p * 1" "0 \<le> ?p * ?c"
    using p lit_95 by (auto intro!: mult_left_mono)
  have "?p * ?c \<le> 2 ^ 60" using pc(2) p(4) by linarith
  then have "\<bar>?p * ?c\<bar> \<le> 2 ^ 70" using pc(3) by (simp only: abs_of_nonneg) simp
  then have "moderate (?p * ?c)" by (rule small_moderate)
  note mul = f64_mul_val [OF p(2) lit_95(1) this]
  have q: "is_finite q" "f64_val q = max (rnd (?p + f64_val m)) (rnd (?p * ?c))"
    unfolding q_def using f64_max_val [OF add(1) mul(1)] add(2) mul(2) by simp_all
  show "is_finite q" by fact
  have "2 powi (- 1075) < (3 / 4) * (2 powi (- 1074) :: rat)"
    using power_int_add [of "2 :: rat" "- 1" "- 1074"] by (simp add: power_int_minus)
  also have "\<dots> \<le> ?p * (3 / 4)" using exact_pos_lower [of ?p] p exact_val by simp
  finally have "2 powi (- 1075) < ?p * ?c" using pc(1) by (rule less_le_trans)
  then have "0 < rnd (?p * ?c)" using pc(3) by (simp add: rnd_def round_mag_pos)
  then show "0 < f64_val q" unfolding q by simp
  show "rnd (?p * ?c) \<le> f64_val q" unfolding q by simp
  have "rnd (?p - t) \<le> rnd (?p + f64_val m)" using m by (intro rnd_mono) (simp add: abs_le_iff)
  then show "rnd (?p - t) \<le> f64_val q" unfolding q by simp
  have "0 \<le> t" using m by simp
  then show up: "f64_val q \<le> rnd (?p + t)"
    unfolding q using m pc by (auto intro!: rnd_mono simp: abs_le_iff)
  also have "\<dots> \<le> rnd (2 ^ 60 + 64)" using p m by (intro rnd_mono) simp
  finally show "f64_val q \<le> 2 ^ 60" by (simp only: rnd_top)
qed

section \<open>The volume\<close>

lemma rnd_500: "rnd ((2 ^ 53 - 1) / 2 ^ 53 * 500) < 500"
proof -
  let ?x = "(2 ^ 53 - 1) / 2 ^ 53 * 500 :: rat"
  have "last_place ?x = - 44" by (rule last_place_eqI) (simp_all add: power_int_minus)
  then have "round_mag ?x = of_int (500 * 2 ^ 44 - 1) * 2 powi (- 44)"
    by (rule round_mag_eqI) (simp_all add: power_int_minus)
  then show ?thesis by (simp add: rnd_def power_int_minus)
qed

definition volume_draw :: "F64 \<Rightarrow> u32" where
  "volume_draw c = f64_to_uint (f64_mul c (f64_lit 500))"

lemma volume_draw_less: "unat (volume_draw (fst (rng_f64 r))) < 500"
proof -
  obtain k where k: "k < 2 ^ 53" "wf_f64 (fst (rng_f64 r))" "is_finite (fst (rng_f64 r))"
    "f64_val (fst (rng_f64 r)) = of_nat k / 2 ^ 53"
    by (rule rng_f64_spec [of r])
  have "(of_nat k :: rat) \<le> of_nat (2 ^ 53 - 1)" using k(1) by (simp only: of_nat_le_iff)
  then have le: "of_nat k / 2 ^ 53 * 500 \<le> (2 ^ 53 - 1) / 2 ^ 53 * (500 :: rat)" by simp
  have x: "0 \<le> of_nat k / 2 ^ 53 * (500 :: rat)" by simp
  have "\<bar>of_nat k / 2 ^ 53 * (500 :: rat)\<bar> \<le> 2 ^ 70"
    unfolding abs_of_nonneg [OF x] using le by (rule order_trans) simp
  then have "moderate (f64_val (fst (rng_f64 r)) * f64_val (f64_lit 500))"
    unfolding k(4) lit_500(2) by (rule small_moderate)
  note v = f64_mul_val [OF k(3) lit_500(1) this, unfolded k(4) lit_500(2)]
  have lo: "0 \<le> f64_val (f64_mul (fst (rng_f64 r)) (f64_lit 500))"
    unfolding v(2) using x by (rule rnd_ge) simp
  have hi: "f64_val (f64_mul (fst (rng_f64 r)) (f64_lit 500)) < 500"
    unfolding v(2) using rnd_mono [OF le] rnd_500 by (rule le_less_trans)
  have "wf_f64 (f64_mul (fst (rng_f64 r)) (f64_lit 500))" using k by simp
  with f64_to_uint_val [OF v(1) lo, where 'a = 32] hi lo show ?thesis
    by (simp add: volume_draw_def nat_less_iff floor_less_iff)
qed

section \<open>Two decimal places\<close>

definition to_cents :: "F64 \<Rightarrow> F64" where
  "to_cents p = f64_div (f64_round (f64_mul p (f64_lit 100))) (f64_lit 100)"

lemma f64_round_val:
  assumes "is_finite a" "0 \<le> f64_val a" "wf_f64 a"
  shows "is_finite (f64_round a)" "f64_val (f64_round a) = of_int \<lfloor>f64_val a + 1 / 2\<rfloor>"
proof -
  obtain s m where a: "a = Finite s m" using finite_cases [OF assms(1)] by blast
  have m: "s \<Longrightarrow> m = 0" using assms by (simp add: a)
  then have "f64_val a = m" by (cases s) (simp_all add: a)
  moreover have "f64_val (f64_round a) = of_int \<lfloor>m + 1 / 2\<rfloor>" using m by (cases s) (simp_all add: a floor_eq_iff)
  ultimately show "f64_val (f64_round a) = of_int \<lfloor>f64_val a + 1 / 2\<rfloor>" by simp
  show "is_finite (f64_round a)" by (simp add: a)
qed

lemma to_cents_val:
  assumes p: "wf_f64 p" "is_finite p" "0 < f64_val p" "f64_val p \<le> 2 ^ 60"
  shows "is_finite (to_cents p)" "wf_f64 (to_cents p)" "0 \<le> f64_val (to_cents p)"
    "f64_val p \<le> 2 ^ 30 \<Longrightarrow> \<bar>f64_val (to_cents p) - f64_val p\<bar> \<le> 51 / 10000"
proof -
  let ?p = "f64_val p"
  have "moderate (?p * f64_val (f64_lit 100))"
    unfolding lit_100 using p by (intro small_moderate) simp
  note m = f64_mul_val [OF p(2) lit_100(1) this, unfolded lit_100]
  define r where "r = (of_int \<lfloor>rnd (?p * 100) + 1 / 2\<rfloor> :: rat)"
  have m0: "0 \<le> rnd (?p * 100)" "rnd (?p * 100) \<le> 2 ^ 67"
    using p exact_of_int [of 0] exact_powi [of 67] by (auto intro!: rnd_ge rnd_le)
  have "wf_f64 (f64_mul p (f64_lit 100))" using p by simp
  with f64_round_val [OF m(1)] m(2) m0
  have f: "is_finite (f64_round (f64_mul p (f64_lit 100)))" "f64_val (f64_round (f64_mul p (f64_lit 100))) = r"
    by (simp_all add: r_def)
  have "of_int \<lfloor>rnd (?p * 100) + 1 / 2\<rfloor> \<le> rnd (?p * 100) + 1 / 2"
    "rnd (?p * 100) + 1 / 2 < of_int \<lfloor>rnd (?p * 100) + 1 / 2\<rfloor> + 1"
    using floor_correct [of "rnd (?p * 100) + 1 / 2"] by simp_all
  moreover have "0 \<le> r" unfolding r_def using m0(1) by simp
  ultimately have r: "r \<le> rnd (?p * 100) + 1 / 2" "rnd (?p * 100) - 1 / 2 \<le> r" "0 \<le> r"
    unfolding r_def by linarith+
  have nz: "f64_val (f64_lit 100) \<noteq> 0" by (simp add: lit_100)
  have "moderate (f64_val (f64_round (f64_mul p (f64_lit 100))) / f64_val (f64_lit 100))"
    unfolding lit_100 f using r m0 by (intro small_moderate) simp
  note c = f64_div_val [OF f(1) lit_100(1) nz this, unfolded lit_100 f, folded to_cents_def]
  show "is_finite (to_cents p)" "0 \<le> f64_val (to_cents p)"
    using c r(3) by (auto intro!: rnd_ge)
  show "wf_f64 (to_cents p)"
    unfolding to_cents_def by (rule wf_f64_div_finite [OF f(1) lit_100(1) nz])
  assume small: "?p \<le> 2 ^ 30"
  have 1: "\<bar>rnd (?p * 100) - ?p * 100\<bar> \<le> 2 powi (- 16) / 2"
    using small p(3) by (intro rnd_error) (simp_all add: abs_of_pos)
  then have "rnd (?p * 100) - ?p * 100 \<le> 1"
    using abs_ge_self [of "rnd (?p * 100) - ?p * 100"] by (simp add: power_int_minus)
  then have "r / 100 < 2 ^ 32" using r(1) small by simp
  then have 2: "\<bar>rnd (r / 100) - r / 100\<bar> \<le> 2 powi (- 21) / 2"
    using r(3) by (intro rnd_error) simp_all
  show "\<bar>f64_val (to_cents p) - ?p\<bar> \<le> 51 / 10000"
    using 1 2 r(1,2) unfolding c abs_le_iff by (simp add: power_int_minus)
qed

section \<open>A tick\<close>

lemma unat_ucast_u32: "unat (ucast w :: u64) = unat (w :: u32)"
proof -
  have "unat w < 2 ^ 64" by (rule order.strict_trans2 [OF unsigned_less]) simp
  then show ?thesis by (simp add: unsigned_ucast_eq take_bit_nat_eq_self)
qed

text \<open>The message and the instrument of a tick that does not overflow the total.\<close>

lemma tick_eq:
  fixes rng :: Rng
  assumes "unat (total_vol i) + 549 < 2 ^ 64"
  defines "r1 \<equiv> snd (rng_f64 rng)"
  defines "r2 \<equiv> snd (rng_f64 r1)"
  defines "m \<equiv> f64_mul (f64_sub (f64_add (fst (rng_f64 rng)) (fst (rng_f64 r1))) (f64_lit 1)) (tick_size i)"
  defines "q \<equiv> f64_max (f64_add (price i) m) (f64_mul (price i) (f64_lit (95 / 100)))"
  defines "v \<equiv> volume_draw (fst (rng_f64 r2)) + 50"
  shows "tick checks now i rng =
    Ret (\<lparr>instrument_id = inst_instrument_id i, last_price = f64_to_bits (to_cents q), volume = v,
          total_traded_volume = total_vol i + ucast v, tick_timestamp_ns = bench_now_ns now\<rparr>,
         i\<lparr>price := q, total_vol := total_vol i + ucast v\<rparr>, snd (rng_f64 r2))"
    and "50 \<le> unat v \<and> unat v \<le> 549"
    and "unat (total_vol i + ucast v) = unat (total_vol i) + unat v"
proof -
  have less: "unat (volume_draw (fst (rng_f64 r2))) < 500" by (rule volume_draw_less)
  then show v: "50 \<le> unat v \<and> unat v \<le> 549"
    by (simp add: v_def unat_plus_if')
  then have t: "unat (total_vol i) + unat (ucast v :: u64) < 2 ^ 64"
    using assms(1) by (simp only: unat_ucast_u32) linarith
  then show "unat (total_vol i + ucast v) = unat (total_vol i) + unat v"
    by (simp add: unat_plus_if' unat_ucast_u32)
  have "add_u checks (f64_to_uint (f64_mul (fst (rng_f64 r2)) (f64_lit 500)) :: u32) 50 = Ret v"
    unfolding volume_draw_def [symmetric] v_def using less by (intro add_u_Ret) simp
  moreover have "add_u checks (total_vol i) (ucast v) = Ret (total_vol i + ucast v)"
    using t by (intro add_u_Ret) simp
  ultimately show "tick checks now i rng =
    Ret (\<lparr>instrument_id = inst_instrument_id i, last_price = f64_to_bits (to_cents q), volume = v,
          total_traded_volume = total_vol i + ucast v, tick_timestamp_ns = bench_now_ns now\<rparr>,
         i\<lparr>price := q, total_vol := total_vol i + ucast v\<rparr>, snd (rng_f64 r2))"
    by (simp add: tick_def Let_def case_prod_unfold to_cents_def q_def m_def r2_def r1_def)
qed

lemma tick_result:
  assumes ok: "inst_ok i" and vol: "unat (total_vol i) + 549 < 2 ^ 64"
  obtains t i' rng' where "tick checks now i rng = Ret (t, i', rng')" "inst_ok i'"
    "i' = i\<lparr>price := price i', total_vol := total_vol i'\<rparr>"
    "rnd (f64_val (price i) - f64_val (tick_size i)) \<le> f64_val (price i')"
    "f64_val (price i') \<le> rnd (f64_val (price i) + f64_val (tick_size i))"
    "rnd (f64_val (price i) * f64_val (f64_lit (95 / 100))) \<le> f64_val (price i')"
    "50 \<le> unat (volume t) \<and> unat (volume t) \<le> 549"
    "unat (total_vol i') = unat (total_vol i) + unat (volume t)" "total_traded_volume t = total_vol i'"
    "instrument_id t = inst_instrument_id i" "tick_timestamp_ns t = bench_now_ns now"
    "f64_from_bits (last_price t) = to_cents (price i')"
proof -
  let ?a = "fst (rng_f64 rng)" and ?b = "fst (rng_f64 (snd (rng_f64 rng)))"
  let ?m = "f64_mul (f64_sub (f64_add ?a ?b) (f64_lit 1)) (tick_size i)"
  let ?q = "f64_max (f64_add (price i) ?m) (f64_mul (price i) (f64_lit (95 / 100)))"
  have i: "wf_f64 (price i)" "is_finite (price i)" "0 < f64_val (price i)" "f64_val (price i) \<le> 2 ^ 60"
    "wf_f64 (tick_size i)" "is_finite (tick_size i)" "0 \<le> f64_val (tick_size i)" "f64_val (tick_size i) \<le> 64"
    using ok by (simp_all add: inst_ok_def)
  note unit = rng_f64_unit(1,2) less_imp_le [OF rng_f64_unit(3)]
  note m = move_bounds [OF unit [of rng] unit [of "snd (rng_f64 rng)"] i(6,5,7,8)]
  note q = price_step [OF i(1-4) m i(8)]
  have wq: "wf_f64 ?q" using i rng_f64_unit(4) by (intro wf_f64_max wf_f64_add wf_f64_mul wf_f64_sub wf_f64_of_rat)
  note cents = f64_from_to_bits [OF to_cents_val(2) [OF wq q(1-3)]]
  show thesis
    by (rule that [OF tick_eq(1) [OF vol]]) (use q wq i cents tick_eq(2,3) [OF vol] in \<open>simp_all add: inst_ok_def\<close>)
qed

text \<open>
  C36: what a tick does. For a positive price up to \<open>2 ^ 60\<close> and a tick size up to 64 it does not
  panic, and leaves such an instrument: the price moves by at most the tick size, loses at most
  five percent and stays positive, all up to rounding, the volume is between 50 and
  549 and is added to the total, and the message carries the price to two decimals as the
  pattern of a finite number.
\<close>

theorem tick_spec:
  assumes "inst_ok i" and "unat (total_vol i) + 549 < 2 ^ 64"
  shows "\<exists>t i' rng'. tick checks now i rng = Ret (t, i', rng') \<and> inst_ok i' \<and>
    i' = i\<lparr>price := price i', total_vol := total_vol i'\<rparr> \<and>
    rnd (f64_val (price i) - f64_val (tick_size i)) \<le> f64_val (price i') \<and>
    f64_val (price i') \<le> rnd (f64_val (price i) + f64_val (tick_size i)) \<and>
    rnd (f64_val (price i) * f64_val (f64_lit (95 / 100))) \<le> f64_val (price i') \<and>
    50 \<le> unat (volume t) \<and> unat (volume t) \<le> 549 \<and>
    unat (total_vol i') = unat (total_vol i) + unat (volume t) \<and> total_traded_volume t = total_vol i' \<and>
    instrument_id t = inst_instrument_id i \<and> tick_timestamp_ns t = bench_now_ns now \<and>
    is_finite (f64_from_bits (last_price t)) \<and> 0 \<le> f64_val (f64_from_bits (last_price t)) \<and>
    (f64_val (price i') \<le> 2 ^ 30 \<longrightarrow> \<bar>f64_val (f64_from_bits (last_price t)) - f64_val (price i')\<bar> \<le> 51 / 10000)"
proof -
  obtain t i' rng' where t: "tick checks now i rng = Ret (t, i', rng')" "inst_ok i'"
    "i' = i\<lparr>price := price i', total_vol := total_vol i'\<rparr>"
    "rnd (f64_val (price i) - f64_val (tick_size i)) \<le> f64_val (price i')"
    "f64_val (price i') \<le> rnd (f64_val (price i) + f64_val (tick_size i))"
    "rnd (f64_val (price i) * f64_val (f64_lit (95 / 100))) \<le> f64_val (price i')"
    "50 \<le> unat (volume t) \<and> unat (volume t) \<le> 549"
    "unat (total_vol i') = unat (total_vol i) + unat (volume t)" "total_traded_volume t = total_vol i'"
    "instrument_id t = inst_instrument_id i" "tick_timestamp_ns t = bench_now_ns now"
    "f64_from_bits (last_price t) = to_cents (price i')"
    by (rule tick_result [OF assms])
  note cents = to_cents_val [of "price i'"]
  show ?thesis
    by (intro exI [of _ t] exI [of _ i'] exI [of _ rng'] conjI impI)
      (use t cents in \<open>simp_all add: inst_ok_def\<close>)
qed

section \<open>The four instruments\<close>

lemma f64_lit_between:
  assumes "a \<le> r" "r \<le> b" "exact a" "exact b" "- (2 ^ 70) \<le> a" "b \<le> 2 ^ 70"
  shows "is_finite (f64_lit r)" "a \<le> f64_val (f64_lit r)" "f64_val (f64_lit r) \<le> b"
proof -
  have "moderate r" using assms by (intro small_moderate) (simp add: abs_le_iff)
  from f64_of_rat_val [OF this, of False] assms
  show "is_finite (f64_lit r)" "a \<le> f64_val (f64_lit r)" "f64_val (f64_lit r) \<le> b"
    by (auto intro: rnd_ge rnd_le)
qed

definition market_instruments :: "Instrument list" where
  "market_instruments =
    [\<lparr>inst_instrument_id = 1001, inst_channel_id = 1001, inst_name = ''NIFTY_SPOT'',
      price = f64_lit (24150 + 50 / 100), tick_size = f64_lit 5, total_vol = 0\<rparr>,
     \<lparr>inst_instrument_id = 1002, inst_channel_id = 1002, inst_name = ''BANKNIFTY_SPOT'',
      price = f64_lit 51800, tick_size = f64_lit 12, total_vol = 0\<rparr>,
     \<lparr>inst_instrument_id = 1003, inst_channel_id = 1003, inst_name = ''RELIANCE'',
      price = f64_lit (2945 + 75 / 100), tick_size = f64_lit (8 / 10), total_vol = 0\<rparr>,
     \<lparr>inst_instrument_id = 1004, inst_channel_id = 1004, inst_name = ''TCS'',
      price = f64_lit (4215 + 30 / 100), tick_size = f64_lit (12 / 10), total_vol = 0\<rparr>]"

lemma inst_okI:
  assumes "1 \<le> p" "p \<le> 2 ^ 60" "0 \<le> t" "t \<le> 64"
  shows "inst_ok \<lparr>inst_instrument_id = n, inst_channel_id = c, inst_name = s, price = f64_lit p,
    tick_size = f64_lit t, total_vol = v\<rparr>"
proof -
  have e: "exact (2 ^ 60)" using exact_powi [of 60] by simp
  have "is_finite (f64_lit p)" "1 \<le> f64_val (f64_lit p)" "f64_val (f64_lit p) \<le> 2 ^ 60"
    using f64_lit_between [of 1 p "2 ^ 60"] assms e by simp_all
  moreover have "is_finite (f64_lit t)" "0 \<le> f64_val (f64_lit t)" "f64_val (f64_lit t) \<le> 64"
    using f64_lit_between [of 0 t 64] assms by simp_all
  ultimately show ?thesis by (simp add: inst_ok_def)
qed

lemma market_instruments_ok: "list_all inst_ok market_instruments"
  by (auto simp: market_instruments_def intro!: inst_okI)

theorem tick_spec_witness:
  "\<exists>t i' rng'. tick True (Some 7) (hd market_instruments) (rng_new 0) = Ret (t, i', rng') \<and> inst_ok i' \<and>
    50 \<le> unat (volume t) \<and> unat (volume t) \<le> 549 \<and> unat (total_vol i') = unat (volume t) \<and>
    instrument_id t = 1001 \<and> tick_timestamp_ns t = 7"
proof -
  have "inst_ok (hd market_instruments)" using market_instruments_ok by (simp add: market_instruments_def)
  from tick_spec [OF this, of True "Some 7" "rng_new 0"] show ?thesis
    by (fastforce simp: market_instruments_def bench_now_ns_def)
qed

end
