(* ===== verification/Header.thy ===== *)
theory Header
  imports Codec
begin

text \<open>
  The 17-byte wire header (\<open>protocol/src/header.rs\<close>): the record, \<open>new\<close>, \<open>to_bytes\<close> and
  \<open>from_bytes\<close>, with the array writes and slices of the source and their bounds checks.
\<close>

record MsgHeader =
  msg_type :: u8
  channel_id :: u32
  timestamp_ns :: u64
  payload_len :: u32

definition HEADER_SIZE :: nat where
  "HEADER_SIZE = 1 + 4 + 8 + 4"

lemma HEADER_SIZE_eq [simp]: "HEADER_SIZE = 17"
  by (simp add: HEADER_SIZE_def)

text \<open>\<open>MsgHeader::now_ns\<close> unwraps the clock: a clock before the epoch panics.\<close>

definition now_ns_unwrap :: "clock \<Rightarrow> u64 outcome" where
  "now_ns_unwrap clk = (case clk of None \<Rightarrow> Panic | Some ns \<Rightarrow> Ret (as_u64 ns))"

definition header_new :: "clock \<Rightarrow> u8 \<Rightarrow> u32 \<Rightarrow> u32 \<Rightarrow> MsgHeader outcome" where
  "header_new clk mt ch plen =
     obind (now_ns_unwrap clk) (\<lambda>ts.
       Ret \<lparr>msg_type = mt, channel_id = ch, timestamp_ns = ts, payload_len = plen\<rparr>)"

definition to_bytes :: "MsgHeader Encode" where
  "to_bytes h =
     obind (index_set (replicate HEADER_SIZE 0) 0 (msg_type h)) (\<lambda>buf.
     obind (copy_from_slice 1 5 (to_le_bytes 4 (channel_id h)) buf) (\<lambda>buf.
     obind (copy_from_slice 5 13 (to_le_bytes 8 (timestamp_ns h)) buf) (\<lambda>buf.
     copy_from_slice 13 17 (to_le_bytes 4 (payload_len h)) buf)))"

definition from_bytes :: "MsgHeader Decode" where
  "from_bytes buf =
     (if length buf < HEADER_SIZE then Ret None
      else obind (index buf 0) (\<lambda>mt.
           obind (slice 1 5 buf) (\<lambda>s1. try_some (le_array 4 s1) (\<lambda>ch.
           obind (slice 5 13 buf) (\<lambda>s2. try_some (le_array 8 s2) (\<lambda>ts.
           obind (slice 13 17 buf) (\<lambda>s3. try_some (le_array 4 s3) (\<lambda>plen.
           Ret (Some \<lparr>msg_type = mt, channel_id = ch, timestamp_ns = ts,
                      payload_len = plen\<rparr>)))))))))"

text \<open>The bytes of a header, in one list: what \<open>to_bytes\<close> leaves in its buffer.\<close>

abbreviation header_wire :: "MsgHeader \<Rightarrow> u8 list" where
  "header_wire h \<equiv> msg_type h # to_le_bytes 4 (channel_id h) @ to_le_bytes 8 (timestamp_ns h)
                   @ to_le_bytes 4 (payload_len h)"

lemma to_bytes_wire [simp]: "to_bytes h = Ret (header_wire h)"
  by (simp add: to_bytes_def eval_nat_numeral)

lemma from_bytes_wire: "from_bytes (header_wire h @ rest) = Ret (Some h)"
  by (simp add: from_bytes_def)

lemma from_bytes_long:
  assumes "HEADER_SIZE \<le> length buf"
  shows "\<exists>h. from_bytes buf = Ret (Some h) \<and> header_wire h = take HEADER_SIZE buf"
proof -
  let ?s = "\<lambda>a b. take (b - a) (drop a buf)"
  let ?h = "\<lparr>msg_type = buf ! 0, channel_id = from_le_bytes (?s 1 5),
             timestamp_ns = from_le_bytes (?s 5 13), payload_len = from_le_bytes (?s 13 17)\<rparr>"
  have len: "0 < length buf" "buf \<noteq> []"
    using assms by auto
  have "from_bytes buf = Ret (Some ?h)"
    using assms len by (simp add: from_bytes_def le_array_length)
  moreover have "header_wire ?h = take HEADER_SIZE buf"
  proof -
    have "header_wire ?h = buf ! 0 # ?s 1 5 @ ?s 5 13 @ ?s 13 17"
      using assms to_from_le_bytes [where 'a = 32, of "?s 1 5"]
        to_from_le_bytes [where 'a = 64, of "?s 5 13"]
        to_from_le_bytes [where 'a = 32, of "?s 13 17"] by simp
    also have "\<dots> = take HEADER_SIZE buf"
      using len slices_join [of 5 13 17 buf] slices_join [of 1 5 17 buf] by (cases buf) simp_all
    finally show ?thesis .
  qed
  ultimately show ?thesis by blast
qed

interpretation header: codec to_bytes from_bytes HEADER_SIZE
proof unfold_locales
  fix buf :: "u8 list"
  show "\<exists>h. from_bytes buf = Ret (Some h) \<and> to_bytes h = Ret (take HEADER_SIZE buf)"
    if "HEADER_SIZE \<le> length buf"
    using from_bytes_long [OF that] by simp
qed (auto simp: from_bytes_wire [simplified] from_bytes_def)

text \<open>
  The header round trip. Whatever follows a header on the wire, reading the bytes
  \<open>to_bytes\<close> wrote gives the header back; neither side panics.
\<close>

lemma header_roundtrip: "obind (to_bytes h) (\<lambda>bs. from_bytes (bs @ rest)) = Ret (Some h)"
  by (rule header.roundtrip)

text \<open>
  C34: what \<open>from_bytes\<close> accepts. It returns \<open>None\<close> exactly for a buffer shorter than 17 bytes and
  never panics; from every longer buffer, a longer one included, it returns the header whose
  bytes are the first 17, laid out as type, channel, timestamp and length, each
  little-endian.
\<close>

theorem from_bytes_exact:
  "from_bytes buf \<noteq> Panic \<and> (from_bytes buf = Ret None \<longleftrightarrow> length buf < 17) \<and>
   (from_bytes buf = Ret (Some h) \<longleftrightarrow> 17 \<le> length buf \<and>
      take 17 buf = [msg_type h] @ to_le_bytes 4 (channel_id h) @ to_le_bytes 8 (timestamp_ns h)
                    @ to_le_bytes 4 (payload_len h))"
  using header.decode_no_panic [of buf] header.decode_None_iff [of buf] header.decode_Some_iff [of buf h]
  by auto

end
