(* ===== verification/Net_Stream.thy ===== *)
theory Net_Stream
  imports Header
begin

text \<open>
  The byte streams the clients and the bus share (\<open>TcpStream\<close>, \<open>BufReader\<close>, \<open>read_exact\<close>,
  \<open>write_all\<close> of the standard library) and the framing both sides of a connection use: a
  header followed by as many payload bytes as it announces.
\<close>

section \<open>Sockets\<close>

text \<open>
  \<open>incoming\<close> is what the peer still sends before it closes its side; a \<open>BufReader\<close> hands
  out the same bytes in the same order. \<open>outgoing\<close> is what has been written; \<open>send_room\<close> is how
  many more bytes the connection takes before it breaks, if it ever does.
\<close>

datatype io_error = UnexpectedEof | InvalidData | BrokenPipe | ConnectFailed

record TcpStream =
  incoming :: "u8 list"
  outgoing :: "u8 list"
  send_room :: "nat option"

definition read_exact :: "nat \<Rightarrow> TcpStream \<Rightarrow> (io_error + u8 list) \<times> TcpStream" where
  "read_exact n s =
     (if n \<le> length (incoming s)
      then (Inr (take n (incoming s)), s\<lparr>incoming := drop n (incoming s)\<rparr>)
      else (Inl UnexpectedEof, s\<lparr>incoming := []\<rparr>))"

definition write_all :: "u8 list \<Rightarrow> TcpStream \<Rightarrow> (io_error + unit) \<times> TcpStream" where
  "write_all bs s =
     (case send_room s of
        None \<Rightarrow> (Inr (), s\<lparr>outgoing := outgoing s @ bs\<rparr>)
      | Some n \<Rightarrow>
          if length bs \<le> n
          then (Inr (), s\<lparr>outgoing := outgoing s @ bs, send_room := Some (n - length bs)\<rparr>)
          else (Inl BrokenPipe, s\<lparr>outgoing := outgoing s @ take n bs, send_room := Some 0\<rparr>))"

text \<open>
  Two writes with \<open>?\<close> between them are one write of the concatenation, errors and the bytes
  that went out before an error included.
\<close>

lemma write_all_append:
  "write_all (xs @ ys) s =
     (case write_all xs s of (Inl e, s') \<Rightarrow> (Inl e, s') | (Inr _, s') \<Rightarrow> write_all ys s')"
  by (cases s) (auto simp: write_all_def split: option.splits)

lemma write_all_Nil [simp]: "write_all [] s = (Inr (), s)"
  by (cases s) (auto simp: write_all_def split: option.split)

lemma write_all_outgoing:
  "write_all bs s = (res, s') \<Longrightarrow>
   \<exists>k. outgoing s' = outgoing s @ take k bs \<and> (res = Inr () \<longrightarrow> length bs \<le> k) \<and> incoming s' = incoming s"
  by (auto simp: write_all_def split: option.splits if_splits intro: exI [of _ "length bs"])

lemma read_exact_Inr_iff:
  "read_exact n s = (Inr bs, s') \<longleftrightarrow>
   length bs = n \<and> incoming s = bs @ incoming s' \<and> s' = s\<lparr>incoming := incoming s'\<rparr>"
  by (cases s; cases s') (auto simp: read_exact_def)

lemma read_exact_0 [simp]: "read_exact 0 s = (Inr [], s)"
  by (cases s) (simp add: read_exact_def)

section \<open>Frames\<close>

text \<open>A message on the wire, and when its header announces its payload.\<close>

definition wire :: "MsgHeader \<times> u8 list \<Rightarrow> u8 list" where
  "wire m = header_wire (fst m) @ snd m"

definition framed :: "MsgHeader \<times> u8 list \<Rightarrow> bool" where
  "framed m \<longleftrightarrow> unat (payload_len (fst m)) = length (snd m)"

lemma length_header_wire: "length (header_wire h) = HEADER_SIZE"
  by simp

lemma length_wire: "length (wire m) = HEADER_SIZE + length (snd m)"
  by (simp add: wire_def)

text \<open>Reading a header never yields \<open>None\<close>: a full header buffer always parses.\<close>

lemma from_bytes_full:
  assumes "length bs = HEADER_SIZE"
  obtains h where "from_bytes bs = Ret (Some h)" "bs = header_wire h"
  using from_bytes_long [of bs] assms by auto

lemma from_bytes_header_wire: "from_bytes (header_wire h) = Ret (Some h)"
  using from_bytes_wire [of h "[]"] by simp

text \<open>Frames are prefix-free: a byte stream splits into them in one way.\<close>

lemma header_wire_inj: "header_wire h = header_wire h' \<Longrightarrow> h = h'"
  by (metis from_bytes_header_wire option.inject outcome.inject)

lemma header_split:
  assumes "header_wire h @ xs = header_wire h' @ ys"
  shows "h = h' \<and> xs = ys"
proof -
  have split: "take HEADER_SIZE (header_wire h @ xs) = header_wire h"
    "drop HEADER_SIZE (header_wire h @ xs) = xs" for h xs
    by simp_all
  have "header_wire h = header_wire h'" and "xs = ys"
    using split [of h xs] split [of h' ys] unfolding assms by (simp_all only:)
  then show ?thesis by (blast intro: header_wire_inj)
qed

lemma wire_unique:
  assumes "wire m @ r = wire m' @ r'" and "framed m" and "framed m'"
  shows "m = m' \<and> r = r'"
proof -
  have *: "fst m = fst m'" "snd m @ r = snd m' @ r'"
    using assms(1) header_split [of "fst m" "snd m @ r" "fst m'" "snd m' @ r'"]
    by (simp_all only: wire_def append_assoc)
  with assms have "length (snd m) = length (snd m')"
    by (simp add: framed_def)
  with * show ?thesis
    by (simp add: prod_eq_iff)
qed

text \<open>A stream is too short for a header, or begins with one; the header says whether a frame follows.\<close>

lemma stream_cases:
  obtains (short) "length bs < HEADER_SIZE" "\<And>m rest. bs \<noteq> wire m @ rest"
  | (header) h r where "HEADER_SIZE \<le> length bs" "from_bytes (take HEADER_SIZE bs) = Ret (Some h)"
      "drop HEADER_SIZE bs = r" "bs = header_wire h @ r"
proof (cases "HEADER_SIZE \<le> length bs")
  case False
  moreover have "bs \<noteq> wire m @ rest" for m rest
    using False length_wire [of m] by (metis le_add1 length_append trans_le_add1)
  ultimately show thesis by (intro short) auto
next
  case True
  then obtain h where "from_bytes (take HEADER_SIZE bs) = Ret (Some h)" "take HEADER_SIZE bs = header_wire h"
    using from_bytes_full [of "take HEADER_SIZE bs"] by auto
  moreover from this have "bs = header_wire h @ drop HEADER_SIZE bs"
    by (metis append_take_drop_id)
  ultimately show thesis
    using header True by blast
qed

lemma frame_iff:
  "header_wire h @ r = wire m @ rest \<and> framed m \<longleftrightarrow>
   unat (payload_len h) \<le> length r \<and> m = (h, take (unat (payload_len h)) r) \<and>
   rest = drop (unat (payload_len h)) r" (is "?l \<longleftrightarrow> ?r")
proof
  assume l: ?l
  then have "header_wire h @ r = header_wire (fst m) @ snd m @ rest"
    by (simp only: wire_def append_assoc)
  then have "h = fst m" "r = snd m @ rest"
    using header_split by blast+
  with l show ?r by (simp add: framed_def prod_eq_iff)
next
  assume r: ?r
  then show ?l
    by (simp only: wire_def framed_def fst_conv snd_conv append_assoc append_take_drop_id length_take
        min_absorb2)
qed

definition within :: "nat option \<Rightarrow> nat \<Rightarrow> bool" where
  "within cap n \<longleftrightarrow> (case cap of None \<Rightarrow> True | Some c \<Rightarrow> n \<le> c)"

text \<open>
  The contract of a reader of frames, with the bound it puts on a payload: it returns the
  next frame exactly when the stream begins with a whole one within the bound, and it never
  panics. The client's \<open>next_raw\<close> and the bus's reading of a publisher interpret it.
\<close>

locale frame_reader =
  fixes rd :: "TcpStream \<Rightarrow> ((MsgHeader \<times> u8 list) option \<times> TcpStream) outcome"
    and cap :: "nat option"
  assumes rd_total: "rd s \<noteq> Panic"
    and rd_Some: "rd s = Ret (Some m, s') \<longleftrightarrow>
      framed m \<and> within cap (length (snd m)) \<and> incoming s = wire m @ incoming s' \<and>
      s' = s\<lparr>incoming := incoming s'\<rparr>"
begin

lemma rd_wire:
  "framed m \<Longrightarrow> within cap (length (snd m)) \<Longrightarrow> incoming s = wire m @ rest \<Longrightarrow>
   rd s = Ret (Some m, s\<lparr>incoming := rest\<rparr>)"
  by (simp add: rd_Some)

lemma rd_shrinks: "rd s = Ret (Some m, s') \<Longrightarrow> length (incoming s') < length (incoming s)"
  by (simp add: rd_Some length_wire)

lemma rd_stops:
  assumes "rd s = Ret (None, s')" and "framed m" and "within cap (length (snd m))"
  shows "incoming s \<noteq> wire m @ rest"
  using assms rd_wire [of m s rest] by auto

lemma rd_None_iff:
  "(\<exists>s'. rd s = Ret (None, s')) \<longleftrightarrow>
   (\<forall>m rest. framed m \<longrightarrow> within cap (length (snd m)) \<longrightarrow> incoming s \<noteq> wire m @ rest)" (is "?l \<longleftrightarrow> ?r")
proof
  show "?l \<Longrightarrow> ?r" using rd_stops by blast
  assume r: ?r
  obtain x s' where x: "rd s = Ret (x, s')"
    using rd_total [of s] by (cases "rd s") auto
  show ?l
  proof (cases x)
    case (Some m)
    with x have "framed m" "within cap (length (snd m))" "incoming s = wire m @ incoming s'"
      using rd_Some [of s m s'] by blast+
    with r show ?thesis by blast
  qed (use x in auto)
qed

end

end
