(* ===== verification/Publisher_Client.thy ===== *)
theory Publisher_Client
  imports Net_Stream
begin

text \<open>
  The publisher SDK (\<open>publisher-client/src/lib.rs\<close>). Dialling and \<open>set_nodelay\<close> are the
  operating system's: \<open>connect\<close> takes them as arguments.
\<close>

definition MAX_PAYLOAD :: nat where
  "MAX_PAYLOAD = 1024"

definition INLINE_BUF :: nat where
  "INLINE_BUF = HEADER_SIZE + MAX_PAYLOAD"

record Publisher =
  stream :: TcpStream

definition connect ::
  "(string \<Rightarrow> io_error + TcpStream) \<Rightarrow> (TcpStream \<Rightarrow> io_error + unit) \<Rightarrow> string \<Rightarrow> io_error + Publisher" where
  "connect dial set_nodelay addr =
     (case dial addr of
        Inl e \<Rightarrow> Inl e
      | Inr s \<Rightarrow> (case set_nodelay s of Inl e \<Rightarrow> Inl e | Inr _ \<Rightarrow> Inr \<lparr>stream = s\<rparr>))"

text \<open>
  \<open>publish_raw\<close>: header and payload go out in one write from a stack buffer when they fit,
  in two writes otherwise. \<open>payload.len() as u32\<close> truncates.
\<close>

definition publish_raw ::
  "clock \<Rightarrow> Publisher \<Rightarrow> u32 \<Rightarrow> u8 \<Rightarrow> u8 list \<Rightarrow> ((io_error + unit) \<times> Publisher) outcome" where
  "publish_raw clk p ch mt payload =
     obind (header_new clk mt ch (word_of_nat (length payload))) (\<lambda>header.
     obind (to_bytes header) (\<lambda>hdr_bytes.
       let total = HEADER_SIZE + length payload in
       if total \<le> INLINE_BUF then
         obind (copy_from_slice 0 HEADER_SIZE hdr_bytes (replicate INLINE_BUF 0)) (\<lambda>buf.
         obind (copy_from_slice HEADER_SIZE total payload buf) (\<lambda>buf.
         obind (slice 0 total buf) (\<lambda>out.
           let (res, s) = write_all out (stream p) in Ret (res, p\<lparr>stream := s\<rparr>))))
       else
         (case write_all hdr_bytes (stream p) of
            (Inl e, s) \<Rightarrow> Ret (Inl e, p\<lparr>stream := s\<rparr>)
          | (Inr _, s) \<Rightarrow> let (res, s') = write_all payload s in Ret (res, p\<lparr>stream := s'\<rparr>))))"

definition publish_msg ::
  "('a \<Rightarrow> u8 list outcome) \<Rightarrow> clock \<Rightarrow> Publisher \<Rightarrow> u32 \<Rightarrow> u8 \<Rightarrow> 'a \<Rightarrow> ((io_error + unit) \<times> Publisher) outcome" where
  "publish_msg encode clk p ch mt msg =
     obind (encode msg) (\<lambda>payload. publish_raw clk p ch mt payload)"

text \<open>The header a publication carries.\<close>

definition pub_header :: "nat \<Rightarrow> u8 \<Rightarrow> u32 \<Rightarrow> u8 list \<Rightarrow> MsgHeader" where
  "pub_header ns mt ch payload =
     \<lparr>msg_type = mt, channel_id = ch, timestamp_ns = as_u64 ns, payload_len = word_of_nat (length payload)\<rparr>"

declare INLINE_BUF_def [size_consts] MAX_PAYLOAD_def [size_consts]

lemma inline_out:
  assumes "length hdr = HEADER_SIZE" and "HEADER_SIZE + length payload \<le> INLINE_BUF"
  shows "obind (copy_from_slice 0 HEADER_SIZE hdr (replicate INLINE_BUF 0)) (\<lambda>buf.
         obind (copy_from_slice HEADER_SIZE (HEADER_SIZE + length payload) payload buf) (\<lambda>buf.
         obind (slice 0 (HEADER_SIZE + length payload) buf) f)) = f (hdr @ payload)"
  using assms by (simp add: size_consts)

lemma publish_raw_eq:
  "publish_raw (Some ns) p ch mt payload =
     Ret (let (res, s) = write_all (wire (pub_header ns mt ch payload, payload)) (stream p) in
          (res, p\<lparr>stream := s\<rparr>))"
proof -
  have hdr: "header_new (Some ns) mt ch (word_of_nat (length payload)) = Ret (pub_header ns mt ch payload)"
    by (simp add: header_new_def now_ns_unwrap_def pub_header_def)
  show ?thesis
    unfolding publish_raw_def hdr Let_def obind.simps(1) to_bytes_wire
      inline_out [OF length_header_wire]
    by (auto simp: inline_out wire_def write_all_append [of "header_wire _" payload]
        split: prod.split sum.split simp del: append_Cons append_assoc)
qed

text \<open>
  One wire format, whatever the size. With a working clock \<open>publish_raw\<close> never panics
  and does what one \<open>write_all\<close> of header followed by payload does, errors and partial
  writes included, on the stack path and on the oversized path; a clock before the epoch
  panics before anything is written.
\<close>

lemma publish_raw_writes_frame:
  "publish_raw clk p ch mt payload =
     (case clk of
        None \<Rightarrow> Panic
      | Some ns \<Rightarrow>
          Ret (let (res, s) = write_all (wire (pub_header ns mt ch payload, payload)) (stream p) in
               (res, p\<lparr>stream := s\<rparr>)))"
  by (cases clk) (simp_all add: publish_raw_eq, simp add: publish_raw_def header_new_def now_ns_unwrap_def)

end
