(* ===== verification/Market_Producer.thy ===== *)
theory Market_Producer
  imports Market_Instrument Publisher_Client
begin

text \<open>
  The market data producer's \<open>main\<close> (\<open>bench/src/main.rs\<close>): the start from the environment, one
  definition for each part of the loop's body, and what a run of the loop writes to its socket.
\<close>

section \<open>The loop\<close>

record Producer =
  bus_pub :: Publisher
  instruments :: "Instrument list"
  rng :: Rng
  total_published :: u64
  heartbeat_seq :: u64
  last_stat :: Instant
  last_heartbeat :: Instant
  inst_idx :: u64

text \<open>The clock readings of one turn of the loop, in the order of the code.\<close>

record Readings =
  tick_start :: Instant
  tick_now :: clock
  pub_now :: clock
  heartbeat_check :: Instant
  heartbeat_now :: clock
  heartbeat_reset :: Instant
  stat_check :: Instant
  stat_reset :: Instant
  tick_end :: Instant

datatype BenchEvent =
  PublishFailed io_error
| Stats u64 "(string \<times> F64) list"
| Slept nat

definition one_second :: nat where
  "one_second = 1000000000"

definition publish_heartbeat :: "bool \<Rightarrow> Readings \<Rightarrow> Producer \<Rightarrow> Producer outcome" where
  "publish_heartbeat checks r p =
     (if one_second \<le> elapsed (heartbeat_check r) (last_heartbeat p) then
        obind (publish_msg heartbeat_encode (heartbeat_now r) (bus_pub p) 9000 (msg_type_as_u8 MsgType.Heartbeat)
                 \<lparr>source_id = 1, sequence_num = heartbeat_seq p\<rparr>) (\<lambda>(_, pb).
        obind (add_u checks (heartbeat_seq p) 1) (\<lambda>n.
          Ret (p\<lparr>bus_pub := pb, heartbeat_seq := n, last_heartbeat := heartbeat_reset r\<rparr>)))
      else Ret p)"

definition print_stats_line :: "Readings \<Rightarrow> Producer \<Rightarrow> (BenchEvent list \<times> Producer) outcome" where
  "print_stats_line r p =
     (if one_second \<le> elapsed (stat_check r) (last_stat p) then
        obind (index (instruments p) 0) (\<lambda>i0. obind (index (instruments p) 1) (\<lambda>i1.
        obind (index (instruments p) 2) (\<lambda>i2. obind (index (instruments p) 3) (\<lambda>i3.
          Ret ([Stats (total_published p) (map (\<lambda>i. (inst_name i, price i)) [i0, i1, i2, i3])],
               p\<lparr>last_stat := stat_reset r\<rparr>)))))
      else Ret ([], p))"

definition sleep_rest :: "nat \<Rightarrow> Readings \<Rightarrow> BenchEvent list" where
  "sleep_rest interval r =
     (let e = elapsed (tick_end r) (tick_start r) in if e < interval then [Slept (interval - e)] else [])"

definition producer_iter :: "bool \<Rightarrow> nat \<Rightarrow> Readings \<Rightarrow> Producer \<Rightarrow> (BenchEvent list \<times> Producer) outcome" where
  "producer_iter checks interval r p =
     (if instruments p = [] then Panic else
      let idx = unat (inst_idx p) mod length (instruments p) in
      obind (add_u checks (inst_idx p) 1) (\<lambda>next_idx.
      obind (index (instruments p) idx) (\<lambda>inst.
      obind (tick checks (tick_now r) inst (rng p)) (\<lambda>(t, inst, g).
        let p = p\<lparr>inst_idx := next_idx, instruments := (instruments p)[idx := inst], rng := g\<rparr> in
      obind (publish_msg price_tick_encode (pub_now r) (bus_pub p) (inst_channel_id inst)
               (msg_type_as_u8 MsgType.PriceTick) t) (\<lambda>(res, pb).
        let p = p\<lparr>bus_pub := pb\<rparr> in
        (case res of
           Inl e \<Rightarrow> Ret ([PublishFailed e, Slept 100000000], p)
         | Inr _ \<Rightarrow>
            obind (add_u checks (total_published p) 1) (\<lambda>n.
            obind (publish_heartbeat checks r (p\<lparr>total_published := n\<rparr>)) (\<lambda>p.
            obind (print_stats_line r p) (\<lambda>(ev, p).
              Ret (ev @ sleep_rest interval r, p))))))))))"

text \<open>The loop never ends by itself; a run is the turns for a list of readings.\<close>

fun producer_run :: "bool \<Rightarrow> nat \<Rightarrow> Readings list \<Rightarrow> Producer \<Rightarrow> (BenchEvent list \<times> Producer) outcome" where
  "producer_run checks interval [] p = Ret ([], p)"
| "producer_run checks interval (r # rs) p =
     obind (producer_iter checks interval r p) (\<lambda>(ev, p).
     obind (producer_run checks interval rs p) (\<lambda>(ev', p). Ret (ev @ ev', p)))"

text \<open>
  The start: \<open>Inl\<close> is \<open>exit(1)\<close> after the line that the bus cannot be reached. \<open>env\<close> is
  \<open>env::var\<close>, the interval is in nanoseconds.
\<close>

definition producer_start ::
  "(string \<Rightarrow> string option) \<Rightarrow> (string \<Rightarrow> io_error + TcpStream) \<Rightarrow> (TcpStream \<Rightarrow> io_error + unit)
     \<Rightarrow> clock \<Rightarrow> Instant \<Rightarrow> Instant \<Rightarrow> (string \<times> io_error) + (nat \<times> Producer)" where
  "producer_start env dial set_nodelay now t_stat t_heartbeat =
     (let addr = (case env ''BUS_ADDR'' of None \<Rightarrow> ''127.0.0.1:8000'' | Some a \<Rightarrow> a);
          rate_hz = (case Option.bind (env ''RATE_HZ'') parse_uint of None \<Rightarrow> 100 | Some n \<Rightarrow> (n :: u64));
          interval = unat (1000000 div max rate_hz 1) * 1000 in
      case connect dial set_nodelay addr of
        Inl e \<Rightarrow> Inl (addr, e)
      | Inr pb \<Rightarrow> Inr (interval, \<lparr>bus_pub = pb, instruments = market_instruments, rng = rng_new (bench_now_ns now),
          total_published = 0, heartbeat_seq = 0, last_stat = t_stat, last_heartbeat = t_heartbeat, inst_idx = 0\<rparr>))"

section \<open>What the producer sends\<close>

text \<open>The messages of a run: price ticks of the instruments in turn, and heartbeats counted from 0.\<close>

definition is_tick_of :: "nat \<Rightarrow> MsgHeader \<times> u8 list \<Rightarrow> bool" where
  "is_tick_of k m \<longleftrightarrow> msg_type (fst m) = 1 \<and> length (snd m) = 32 \<and> channel_id (fst m) = 1001 + word_of_nat (k mod 4) \<and>
     (\<exists>t. price_tick_decode (snd m) = Ret (Some t) \<and> instrument_id t = channel_id (fst m) \<and>
        50 \<le> unat (volume t) \<and> unat (volume t) \<le> 549 \<and>
        is_finite (f64_from_bits (last_price t)) \<and> 0 \<le> f64_val (f64_from_bits (last_price t)))"

definition is_heartbeat_of :: "nat \<Rightarrow> MsgHeader \<times> u8 list \<Rightarrow> bool" where
  "is_heartbeat_of k m \<longleftrightarrow> msg_type (fst m) = 6 \<and> length (snd m) = 12 \<and> channel_id (fst m) = 9000 \<and>
     heartbeat_decode (snd m) = Ret (Some \<lparr>source_id = 1, sequence_num = word_of_nat k\<rparr>)"

inductive market_stream :: "nat \<Rightarrow> nat \<Rightarrow> (MsgHeader \<times> u8 list) list \<Rightarrow> bool" where
  nothing: "market_stream 0 0 []"
| a_tick: "market_stream n h ms \<Longrightarrow> is_tick_of n m \<Longrightarrow> market_stream (Suc n) h (ms @ [m])"
| a_heartbeat: "market_stream n h ms \<Longrightarrow> is_heartbeat_of h m \<Longrightarrow> market_stream n (Suc h) (ms @ [m])"

text \<open>A publication on a connection that does not break.\<close>

definition sent :: "(MsgHeader \<times> u8 list) \<Rightarrow> Publisher \<Rightarrow> Publisher" where
  "sent m pb = pb\<lparr>stream := (stream pb)\<lparr>outgoing := outgoing (stream pb) @ wire m\<rparr>\<rparr>"

lemma publish_msg_sent:
  assumes "encode msg = Ret payload" and "send_room (stream pb) = None"
  shows "publish_msg encode (Some ns) pb ch mt msg = Ret (Inr (), sent (pub_header ns mt ch payload, payload) pb)"
  using assms by (simp add: publish_msg_def publish_raw_eq write_all_def sent_def)

lemma framed_pub_header: "length payload < 2 ^ 32 \<Longrightarrow> framed (pub_header ns mt ch payload, payload)"
  by (simp add: framed_def pub_header_def unat_of_nat)

definition round_robin :: "Instrument list \<Rightarrow> bool" where
  "round_robin insts \<longleftrightarrow> length insts = 4 \<and>
     (\<forall>k<4. inst_channel_id (insts ! k) = 1001 + word_of_nat k \<and> inst_instrument_id (insts ! k) = 1001 + word_of_nat k)"

definition producer_inv :: "nat \<Rightarrow> (MsgHeader \<times> u8 list) list \<Rightarrow> Producer \<Rightarrow> bool" where
  "producer_inv n ms p \<longleftrightarrow>
     list_all inst_ok (instruments p) \<and> round_robin (instruments p) \<and>
     (\<forall>i \<in> set (instruments p). unat (total_vol i) \<le> 549 * n) \<and>
     inst_idx p = word_of_nat n \<and> total_published p = word_of_nat n \<and> unat (heartbeat_seq p) \<le> n \<and>
     send_room (stream (bus_pub p)) = None \<and> outgoing (stream (bus_pub p)) = concat (map wire ms) \<and>
     list_all framed ms \<and> market_stream n (unat (heartbeat_seq p)) ms"

lemma round_robin_market: "round_robin market_instruments"
proof -
  have "k < 4 \<longleftrightarrow> k = 0 \<or> k = 1 \<or> k = 2 \<or> k = 3" for k :: nat by auto
  then show ?thesis by (auto simp: round_robin_def market_instruments_def)
qed

lemma round_robin_update:
  assumes "round_robin insts" and "k < length insts" and "i' = (insts ! k)\<lparr>price := x, total_vol := v\<rparr>"
  shows "round_robin (insts[k := i'])"
  using assms by (auto simp: round_robin_def nth_list_update)

lemma producer_inv_sent:
  "outgoing (stream pb) = concat (map wire ms) \<Longrightarrow> send_room (stream pb) = None \<Longrightarrow>
   outgoing (stream (sent m pb)) = concat (map wire (ms @ [m])) \<and> send_room (stream (sent m pb)) = None"
  by (simp add: sent_def)

lemma heartbeat_turn:
  assumes inv: "producer_inv n ms p" and n: "unat (heartbeat_seq p) < n" "n \<le> 2 ^ 50"
    and now: "heartbeat_now r = Some ns"
  shows "\<exists>ms' p'. publish_heartbeat checks r p = Ret p' \<and> producer_inv n ms' p'"
proof (cases "one_second \<le> elapsed (heartbeat_check r) (last_heartbeat p)")
  case False
  with inv show ?thesis by (auto simp: publish_heartbeat_def)
next
  case True
  let ?hb = "\<lparr>source_id = 1, sequence_num = heartbeat_seq p\<rparr>"
  obtain bs where bs: "heartbeat_encode ?hb = Ret bs" "length bs = 12"
    using heartbeat.encode_total [of ?hb] by (auto simp: HEARTBEAT_SIZE_def)
  let ?m = "(pub_header ns 6 9000 bs, bs)"
  have room: "send_room (stream (bus_pub p)) = None" using inv by (simp add: producer_inv_def)
  have "heartbeat_decode bs = Ret (Some ?hb)" using heartbeat.decode_encode [OF bs(1), of "[]"] by simp
  then have m: "is_heartbeat_of (unat (heartbeat_seq p)) ?m"
    using bs(2) by (simp add: is_heartbeat_of_def pub_header_def)
  have f: "framed ?m" using bs by (intro framed_pub_header) simp
  have n1: "unat (heartbeat_seq p + 1) = Suc (unat (heartbeat_seq p))" using n by (simp add: u64_add_one)
  have "publish_heartbeat checks r p = Ret (p\<lparr>bus_pub := sent ?m (bus_pub p),
      heartbeat_seq := heartbeat_seq p + 1, last_heartbeat := heartbeat_reset r\<rparr>)"
    using True n publish_msg_sent [of heartbeat_encode, OF bs(1) room, of ns 9000 6]
    by (simp add: publish_heartbeat_def now add_u_Ret)
  moreover have "producer_inv n (ms @ [?m]) (p\<lparr>bus_pub := sent ?m (bus_pub p),
      heartbeat_seq := heartbeat_seq p + 1, last_heartbeat := heartbeat_reset r\<rparr>)"
    using inv n(1) m f a_heartbeat [of n _ ms] producer_inv_sent [of "bus_pub p" ms ?m]
    by (simp add: producer_inv_def n1)
  ultimately show ?thesis by blast
qed

lemma stats_turn:
  assumes "producer_inv n ms p"
  shows "\<exists>ev p'. print_stats_line r p = Ret (ev, p') \<and> producer_inv n ms p'"
  using assms by (auto simp: print_stats_line_def producer_inv_def round_robin_def)

text \<open>The price tick of a turn.\<close>

lemma tick_turn:
  assumes inv: "producer_inv n ms p" and n: "n < 2 ^ 50" and now: "pub_now r = Some ns"
  obtains t inst g payload where
    "tick checks (tick_now r) (instruments p ! (n mod 4)) (rng p) = Ret (t, inst, g)"
    "publish_msg price_tick_encode (pub_now r) (bus_pub p) (inst_channel_id inst) 1 t =
       Ret (Inr (), sent (pub_header ns 1 (inst_channel_id inst) payload, payload) (bus_pub p))"
    "producer_inv (Suc n) (ms @ [(pub_header ns 1 (inst_channel_id inst) payload, payload)])
       (p\<lparr>inst_idx := inst_idx p + 1, instruments := (instruments p)[n mod 4 := inst], rng := g,
          bus_pub := sent (pub_header ns 1 (inst_channel_id inst) payload, payload) (bus_pub p),
          total_published := total_published p + 1\<rparr>)"
proof -
  let ?k = "n mod 4" and ?is = "instruments p"
  have rr: "round_robin ?is" and len: "?k < length ?is"
    using inv by (simp_all add: producer_inv_def round_robin_def)
  have i: "inst_ok (?is ! ?k)" "unat (total_vol (?is ! ?k)) \<le> 549 * n"
    using inv len by (simp_all add: producer_inv_def list_all_length)
  then have vol: "unat (total_vol (?is ! ?k)) + 549 < 2 ^ 64" using n by simp
  obtain t inst g where t: "tick checks (tick_now r) (?is ! ?k) (rng p) = Ret (t, inst, g)" "inst_ok inst"
    "inst = (?is ! ?k)\<lparr>price := price inst, total_vol := total_vol inst\<rparr>"
    "50 \<le> unat (volume t) \<and> unat (volume t) \<le> 549"
    "unat (total_vol inst) = unat (total_vol (?is ! ?k)) + unat (volume t)"
    "instrument_id t = inst_instrument_id (?is ! ?k)" "f64_from_bits (last_price t) = to_cents (price inst)"
    by (rule tick_result [OF i(1) vol])
  have ids: "inst_channel_id inst = 1001 + word_of_nat ?k" "instrument_id t = inst_channel_id inst"
    using rr t(6) arg_cong [OF t(3), of inst_channel_id] by (simp_all add: round_robin_def)
  obtain payload where pl: "price_tick_encode t = Ret payload" "length payload = 32"
    using price_tick.encode_total [of t] by (auto simp: PRICE_TICK_SIZE_def)
  have room: "send_room (stream (bus_pub p)) = None" using inv by (simp add: producer_inv_def)
  let ?m = "(pub_header ns 1 (inst_channel_id inst) payload, payload)"
  have "price_tick_decode payload = Ret (Some t)" using price_tick.decode_encode [OF pl(1), of "[]"] by simp
  then have m: "is_tick_of n ?m"
    using t(4,7) ids to_cents_val [of "price inst"] t(2) pl(2) by (simp add: is_tick_of_def pub_header_def inst_ok_def)
  have f: "framed ?m" using pl by (intro framed_pub_header) simp
  have new: "list_all inst_ok (?is[?k := inst])" "round_robin (?is[?k := inst])"
    using inv t(2) round_robin_update [OF rr len t(3)]
    by (auto simp: producer_inv_def list_all_iff dest: set_update_subset_insert [THEN subsetD])
  have vols: "\<forall>i \<in> set (?is[?k := inst]). unat (total_vol i) \<le> 549 * Suc n"
    using inv t(4,5) i(2) by (auto simp: producer_inv_def dest!: set_update_subset_insert [THEN subsetD])
  have "producer_inv (Suc n) (ms @ [?m]) (p\<lparr>inst_idx := inst_idx p + 1, instruments := ?is[?k := inst],
      rng := g, bus_pub := sent ?m (bus_pub p), total_published := total_published p + 1\<rparr>)"
    using inv new vols m f a_tick [of n _ ms ?m] producer_inv_sent [of "bus_pub p" ms ?m]
    by (auto simp: producer_inv_def)
  then show thesis
    using that [OF t(1)] publish_msg_sent [of price_tick_encode, OF pl(1) room] by (simp add: now)
qed

lemma producer_turn:
  assumes inv: "producer_inv n ms p" and n: "n < 2 ^ 50"
    and now: "pub_now r \<noteq> None" "heartbeat_now r \<noteq> None"
  shows "\<exists>ev ms' p'. producer_iter checks interval r p = Ret (ev, p') \<and> producer_inv (Suc n) ms' p'"
proof -
  obtain ns ns' where now: "pub_now r = Some ns" "heartbeat_now r = Some ns'" using now by auto
  obtain t inst g payload where
    t: "tick checks (tick_now r) (instruments p ! (n mod 4)) (rng p) = Ret (t, inst, g)"
    "publish_msg price_tick_encode (pub_now r) (bus_pub p) (inst_channel_id inst) 1 t =
       Ret (Inr (), sent (pub_header ns 1 (inst_channel_id inst) payload, payload) (bus_pub p))"
    and inv1: "producer_inv (Suc n) (ms @ [(pub_header ns 1 (inst_channel_id inst) payload, payload)])
       (p\<lparr>inst_idx := inst_idx p + 1, instruments := (instruments p)[n mod 4 := inst], rng := g,
          bus_pub := sent (pub_header ns 1 (inst_channel_id inst) payload, payload) (bus_pub p),
          total_published := total_published p + 1\<rparr>)" (is "producer_inv _ _ ?p1")
    by (rule tick_turn [OF inv n now(1)])
  have "unat (heartbeat_seq ?p1) < Suc n" using inv by (simp add: producer_inv_def)
  from heartbeat_turn [OF inv1 this _ now(2), of checks] n obtain ms2 p2 where
    p2: "publish_heartbeat checks r ?p1 = Ret p2" "producer_inv (Suc n) ms2 p2" by auto
  from stats_turn [OF p2(2)] obtain ev p3 where
    p3: "print_stats_line r p2 = Ret (ev, p3)" "producer_inv (Suc n) ms2 p3" by blast
  have idx: "unat (inst_idx p) = n" "unat (total_published p) = n" "length (instruments p) = 4"
    using inv n by (simp_all add: producer_inv_def round_robin_def unat_of_nat)
  then have "instruments p \<noteq> []" by auto
  moreover have "add_u checks (inst_idx p) 1 = Ret (inst_idx p + 1)"
    "add_u checks (total_published p) 1 = Ret (total_published p + 1)"
    using idx n by (simp_all add: add_u_Ret)
  ultimately have "producer_iter checks interval r p = Ret (ev @ sleep_rest interval r, p3)"
    using t p2(1) p3(1) by (simp add: producer_iter_def Let_def idx)
  with p3(2) show ?thesis by blast
qed

lemma producer_runs:
  assumes "producer_inv n ms p" and "n + length rs \<le> 2 ^ 50"
    and "list_all (\<lambda>r. pub_now r \<noteq> None \<and> heartbeat_now r \<noteq> None) rs"
  shows "\<exists>ev ms' p'. producer_run checks interval rs p = Ret (ev, p') \<and> producer_inv (n + length rs) ms' p'"
  using assms
proof (induction rs arbitrary: n ms p)
  case (Cons r rs)
  then obtain ev ms1 p1 where p1: "producer_iter checks interval r p = Ret (ev, p1)" "producer_inv (Suc n) ms1 p1"
    using producer_turn [of n ms p r checks interval] by auto
  with Cons.IH [OF p1(2)] Cons.prems show ?case by auto
qed auto

lemma producer_start_inv:
  assumes "producer_start env dial nodelay now ts th = Inr (interval, p)"
    and "\<And>addr s. dial addr = Inr s \<Longrightarrow> outgoing s = [] \<and> send_room s = None"
  shows "producer_inv 0 [] p"
proof -
  have "\<forall>i \<in> set market_instruments. total_vol i = 0" by (simp add: market_instruments_def)
  then show ?thesis
    using assms market_instruments_ok round_robin_market market_stream.nothing
    by (auto simp: producer_start_def Let_def connect_def producer_inv_def split: sum.splits)
qed

text \<open>
  C22: what the producer puts on the wire. On a connection that holds, with a working clock, a run of any
  number of turns (below \<open>2 ^ 50\<close>) never panics in either build, every price stays positive and finite, and the
  socket carries whole frames: the price ticks of the four instruments strictly in
  turn, each decoding to its instrument with a volume between 50 and 549 and a finite
  price, and the heartbeats of channel 9000 numbered from 0 without a gap.
\<close>

theorem producer_stream:
  assumes "producer_start env dial nodelay now ts th = Inr (interval, p0)"
    and "\<And>addr s. dial addr = Inr s \<Longrightarrow> outgoing s = [] \<and> send_room s = None"
    and "list_all (\<lambda>r. pub_now r \<noteq> None \<and> heartbeat_now r \<noteq> None) rs" and "length rs \<le> 2 ^ 50"
  shows "\<exists>ev p ms. producer_run checks interval rs p0 = Ret (ev, p) \<and>
    list_all inst_ok (instruments p) \<and> unat (total_published p) = length rs \<and>
    outgoing (stream (bus_pub p)) = concat (map wire ms) \<and> list_all framed ms \<and>
    market_stream (length rs) (unat (heartbeat_seq p)) ms"
proof -
  have "producer_inv 0 [] p0" using assms(1,2) by (rule producer_start_inv)
  from producer_runs [OF this, where rs = rs and checks = checks and interval = interval] assms(3,4) obtain ev ms p where
    p: "producer_run checks interval rs p0 = Ret (ev, p)" "producer_inv (length rs) ms p"
    by auto
  from p(2) assms(4) show ?thesis
    by (intro exI [of _ ev] exI [of _ p] exI [of _ ms]) (simp add: p(1) producer_inv_def unat_of_nat)
qed

definition demo_reading :: Readings where
  "demo_reading = \<lparr>tick_start = 0, tick_now = None, pub_now = Some 1, heartbeat_check = 2000000000,
     heartbeat_now = Some 2, heartbeat_reset = 2000000000, stat_check = 0, stat_reset = 0, tick_end = 0\<rparr>"

lemma demo_start:
  obtains p0 where "producer_start (\<lambda>_. None) (\<lambda>_. Inr \<lparr>incoming = [], outgoing = [], send_room = None\<rparr>) (\<lambda>_. Inr ())
    (Some 5) 0 0 = Inr (10000000, p0)"
proof -
  have "max (100 :: u64) 1 = 100" by (simp add: max_def word_le_nat_alt)
  then show thesis using that
    by (simp add: producer_start_def Let_def connect_def unat_div)
qed

theorem producer_stream_witness:
  "\<exists>p0 ev p ms. producer_start (\<lambda>_. None) (\<lambda>_. Inr \<lparr>incoming = [], outgoing = [], send_room = None\<rparr>) (\<lambda>_. Inr ())
       (Some 5) 0 0 = Inr (10000000, p0) \<and>
     producer_run True 10000000 [demo_reading, demo_reading] p0 = Ret (ev, p) \<and>
     unat (total_published p) = 2 \<and> outgoing (stream (bus_pub p)) = concat (map wire ms) \<and>
     market_stream 2 (unat (heartbeat_seq p)) ms"
proof -
  obtain p0 where p0: "producer_start (\<lambda>_. None) (\<lambda>_. Inr \<lparr>incoming = [], outgoing = [], send_room = None\<rparr>) (\<lambda>_. Inr ())
    (Some 5) 0 0 = Inr (10000000, p0)"
    by (rule demo_start)
  let ?rs = "[demo_reading, demo_reading]"
  have ok: "list_all (\<lambda>r. pub_now r \<noteq> None \<and> heartbeat_now r \<noteq> None) ?rs" by (simp add: demo_reading_def)
  have len: "length ?rs = 2" by simp
  have "\<exists>ev p ms. producer_run True 10000000 ?rs p0 = Ret (ev, p) \<and>
    list_all inst_ok (instruments p) \<and> unat (total_published p) = 2 \<and>
    outgoing (stream (bus_pub p)) = concat (map wire ms) \<and> list_all framed ms \<and>
    market_stream 2 (unat (heartbeat_seq p)) ms"
    using producer_stream [OF p0 _ ok, of True] unfolding len by auto
  with p0 show ?thesis by blast
qed

end
