(* ===== verification/Market_Failure.thy ===== *)
theory Market_Failure
  imports Market_Producer
begin

text \<open>
  The market data producer after its connection has broken: the error branch of the loop
  (\<open>bench/src/main.rs\<close>), taken in every turn from then on.
\<close>

text \<open>The bytes of a tick do not fit into what the connection still takes.\<close>

lemma publish_msg_broken:
  assumes "encode msg = Ret payload" and "send_room (stream pb) = Some k" and "k < HEADER_SIZE + length payload"
  shows "\<exists>bs pb'. publish_msg encode (Some ns) pb ch mt msg = Ret (Inl BrokenPipe, pb') \<and> length bs = k \<and>
    send_room (stream pb') = Some 0 \<and> outgoing (stream pb') = outgoing (stream pb) @ bs"
proof -
  let ?w = "wire (pub_header ns mt ch payload, payload)"
  have k: "k < length ?w" using assms(3) by (simp add: length_wire del: HEADER_SIZE_def)
  then have "write_all ?w (stream pb) =
      (Inl BrokenPipe, (stream pb)\<lparr>outgoing := outgoing (stream pb) @ take k ?w, send_room := Some 0\<rparr>)"
    by (simp add: write_all_def assms(2))
  then have "publish_msg encode (Some ns) pb ch mt msg = Ret (Inl BrokenPipe,
      pb\<lparr>stream := (stream pb)\<lparr>outgoing := outgoing (stream pb) @ take k ?w, send_room := Some 0\<rparr>\<rparr>)"
    by (simp add: publish_msg_def assms(1) publish_raw_eq)
  moreover have "length (take k ?w) = k" using k by simp
  ultimately show ?thesis by (intro exI [of _ "take k ?w"]) auto
qed

text \<open>What a turn needs of the producer's state, with room for \<open>n\<close> more turns in its counters.\<close>

definition can_turn :: "nat \<Rightarrow> Producer \<Rightarrow> bool" where
  "can_turn n p \<longleftrightarrow> instruments p \<noteq> [] \<and> list_all inst_ok (instruments p) \<and>
     (\<forall>i \<in> set (instruments p). unat (total_vol i) + 549 * n < 2 ^ 64) \<and> unat (inst_idx p) + n < 2 ^ 64"

lemma broken_turn:
  assumes can: "can_turn (Suc n) p" and room: "send_room (stream (bus_pub p)) = Some k" "k < 49"
    and now: "pub_now r = Some ns"
  shows "\<exists>p' bs. producer_iter checks interval r p = Ret ([PublishFailed BrokenPipe, Slept 100000000], p') \<and>
    can_turn n p' \<and> send_room (stream (bus_pub p')) = Some 0 \<and> length bs = k \<and>
    outgoing (stream (bus_pub p')) = outgoing (stream (bus_pub p)) @ bs \<and>
    total_published p' = total_published p \<and> heartbeat_seq p' = heartbeat_seq p"
proof -
  let ?is = "instruments p" and ?k = "unat (inst_idx p) mod length (instruments p)"
  have ne: "?is \<noteq> []" and len: "?k < length ?is" using can by (simp_all add: can_turn_def)
  have i: "inst_ok (?is ! ?k)" "unat (total_vol (?is ! ?k)) + 549 * Suc n < 2 ^ 64"
    using can len by (simp_all add: can_turn_def list_all_length)
  then have vol: "unat (total_vol (?is ! ?k)) + 549 < 2 ^ 64" by simp
  obtain t inst g where t: "tick checks (tick_now r) (?is ! ?k) (rng p) = Ret (t, inst, g)" "inst_ok inst"
    "unat (total_vol inst) = unat (total_vol (?is ! ?k)) + unat (volume t)" "unat (volume t) \<le> 549"
    by (rule tick_result [OF i(1) vol]) blast
  obtain payload where pl: "price_tick_encode t = Ret payload" "length payload = 32"
    using price_tick.encode_total [of t] by (auto simp: PRICE_TICK_SIZE_def)
  have "k < HEADER_SIZE + length payload" using room(2) pl(2) by (simp add: HEADER_SIZE_def)
  from publish_msg_broken [of price_tick_encode, OF pl(1) room(1) this] obtain bs pb where
    pb: "publish_msg price_tick_encode (Some ns) (bus_pub p) (inst_channel_id inst) 1 t = Ret (Inl BrokenPipe, pb)"
    "length bs = k" "send_room (stream pb) = Some 0" "outgoing (stream pb) = outgoing (stream (bus_pub p)) @ bs"
    by blast
  have idx: "unat (inst_idx p) + 1 < 2 ^ 64" using can by (simp add: can_turn_def)
  then have one: "add_u checks (inst_idx p) 1 = Ret (inst_idx p + 1)" "unat (inst_idx p + 1) = unat (inst_idx p) + 1"
    by (simp_all add: add_u_Ret unat_add_lem [THEN iffD1])
  let ?p = "p\<lparr>inst_idx := inst_idx p + 1, instruments := ?is[?k := inst], rng := g, bus_pub := pb\<rparr>"
  have "producer_iter checks interval r p = Ret ([PublishFailed BrokenPipe, Slept 100000000], ?p)"
    using ne len t(1) pb(1) one(1) by (simp add: producer_iter_def Let_def now)
  moreover have "can_turn n ?p"
  proof -
    have room': "unat (total_vol inst) + 549 * n < 2 ^ 64" using i(2) t(3,4) by simp
    have "inst_ok i \<and> unat (total_vol i) + 549 * n < 2 ^ 64" if "i \<in> set (?is[?k := inst])" for i
    proof -
      have "i = inst \<or> i \<in> set ?is" using set_update_subset_insert that by fastforce
      then show ?thesis using can t(2) room' by (auto simp: can_turn_def list_all_iff)
    qed
    then show ?thesis using can one(2) by (simp add: can_turn_def list_all_iff)
  qed
  ultimately show ?thesis using pb(2-4) by (intro exI [of _ ?p] exI [of _ bs]) simp
qed

text \<open>
  C39: a broken connection. Once the socket takes less than a tick's frame, every later turn prints the error and sleeps
  a tenth of a second: the producer never reconnects, counts nothing as
  published, sends no heartbeat, and puts no whole frame on the wire again.
\<close>

theorem producer_broken:
  assumes "can_turn (length rs) p" and "send_room (stream (bus_pub p)) = Some k" and "k < 49"
    and "list_all (\<lambda>r. pub_now r \<noteq> None) rs"
  shows "\<exists>p' bs. producer_run checks interval rs p =
      Ret (concat (replicate (length rs) [PublishFailed BrokenPipe, Slept 100000000]), p') \<and>
    total_published p' = total_published p \<and> heartbeat_seq p' = heartbeat_seq p \<and>
    outgoing (stream (bus_pub p')) = outgoing (stream (bus_pub p)) @ bs \<and> length bs \<le> k"
  using assms
proof (induction rs arbitrary: p k)
  case (Cons r rs)
  then obtain ns where "pub_now r = Some ns" by auto
  with Cons.prems broken_turn [of "length rs" p k r ns checks interval] obtain p1 bs1 where
    p1: "producer_iter checks interval r p = Ret ([PublishFailed BrokenPipe, Slept 100000000], p1)"
    "can_turn (length rs) p1" "send_room (stream (bus_pub p1)) = Some 0" "length bs1 = k"
    "outgoing (stream (bus_pub p1)) = outgoing (stream (bus_pub p)) @ bs1"
    "total_published p1 = total_published p" "heartbeat_seq p1 = heartbeat_seq p"
    by auto
  from Cons.IH [OF p1(2,3)] Cons.prems(4) p1 show ?case by auto
qed simp

definition failing_producer :: Producer where
  "failing_producer = \<lparr>bus_pub = \<lparr>stream = \<lparr>incoming = [], outgoing = [], send_room = Some 20\<rparr>\<rparr>,
     instruments = market_instruments, rng = rng_new 7, total_published = 3, heartbeat_seq = 1,
     last_stat = 0, last_heartbeat = 0, inst_idx = 3\<rparr>"

theorem producer_broken_witness:
  "\<exists>p' bs. producer_run True 10000000 [demo_reading, demo_reading] failing_producer =
      Ret ([PublishFailed BrokenPipe, Slept 100000000, PublishFailed BrokenPipe, Slept 100000000], p') \<and>
    total_published p' = 3 \<and> outgoing (stream (bus_pub p')) = bs \<and> length bs \<le> 20"
proof -
  have v: "total_vol i = 0" if "i \<in> set market_instruments" for i
    using that by (auto simp: market_instruments_def)
  have ne: "market_instruments \<noteq> []" by (simp add: market_instruments_def)
  have "can_turn (length [demo_reading, demo_reading]) failing_producer"
    using market_instruments_ok by (simp add: can_turn_def failing_producer_def v ne)
  from producer_broken [OF this, of 20 True 10000000] have
    "\<exists>p' bs. producer_run True 10000000 [demo_reading, demo_reading] failing_producer =
      Ret (concat (replicate 2 [PublishFailed BrokenPipe, Slept 100000000]), p') \<and>
      total_published p' = total_published failing_producer \<and>
      outgoing (stream (bus_pub p')) = outgoing (stream (bus_pub failing_producer)) @ bs \<and> length bs \<le> 20"
    by (auto simp: failing_producer_def demo_reading_def numeral_2_eq_2 simp del: producer_run.simps)
  then show ?thesis by (simp add: failing_producer_def numeral_2_eq_2 del: producer_run.simps)
qed

end
