(* ===== verification/Bus_Handlers.thy ===== *)
theory Bus_Handlers
  imports Ring_Run Net_Stream
begin

text \<open>
  The handlers of the bus (\<open>bus/src/main.rs\<close>), one definition for each function or loop
  body: the fan-out of the dispatch thread, the handshake, the publisher's loop and the
  subscriber's I/O loop. What the threads share besides the ring is the record \<open>Shared\<close>;
  a connection's thread is a \<open>Conn\<close>, the place it has reached and the stream it owns.
\<close>

section \<open>Shared state\<close>

definition DEFAULT_QUEUE_DEPTH :: nat where
  "DEFAULT_QUEUE_DEPTH = 8192"

type_synonym Frame = "u8 list"
type_synonym SocketAddr = string

text \<open>
  \<open>mpsc::sync_channel\<close>: a bounded buffer. The two ends hold its number in the list of
  channels ever made.
\<close>

record Chan =
  buffer :: "Frame list"
  bound :: nat

record SubEntry =
  tx :: nat
  channels :: "u32 set"
  filter_all :: bool
  addr :: SocketAddr

text \<open>What the bus prints, as far as it tells of the handling of a connection or message.\<close>

datatype LogLine =
  SubscriberSlow u64 SocketAddr u32
| DispatchFellBehind
| MalformedHeader SocketAddr
| SubscribeTooLarge SocketAddr
| SubscriberUp SocketAddr u64
| SubscriberGone u64 SocketAddr
| PublisherUp SocketAddr
| PublisherGone SocketAddr
| PublishTooLarge SocketAddr
| IncompletePayload SocketAddr

record Shared =
  registry :: "(u64, SubEntry) HashMap"
  chans :: "Chan list"
  sub_id :: u64
  printed :: "LogLine list"

definition print :: "LogLine \<Rightarrow> Shared \<Rightarrow> Shared" where
  "print l s = s\<lparr>printed := printed s @ [l]\<rparr>"

definition sync_channel :: "nat \<Rightarrow> Shared \<Rightarrow> nat \<times> Shared" where
  "sync_channel n s = (length (chans s), s\<lparr>chans := chans s @ [\<lparr>buffer = [], bound = n\<rparr>]\<rparr>)"

text \<open>
  \<open>try_send\<close> never blocks: \<open>None\<close> is its error. The receiver outlives the registry entry
  that holds the sender, so the error is always a full buffer.
\<close>

definition try_send :: "nat \<Rightarrow> Frame \<Rightarrow> Chan list \<Rightarrow> Chan list option" where
  "try_send h f cs =
     (if length (buffer (cs ! h)) < bound (cs ! h)
      then Some (cs[h := (cs ! h)\<lparr>buffer := buffer (cs ! h) @ [f]\<rparr>]) else None)"

datatype RecvResult = Blocks | Received Frame "Chan list" | Disconnected

definition recv :: "nat \<Rightarrow> Shared \<Rightarrow> RecvResult" where
  "recv h s =
     (case buffer (chans s ! h) of
        f # fs \<Rightarrow> Received f ((chans s)[h := (chans s ! h)\<lparr>buffer := fs\<rparr>])
      | [] \<Rightarrow> if list_ex (\<lambda>(_, e). tx e = h) (registry s) then Blocks else Disconnected)"

section \<open>Dispatch\<close>

text \<open>The body of the \<open>for\<close> loop over the registry.\<close>

definition fan_out :: "Frame \<Rightarrow> u32 \<Rightarrow> u64 \<times> SubEntry \<Rightarrow> Shared \<Rightarrow> Shared" where
  "fan_out frame ch e s =
     (let (sid, entry) = e in
      if \<not> filter_all entry \<and> ch \<notin> channels entry then s
      else (case try_send (tx entry) frame (chans s) of
              None \<Rightarrow> print (SubscriberSlow sid (addr entry) ch) s
            | Some cs \<Rightarrow> s\<lparr>chans := cs\<rparr>))"

text \<open>The closure handed to \<open>consume_one\<close>: build the frame once, offer it to every subscriber.\<close>

definition dispatch_msg :: "SlotData \<Rightarrow> Shared \<Rightarrow> Shared outcome" where
  "dispatch_msg d s =
     (let hdr = \<lparr>msg_type = d_msg_type d, channel_id = d_channel_id d,
                 timestamp_ns = d_timestamp_ns d, payload_len = ucast (d_payload_len d)\<rparr>;
          plen = unat (d_payload_len d)
      in obind (to_bytes hdr) (\<lambda>hdr_bytes.
         obind (slice 0 plen (d_payload d)) (\<lambda>payload.
           let frame = hdr_bytes @ payload in
           Ret (fold (fan_out frame (d_channel_id d)) (registry s) s))))"

text \<open>One turn of \<open>dispatch_loop\<close>; \<open>None\<close> while \<open>consume_one\<close> still waits.\<close>

definition dispatch_iter :: "(nat \<Rightarrow> Ring) \<Rightarrow> nat \<Rightarrow> Shared \<Rightarrow> (Ring \<times> Shared) outcome option" where
  "dispatch_iter env consumer_id s =
     (case consume_one env consumer_id dispatch_msg s of
        None \<Rightarrow> None
      | Some Panic \<Rightarrow> Some Panic
      | Some (Ret (result, r, s')) \<Rightarrow>
          Some (Ret (case result of
                       Inl FellBehind \<Rightarrow> (r, print DispatchFellBehind s')
                     | Inr _ \<Rightarrow> (r, s'))))"

section \<open>Connections\<close>

text \<open>
  Where the thread of a connection is: at the handshake, in the loop of \<open>publish_one\<close>, at
  the top of the loop of \<open>run_publisher\<close> or \<open>run_subscriber_io\<close>, past the latter's loop, or
  at its end.
\<close>

datatype Conn =
  Handshake TcpStream "SocketAddr option"
| PublishOne MsgHeader "u8 list" TcpStream SocketAddr
| RunPublisher TcpStream SocketAddr
| SubscriberIo TcpStream nat u64 SocketAddr
| SubscriberLeaving TcpStream u64 SocketAddr
| Closed TcpStream

text \<open>\<open>chunks_exact(4)\<close>: a remainder shorter than four bytes is left out.\<close>

fun chunks_exact4 :: "'a list \<Rightarrow> 'a list list" where
  "chunks_exact4 (a # b # c # d # rest) = [a, b, c, d] # chunks_exact4 rest"
| "chunks_exact4 _ = []"

definition MAX_SUBSCRIBE :: nat where
  "MAX_SUBSCRIBE = 256 * 4"

text \<open>
  The payloads go through arrays of fixed size. \<open>&mut buf[..plen]\<close> panics where \<open>plen\<close>, which
  came over the wire, exceeds the array; the slice is then filled by \<open>read_exact\<close>.
\<close>

definition read_into :: "nat \<Rightarrow> u8 list \<Rightarrow> TcpStream \<Rightarrow> ((io_error + unit) \<times> u8 list \<times> TcpStream) outcome" where
  "read_into plen buf stream =
     obind (slice 0 plen buf) (\<lambda>dst.
       Ret (case read_exact (length dst) stream of
              (Inl e, stream) \<Rightarrow> (Inl e, buf, stream)
            | (Inr bs, stream) \<Rightarrow> (Inr (), bs @ drop plen buf, stream)))"

definition subscriber_handshake ::
  "MsgHeader \<Rightarrow> TcpStream \<Rightarrow> SocketAddr \<Rightarrow> Shared \<Rightarrow> (Conn \<times> Shared) outcome" where
  "subscriber_handshake header stream peer s =
     (let plen = unat (payload_len header);
          ch_payload = replicate MAX_SUBSCRIBE 0
      in
      if \<not> plen \<le> length ch_payload then Ret (Closed stream, print (SubscribeTooLarge peer) s)
      else obind (slice 0 plen ch_payload) (\<lambda>ch_slice.
        case (if plen > 0 then read_exact (length ch_slice) stream else (Inr ch_slice, stream)) of
              (Inl _, stream) \<Rightarrow> Ret (Closed stream, s)
            | (Inr ch_slice, stream) \<Rightarrow>
                let chs = set (map from_le_bytes (chunks_exact4 ch_slice));
                    (rx, s) = sync_channel DEFAULT_QUEUE_DEPTH s;
                    sid = sub_id s;
                    s = s\<lparr>sub_id := sub_id s + 1\<rparr>;
                    all = (chs = {});
                    s = print (SubscriberUp peer sid) s;
                    entry = \<lparr>tx = rx, channels = chs, filter_all = all, addr = peer\<rparr>
                in Ret (SubscriberIo stream rx sid peer, s\<lparr>registry := hash_insert sid entry (registry s)\<rparr>)))"

definition publisher_handshake ::
  "MsgHeader \<Rightarrow> TcpStream \<Rightarrow> SocketAddr \<Rightarrow> Shared \<Rightarrow> (Conn \<times> Shared) outcome" where
  "publisher_handshake header stream peer s =
     (let plen = unat (payload_len header);
          first_payload = replicate PAYLOAD_CAP 0
      in
      if plen > PAYLOAD_CAP then Ret (Closed stream, print (PublishTooLarge peer) s)
      else obind (if plen > 0 then read_into plen first_payload stream else Ret (Inr (), first_payload, stream))
        (\<lambda>(res, first_payload, stream). case res of
              Inl _ \<Rightarrow> Ret (Closed stream, s)
            | Inr _ \<Rightarrow> obind (slice 0 plen first_payload) (\<lambda>payload.
                Ret (PublishOne header payload stream peer, print (PublisherUp peer) s))))"

definition handle_connection :: "TcpStream \<Rightarrow> SocketAddr option \<Rightarrow> Shared \<Rightarrow> (Conn \<times> Shared) outcome" where
  "handle_connection stream peer_addr s =
     (case peer_addr of
        None \<Rightarrow> Ret (Closed stream, s)
      | Some peer \<Rightarrow>
         (case read_exact HEADER_SIZE stream of
            (Inl _, stream) \<Rightarrow> Ret (Closed stream, s)
          | (Inr hdr_buf, stream) \<Rightarrow>
             obind (from_bytes hdr_buf) (\<lambda>parsed.
               case parsed of
                 None \<Rightarrow> Ret (Closed stream, print (MalformedHeader peer) s)
               | Some header \<Rightarrow>
                   if msg_type header = 0 then subscriber_handshake header stream peer s
                   else publisher_handshake header stream peer s)))"

text \<open>
  One turn of \<open>run_publisher\<close>, up to the call of \<open>publish_one\<close>. The array \<open>payload_buf\<close> keeps
  the bytes of earlier turns behind the slice it is read through; nothing looks at them, so a
  turn starts with a fresh array of the same size.
\<close>

definition publisher_read :: "TcpStream \<Rightarrow> SocketAddr \<Rightarrow> Shared \<Rightarrow> (Conn \<times> Shared) outcome" where
  "publisher_read stream peer s =
     (case read_exact HEADER_SIZE stream of
        (Inl _, stream) \<Rightarrow> Ret (Closed stream, print (PublisherGone peer) s)
      | (Inr hdr_buf, stream) \<Rightarrow>
         obind (from_bytes hdr_buf) (\<lambda>parsed.
           case parsed of
             None \<Rightarrow> Ret (Closed stream, print (MalformedHeader peer) s)
           | Some header \<Rightarrow>
              let plen = unat (payload_len header);
                  payload_buf = replicate PAYLOAD_CAP 0
              in
              if plen > PAYLOAD_CAP then Ret (Closed stream, print (PublishTooLarge peer) s)
              else obind (if plen > 0 then read_into plen payload_buf stream else Ret (Inr (), payload_buf, stream))
                (\<lambda>(res, payload_buf, stream). case res of
                      Inl _ \<Rightarrow> Ret (Closed stream, print (IncompletePayload peer) s)
                    | Inr _ \<Rightarrow> obind (slice 0 plen payload_buf) (\<lambda>payload.
                        Ret (PublishOne header payload stream peer, s)))))"

text \<open>
  Within the bound the arrays do not show: the handlers read the payload off the stream. Each
  equation uses the guard in front of the slice; without it the slice would panic.
\<close>

lemma read_into_Ret:
  "plen \<le> length buf \<Longrightarrow>
   read_into plen buf st =
     Ret (case read_exact plen st of
            (Inl e, st') \<Rightarrow> (Inl e, buf, st') | (Inr bs, st') \<Rightarrow> (Inr (), bs @ drop plen buf, st'))"
  by (simp add: read_into_def)

lemma read_into_Panic: "length buf < plen \<Longrightarrow> read_into plen buf st = Panic"
  by (simp add: read_into_def slice_def)

lemma read_payload_buf:
  assumes "plen \<le> length buf"
  shows "obind (if plen > 0 then read_into plen buf st else Ret (Inr (), buf, st))
      (\<lambda>(res, buf, st'). case res of
         Inl _ \<Rightarrow> f st' | Inr _ \<Rightarrow> obind (slice 0 plen buf) (\<lambda>payload. g payload st')) =
    (case (if plen > 0 then read_exact plen st else (Inr [], st)) of
       (Inl _, st') \<Rightarrow> f st' | (Inr payload, st') \<Rightarrow> g payload st')"
  using assms by (simp add: read_into_Ret read_exact_def)

lemma subscriber_handshake_Ret:
  "subscriber_handshake header stream peer s =
     Ret (let plen = unat (payload_len header) in
      if \<not> plen \<le> MAX_SUBSCRIBE then (Closed stream, print (SubscribeTooLarge peer) s)
      else (case (if plen > 0 then read_exact plen stream else (Inr [], stream)) of
              (Inl _, stream) \<Rightarrow> (Closed stream, s)
            | (Inr ch_slice, stream) \<Rightarrow>
                let chs = set (map from_le_bytes (chunks_exact4 ch_slice));
                    (rx, s) = sync_channel DEFAULT_QUEUE_DEPTH s;
                    sid = sub_id s;
                    s = print (SubscriberUp peer sid) (s\<lparr>sub_id := sub_id s + 1\<rparr>);
                    entry = \<lparr>tx = rx, channels = chs, filter_all = (chs = {}), addr = peer\<rparr>
                in (SubscriberIo stream rx sid peer, s\<lparr>registry := hash_insert sid entry (registry s)\<rparr>)))"
  by (cases "unat (payload_len header) \<le> MAX_SUBSCRIBE")
    (simp_all add: subscriber_handshake_def Let_def split: prod.split sum.split)

lemma publisher_handshake_Ret:
  "publisher_handshake header stream peer s =
     Ret (let plen = unat (payload_len header) in
      if plen > PAYLOAD_CAP then (Closed stream, print (PublishTooLarge peer) s)
      else (case (if plen > 0 then read_exact plen stream else (Inr [], stream)) of
              (Inl _, stream) \<Rightarrow> (Closed stream, s)
            | (Inr payload, stream) \<Rightarrow>
                (PublishOne header payload stream peer, print (PublisherUp peer) s)))"
  by (cases "PAYLOAD_CAP < unat (payload_len header)")
    (simp_all add: publisher_handshake_def Let_def read_payload_buf split: prod.split sum.split)

lemma publisher_read_eq:
  "publisher_read stream peer s =
     (case read_exact HEADER_SIZE stream of
        (Inl _, stream) \<Rightarrow> Ret (Closed stream, print (PublisherGone peer) s)
      | (Inr hdr_buf, stream) \<Rightarrow>
         obind (from_bytes hdr_buf) (\<lambda>parsed.
           case parsed of
             None \<Rightarrow> Ret (Closed stream, print (MalformedHeader peer) s)
           | Some header \<Rightarrow>
              let plen = unat (payload_len header) in
              if plen > PAYLOAD_CAP then Ret (Closed stream, print (PublishTooLarge peer) s)
              else (case (if plen > 0 then read_exact plen stream else (Inr [], stream)) of
                      (Inl _, stream) \<Rightarrow> Ret (Closed stream, print (IncompletePayload peer) s)
                    | (Inr payload, stream) \<Rightarrow> Ret (PublishOne header payload stream peer, s))))"
proof -
  have "(if plen > PAYLOAD_CAP then x
         else obind (if plen > 0 then read_into plen (replicate PAYLOAD_CAP 0) st else Ret (Inr (), replicate PAYLOAD_CAP 0, st))
           (\<lambda>(res, buf, st'). case res of
              Inl _ \<Rightarrow> f st' | Inr _ \<Rightarrow> obind (slice 0 plen buf) (\<lambda>payload. g payload st'))) =
    (if plen > PAYLOAD_CAP then x
     else case (if plen > 0 then read_exact plen st else (Inr [], st)) of
       (Inl _, st') \<Rightarrow> f st' | (Inr payload, st') \<Rightarrow> g payload st')"
    for plen st f g and x :: "(Conn \<times> Shared) outcome"
    by (cases "plen > PAYLOAD_CAP") (simp_all add: read_payload_buf)
  then show ?thesis
    unfolding publisher_read_def Let_def by (simp only:)
qed

text \<open>One turn of \<open>publish_one\<close>: a publication under the lock; a slow consumer is tried again.\<close>

definition publish_attempt ::
  "Ring \<Rightarrow> clock \<Rightarrow> MsgHeader \<Rightarrow> u8 list \<Rightarrow> TcpStream \<Rightarrow> SocketAddr \<Rightarrow> Shared \<Rightarrow> Conn \<times> Ring \<times> Shared" where
  "publish_attempt r clk header payload stream peer s =
     (case publish r clk (channel_id header) (msg_type header) payload of
        (Inr _, r') \<Rightarrow> (RunPublisher stream peer, r', s)
      | (Inl SlowConsumer, r') \<Rightarrow> (PublishOne header payload stream peer, r', s)
      | (Inl PayloadTooLarge, r') \<Rightarrow> (RunPublisher stream peer, r', print (PublishTooLarge peer) s))"

text \<open>
  The loop of \<open>publish_one\<close>: the \<open>i\<close>-th attempt finds the ring \<open>env i\<close> and the clock \<open>clks i\<close>.
  \<open>None\<close> is a loop that never ends.
\<close>

partial_function (option) publish_one ::
  "(nat \<Rightarrow> Ring) \<Rightarrow> (nat \<Rightarrow> clock) \<Rightarrow> MsgHeader \<Rightarrow> u8 list \<Rightarrow> nat \<Rightarrow> ((PublishError + unit) \<times> Ring \<times> nat) option" where
  "publish_one env clks header payload i =
     (case publish (env i) (clks i) (channel_id header) (msg_type header) payload of
        (Inr x, r) \<Rightarrow> Some (Inr x, r, i)
      | (Inl e, r) \<Rightarrow>
          (if e = SlowConsumer then publish_one env clks header payload (Suc i) else Some (Inl e, r, i)))"

declare DEFAULT_QUEUE_DEPTH_def [size_consts] MAX_SUBSCRIBE_def [size_consts]

section \<open>Subscriber I/O\<close>

text \<open>One turn of \<open>run_subscriber_io\<close>; \<open>None\<close> while \<open>recv\<close> blocks.\<close>

definition subscriber_io_iter ::
  "TcpStream \<Rightarrow> nat \<Rightarrow> u64 \<Rightarrow> SocketAddr \<Rightarrow> Shared \<Rightarrow> (Conn \<times> Shared) option" where
  "subscriber_io_iter stream rx sid peer s =
     (case recv rx s of
        Blocks \<Rightarrow> None
      | Disconnected \<Rightarrow> Some (SubscriberLeaving stream sid peer, s)
      | Received frame cs \<Rightarrow>
         (case write_all frame stream of
            (Inr _, stream) \<Rightarrow> Some (SubscriberIo stream rx sid peer, s\<lparr>chans := cs\<rparr>)
          | (Inl _, stream) \<Rightarrow>
              Some (SubscriberLeaving stream sid peer, print (SubscriberGone sid peer) (s\<lparr>chans := cs\<rparr>))))"

definition subscriber_leave :: "u64 \<Rightarrow> Shared \<Rightarrow> Shared" where
  "subscriber_leave sid s = s\<lparr>registry := hash_remove sid (registry s)\<rparr>"

end
