(* ===== verification/Bus_Dispatch.thy ===== *)
theory Bus_Dispatch
  imports Bus_Handlers Ring_Props
begin

text \<open>
  The dispatch thread: what one turn of its loop does to the queues of the subscribers, and
  that it neither panics nor falls behind on a ring that represents a log.
\<close>

section \<open>Frames\<close>

definition msg_header :: "Msg \<Rightarrow> MsgHeader" where
  "msg_header m = \<lparr>msg_type = m_msg_type m, channel_id = m_channel_id m,
                   timestamp_ns = m_timestamp_ns m, payload_len = word_of_nat (length (m_payload m))\<rparr>"

definition frame_of :: "Msg \<Rightarrow> Frame" where
  "frame_of m = wire (msg_header m, m_payload m)"

definition matches :: "SubEntry \<Rightarrow> u32 \<Rightarrow> bool" where
  "matches e ch \<longleftrightarrow> filter_all e \<or> ch \<in> channels e"

lemma dispatch_msg_ok:
  assumes "data_ok d"
  shows "dispatch_msg d s =
    Ret (fold (fan_out (frame_of (msg_of_data d)) (m_channel_id (msg_of_data d))) (registry s) s)"
proof -
  let ?n = "unat (d_payload_len d)"
  have "min (length (d_payload d)) ?n = ?n"
    using assms by (simp add: data_ok_def)
  then have "\<lparr>msg_type = d_msg_type d, channel_id = d_channel_id d,
      timestamp_ns = d_timestamp_ns d, payload_len = ucast (d_payload_len d)\<rparr> = msg_header (msg_of_data d)"
    by (simp add: msg_header_def msg_of_data_def)
  then show ?thesis
    using assms by (simp add: dispatch_msg_def Let_def data_ok_def frame_of_def wire_def msg_of_data_def)
qed

section \<open>Fan-out\<close>

definition full :: "Chan \<Rightarrow> bool" where
  "full c \<longleftrightarrow> \<not> length (buffer c) < bound c"

definition offer :: "Frame \<Rightarrow> u32 \<Rightarrow> (u64 \<times> SubEntry) list \<Rightarrow> nat \<Rightarrow> Chan \<Rightarrow> Chan" where
  "offer f ch es h c =
     (if list_ex (\<lambda>(_, e). tx e = h \<and> matches e ch) es \<and> \<not> full c then c\<lparr>buffer := buffer c @ [f]\<rparr> else c)"

definition slow_lines :: "u32 \<Rightarrow> (u64 \<times> SubEntry) list \<Rightarrow> Chan list \<Rightarrow> LogLine list" where
  "slow_lines ch es cs =
     map (\<lambda>(i, e). SubscriberSlow i (addr e) ch) (filter (\<lambda>(_, e). matches e ch \<and> full (cs ! tx e)) es)"

definition offered :: "Frame \<Rightarrow> u32 \<Rightarrow> (u64 \<times> SubEntry) list \<Rightarrow> Shared \<Rightarrow> Shared" where
  "offered f ch es s =
     s\<lparr>chans := map (\<lambda>h. offer f ch es h (chans s ! h)) [0..<length (chans s)],
       printed := printed s @ slow_lines ch es (chans s)\<rparr>"

lemma length_offered [simp]: "length (chans (offered f ch es s)) = length (chans s)"
  by (simp add: offered_def)

text \<open>
  The loop over the registry offers the frame to every matching subscriber independently:
  the order of the iteration does not matter, as no two entries share a queue.
\<close>

lemma fold_fan_out:
  assumes "distinct (map (tx \<circ> snd) es)" and "\<forall>(i, e)\<in>set es. tx e < length (chans s)"
  shows "fold (fan_out f ch) es s = offered f ch es s"
  using assms
proof (induction es arbitrary: s)
  case Nil
  then show ?case
    by (cases s) (simp add: offered_def offer_def slow_lines_def map_nth)
next
  case (Cons ie es)
  obtain i e where ie: "ie = (i, e)" by (cases ie)
  let ?h = "tx e" and ?s = "fan_out f ch ie s"
  have h: "?h < length (chans s)" and fresh: "\<forall>(j, e')\<in>set es. tx e' \<noteq> ?h"
    using Cons.prems ie by (force simp: comp_def)+
  have step: "?s = s\<lparr>chans := (chans s)[?h := offer f ch [ie] ?h (chans s ! ?h)],
                    printed := printed s @ slow_lines ch [ie] (chans s)\<rparr>"
    using h by (cases s) (auto simp: fan_out_def ie try_send_def offer_def slow_lines_def matches_def full_def
        print_def list_update_id split: option.split)
  have "fold (fan_out f ch) (ie # es) s = offered f ch es ?s"
    using Cons.prems by (simp, subst Cons.IH) (auto simp: step comp_def)
  also have "\<dots> = offered f ch (ie # es) s"
  proof -
    have "offer f ch es k ((chans s)[?h := offer f ch [ie] ?h (chans s ! ?h)] ! k) = offer f ch (ie # es) k (chans s ! k)"
      if "k < length (chans s)" for k
      using that h fresh by (cases "k = ?h") (auto simp: offer_def ie list_ex_iff)
    moreover have "slow_lines ch es ((chans s)[?h := offer f ch [ie] ?h (chans s ! ?h)]) = slow_lines ch es (chans s)"
      using fresh by (auto simp: slow_lines_def intro!: arg_cong [where f = "map _"] filter_cong)
    ultimately show ?thesis
      by (simp add: offered_def step) (simp add: slow_lines_def)
  qed
  finally show ?case .
qed

section \<open>A turn of the loop\<close>

lemma consume_one_log:
  assumes rel: "ring_rel a r" and cid: "cid < MAX_CONSUMERS" and p: "positions a ! cid = Some k"
  shows "k < length (msgs a) \<Longrightarrow>
      \<exists>d. data_ok d \<and> msg_of_data d = msgs a ! k \<and>
          consume_one (\<lambda>_. r) cid f e = Some (obind (f d e) (\<lambda>e'. Ret (Inr (), advance r cid, e')))"
    and "length (msgs a) \<le> k \<Longrightarrow> consume_one (\<lambda>_. r) cid f e = None"
proof -
  let ?c = "consumers r ! cid" and ?slot = "slots r ! slot_index (consumers r ! cid)"
  have len: "cid < length (consumers r)"
    using ring_relD(1) [OF rel] cid by (simp add: ring_shape_def)
  show "\<exists>d. data_ok d \<and> msg_of_data d = msgs a ! k \<and>
          consume_one (\<lambda>_. r) cid f e = Some (obind (f d e) (\<lambda>e'. Ret (Inr (), advance r cid, e')))"
    if k: "k < length (msgs a)"
  proof -
    have "unat (seq ?slot) = unat (?c + 1)" "msg_of_data (data ?slot) = msgs a ! k"
      using next_slot(2,3) [OF rel cid p] k by (simp_all add: slot_holds_def)
    then have "seq ?slot = ?c + 1" "msg_of_data (data ?slot) = msgs a ! k"
      by (simp_all add: word_unat_eq_iff)
    then show ?thesis
      using len next_slot(5) [OF rel cid p]
      by (intro exI [of _ "data ?slot"]) (simp add: consume_one_def Let_def wait_slot.simps advance_def)
  qed
  show "consume_one (\<lambda>_. r) cid f e = None" if k: "length (msgs a) \<le> k"
  proof -
    have "\<not> ?c + 1 \<le> seq ?slot"
      using next_slot(2,4) [OF rel cid p] k by (simp add: word_le_nat_alt)
    then have "wait_slot (\<lambda>i. seq ?slot) (?c + 1) 0 0 [] = None"
      by (simp add: wait_slot_least)
    with len show ?thesis by (simp add: consume_one_def Let_def)
  qed
qed

definition registry_ok :: "Shared \<Rightarrow> bool" where
  "registry_ok s \<longleftrightarrow> distinct (map (tx \<circ> snd) (registry s)) \<and>
                   list_all (\<lambda>(i, e). tx e < length (chans s)) (registry s)"

lemma dispatch_iter_log:
  assumes rel: "ring_rel a r" and cid: "cid < MAX_CONSUMERS" and p: "positions a ! cid = Some k"
    and reg: "registry_ok s"
  shows "dispatch_iter (\<lambda>_. r) cid s =
    (if k < length (msgs a)
     then Some (Ret (advance r cid,
            offered (frame_of (msgs a ! k)) (m_channel_id (msgs a ! k)) (registry s) s))
     else None)"
proof (cases "k < length (msgs a)")
  case True
  obtain d where d: "data_ok d" "msg_of_data d = msgs a ! k"
    "consume_one (\<lambda>_. r) cid dispatch_msg s = Some (obind (dispatch_msg d s) (\<lambda>e'. Ret (Inr (), advance r cid, e')))"
    using consume_one_log(1) [OF rel cid p True, of dispatch_msg s] by blast
  have "fold (fan_out (frame_of (msgs a ! k)) (m_channel_id (msgs a ! k))) (registry s) s =
      offered (frame_of (msgs a ! k)) (m_channel_id (msgs a ! k)) (registry s) s"
    by (rule fold_fan_out) (use reg in \<open>auto simp: registry_ok_def list_all_iff\<close>)
  then show ?thesis
    using True by (simp add: dispatch_iter_def d dispatch_msg_ok [OF d(1)])
next
  case False
  then have "consume_one (\<lambda>_. r) cid dispatch_msg s = None"
    using consume_one_log(2) [OF rel cid p] by simp
  with False show ?thesis by (simp add: dispatch_iter_def)
qed

text \<open>
  C11: one turn of the dispatch loop. On a ring that represents a log, with no two
  subscribers sharing a queue, the turn waits exactly when no message is unread; otherwise
  it neither panics nor falls behind, moves the cursor by one, and leaves the frame of the
  next message at the end of the queue of exactly those subscribers that match its channel
  and whose queue is not full; for the matching ones with a full queue it prints a line.
\<close>

theorem dispatch_turn:
  assumes "ring_rel a r" and "cid < MAX_CONSUMERS" and "positions a ! cid = Some k"
    and "registry_ok s"
  shows "dispatch_iter (\<lambda>_. r) cid s =
    (if k < length (msgs a)
     then let m = msgs a ! k; ch = m_channel_id m in
       Some (Ret (r\<lparr>consumers := (consumers r)[cid := consumers r ! cid + 1]\<rparr>,
         s\<lparr>chans := map (\<lambda>h. let c = chans s ! h in
                if list_ex (\<lambda>(_, e). tx e = h \<and> (filter_all e \<or> ch \<in> channels e)) (registry s) \<and>
                   length (buffer c) < bound c
                then c\<lparr>buffer := buffer c @ [frame_of m]\<rparr> else c) [0..<length (chans s)],
           printed := printed s @
             map (\<lambda>(i, e). SubscriberSlow i (addr e) ch)
               (filter (\<lambda>(_, e). (filter_all e \<or> ch \<in> channels e) \<and>
                  \<not> length (buffer (chans s ! tx e)) < bound (chans s ! tx e)) (registry s))\<rparr>))
     else None)"
  using dispatch_iter_log [OF assms]
  by (simp add: offered_def offer_def [abs_def] slow_lines_def matches_def full_def advance_def Let_def
      cong: if_cong)

text \<open>The full ring of before, one subscriber to channel 0 and one to channel 5 only.\<close>

theorem dispatch_turn_witness:
  "dispatch_iter (\<lambda>_. full_ring) 0
     \<lparr>registry = [(0, \<lparr>tx = 0, channels = {}, filter_all = True, addr = ''a''\<rparr>),
                  (1, \<lparr>tx = 1, channels = {5}, filter_all = False, addr = ''b''\<rparr>)],
      chans = [\<lparr>buffer = [], bound = 8192\<rparr>, \<lparr>buffer = [], bound = 8192\<rparr>], sub_id = 2, printed = []\<rparr> =
   Some (Ret (full_ring\<lparr>consumers := 1 # replicate 63 CONSUMER_FREE\<rparr>,
     \<lparr>registry = [(0, \<lparr>tx = 0, channels = {}, filter_all = True, addr = ''a''\<rparr>),
                  (1, \<lparr>tx = 1, channels = {5}, filter_all = False, addr = ''b''\<rparr>)],
      chans = [\<lparr>buffer = [frame_of (msg_of_data slot_zeroed)], bound = 8192\<rparr>, \<lparr>buffer = [], bound = 8192\<rparr>],
      sub_id = 2, printed = []\<rparr>))"
proof -
  have "m_channel_id (msg_of_data slot_zeroed) = 0"
    by (simp add: msg_of_data_def slot_zeroed_def)
  moreover have "consumers full_ring = 0 # replicate 63 CONSUMER_FREE"
    by (simp add: full_ring_def)
  ultimately show ?thesis
    by (subst dispatch_turn [OF full_rel, of 0 0])
      (simp_all add: full_log_def registry_ok_def MAX_CONSUMERS_def Let_def)
qed

end
