(* ===== verification/Subscriber_Client.thy ===== *)
theory Subscriber_Client
  imports Net_Stream
begin

text \<open>
  The subscriber SDK (\<open>subscriber-client/src/lib.rs\<close>): the handshake, \<open>next_raw\<close> and the
  loop of \<open>run\<close>. The read buffer changes no byte of the stream, so the reader is the
  stream itself.
\<close>

definition BUF_CAPACITY :: nat where
  "BUF_CAPACITY = push_bit 16 1"

record Subscriber =
  reader :: TcpStream

definition connect_filtered ::
  "(string \<Rightarrow> io_error + TcpStream) \<Rightarrow> (TcpStream \<Rightarrow> io_error + unit) \<Rightarrow> string \<Rightarrow> u32 list
     \<Rightarrow> (io_error + Subscriber) outcome" where
  "connect_filtered dial set_nodelay addr channels =
     (case dial addr of
        Inl e \<Rightarrow> Ret (Inl e)
      | Inr stream \<Rightarrow>
         (case set_nodelay stream of
            Inl e \<Rightarrow> Ret (Inl e)
          | Inr _ \<Rightarrow>
             let payload = concat (map (to_le_bytes 4) channels);
                 control = \<lparr>msg_type = 0, channel_id = 0, timestamp_ns = 0,
                            payload_len = word_of_nat (length payload)\<rparr>
             in obind (to_bytes control) (\<lambda>hdr.
                (case write_all hdr stream of
                   (Inl e, _) \<Rightarrow> Ret (Inl e)
                 | (Inr _, stream) \<Rightarrow>
                     if payload \<noteq> [] then
                       (case write_all payload stream of
                          (Inl e, _) \<Rightarrow> Ret (Inl e)
                        | (Inr _, stream) \<Rightarrow> Ret (Inr \<lparr>reader = stream\<rparr>))
                     else Ret (Inr \<lparr>reader = stream\<rparr>)))))"

definition connect_all ::
  "(string \<Rightarrow> io_error + TcpStream) \<Rightarrow> (TcpStream \<Rightarrow> io_error + unit) \<Rightarrow> string
     \<Rightarrow> (io_error + Subscriber) outcome" where
  "connect_all dial set_nodelay addr = connect_filtered dial set_nodelay addr []"

text \<open>The handshake is one frame of type 0 whose payload lists the channels.\<close>

definition subscribe_msg :: "u32 list \<Rightarrow> MsgHeader \<times> u8 list" where
  "subscribe_msg chs =
     (let payload = concat (map (to_le_bytes 4) chs) in
      (\<lparr>msg_type = 0, channel_id = 0, timestamp_ns = 0, payload_len = word_of_nat (length payload)\<rparr>, payload))"

lemma connect_filtered_wire:
  "connect_filtered dial set_nodelay addr chs =
     Ret (case dial addr of
            Inl e \<Rightarrow> Inl e
          | Inr s \<Rightarrow>
             (case set_nodelay s of
                Inl e \<Rightarrow> Inl e
              | Inr _ \<Rightarrow>
                 (case write_all (wire (subscribe_msg chs)) s of
                    (Inl e, _) \<Rightarrow> Inl e
                  | (Inr _, s') \<Rightarrow> Inr \<lparr>reader = s'\<rparr>)))"
proof -
  define payload where "payload = concat (map (to_le_bytes 4) chs)"
  define control where "control = fst (subscribe_msg chs)"
  have w: "wire (subscribe_msg chs) = header_wire control @ payload"
    by (simp add: wire_def subscribe_msg_def Let_def payload_def control_def)
  have c: "\<lparr>msg_type = 0, channel_id = 0, timestamp_ns = 0, payload_len = word_of_nat (length payload)\<rparr> = control"
    by (simp add: control_def subscribe_msg_def payload_def Let_def)
  show ?thesis
    unfolding connect_filtered_def Let_def payload_def [symmetric] c to_bytes_wire obind.simps(1) w
      write_all_append [of "header_wire control" payload]
    by (cases "payload = []") (auto split: sum.split prod.split)
qed

lemma length_concat_le: "length (concat (map (to_le_bytes n) ws)) = n * length ws"
  by (induction ws) simp_all

lemma framed_subscribe:
  assumes "4 * length chs < 2 ^ 32"
  shows "framed (subscribe_msg chs)"
proof -
  have "unat (word_of_nat (4 * length chs) :: u32) = 4 * length chs"
    using assms by (simp add: unat_of_nat take_bit_nat_eq_self del: of_nat_mult)
  then show ?thesis
    by (simp add: framed_def subscribe_msg_def length_concat_le Let_def del: of_nat_mult)
qed

definition next_raw ::
  "Subscriber \<Rightarrow> ((io_error + MsgHeader \<times> u8 list) \<times> Subscriber) outcome" where
  "next_raw sub =
     (case read_exact HEADER_SIZE (reader sub) of
        (Inl e, s) \<Rightarrow> Ret (Inl e, sub\<lparr>reader := s\<rparr>)
      | (Inr header_buf, s) \<Rightarrow>
         obind (from_bytes header_buf) (\<lambda>parsed.
           case parsed of
             None \<Rightarrow> Ret (Inl InvalidData, sub\<lparr>reader := s\<rparr>)
           | Some header \<Rightarrow>
              if payload_len header > 0 then
                (case read_exact (unat (payload_len header)) s of
                   (Inl e, s) \<Rightarrow> Ret (Inl e, sub\<lparr>reader := s\<rparr>)
                 | (Inr payload, s) \<Rightarrow> Ret (Inr (header, payload), sub\<lparr>reader := s\<rparr>))
              else Ret (Inr (header, []), sub\<lparr>reader := s\<rparr>)))"

text \<open>What \<open>next_raw\<close> does to the stream, as the reader of frames it is.\<close>

definition next_frame :: "TcpStream \<Rightarrow> ((MsgHeader \<times> u8 list) option \<times> TcpStream) outcome" where
  "next_frame s =
     obind (next_raw \<lparr>reader = s\<rparr>) (\<lambda>(res, sub).
       Ret (case res of Inl _ \<Rightarrow> None | Inr m \<Rightarrow> Some m, reader sub))"

lemma next_raw_payload:
  "(if payload_len h > 0 then
      (case read_exact (unat (payload_len h)) s of
         (Inl e, s) \<Rightarrow> Ret (Inl e, sub\<lparr>reader := s\<rparr>)
       | (Inr payload, s) \<Rightarrow> Ret (Inr (h, payload), sub\<lparr>reader := s\<rparr>))
    else Ret (Inr (h, []), sub\<lparr>reader := s\<rparr>)) =
   (case read_exact (unat (payload_len h)) s of
      (Inl e, s) \<Rightarrow> Ret (Inl e, sub\<lparr>reader := s\<rparr>)
    | (Inr payload, s) \<Rightarrow> Ret (Inr (h, payload), sub\<lparr>reader := s\<rparr>))"
  by (cases "payload_len h = 0") (simp_all add: word_gt_0)

lemma next_raw_cases:
  obtains (eof) "next_raw sub = Ret (Inl UnexpectedEof, sub\<lparr>reader := (reader sub)\<lparr>incoming := []\<rparr>\<rparr>)"
    "\<And>m rest. framed m \<Longrightarrow> incoming (reader sub) \<noteq> wire m @ rest"
  | (got) m rest where "framed m" "incoming (reader sub) = wire m @ rest"
    "next_raw sub = Ret (Inr m, sub\<lparr>reader := (reader sub)\<lparr>incoming := rest\<rparr>\<rparr>)"
proof (cases "incoming (reader sub)" rule: stream_cases)
  case short
  then have "next_raw sub = Ret (Inl UnexpectedEof, sub\<lparr>reader := (reader sub)\<lparr>incoming := []\<rparr>\<rparr>)"
    by (simp add: next_raw_def read_exact_def)
  with short(2) show thesis by (blast intro: eof)
next
  case (header h r)
  let ?n = "unat (payload_len h)"
  have eq: "next_raw sub =
      (case read_exact ?n ((reader sub)\<lparr>incoming := r\<rparr>) of
         (Inl e, s) \<Rightarrow> Ret (Inl e, sub\<lparr>reader := s\<rparr>)
       | (Inr payload, s) \<Rightarrow> Ret (Inr (h, payload), sub\<lparr>reader := s\<rparr>))"
    unfolding next_raw_def read_exact_def [of HEADER_SIZE] using header(1-3)
    by (simp only: if_True prod.case sum.case obind.simps option.case next_raw_payload)
  show thesis
  proof (cases "?n \<le> length r")
    case True
    then have "next_raw sub = Ret (Inr (h, take ?n r), sub\<lparr>reader := (reader sub)\<lparr>incoming := drop ?n r\<rparr>\<rparr>)"
      by (simp add: eq read_exact_def)
    moreover have "incoming (reader sub) = wire (h, take ?n r) @ drop ?n r \<and> framed (h, take ?n r)"
      using True header(4) frame_iff [of h r "(h, take ?n r)" "drop ?n r"] by metis
    ultimately show thesis by (blast intro: got)
  next
    case False
    then have "next_raw sub = Ret (Inl UnexpectedEof, sub\<lparr>reader := (reader sub)\<lparr>incoming := []\<rparr>\<rparr>)"
      by (simp add: eq read_exact_def)
    moreover have "incoming (reader sub) \<noteq> wire m @ rest" if "framed m" for m rest
      using that False header(4) frame_iff [of h r m rest] by metis
    ultimately show thesis by (blast intro: eof)
  qed
qed

interpretation client: frame_reader next_frame None
proof unfold_locales
  fix s m s'
  show "next_frame s \<noteq> Panic"
    by (cases "\<lparr>reader = s\<rparr>" rule: next_raw_cases) (simp_all add: next_frame_def)
  show "next_frame s = Ret (Some m, s') \<longleftrightarrow>
      framed m \<and> within None (length (snd m)) \<and> incoming s = wire m @ incoming s' \<and>
      s' = s\<lparr>incoming := incoming s'\<rparr>"
  proof (cases "\<lparr>reader = s\<rparr>" rule: next_raw_cases)
    case eof
    then have none: "\<not> (framed m \<and> incoming s = wire m @ incoming s')"
      using eof(2) [of m "incoming s'"] by force
    show ?thesis
      unfolding next_frame_def eof(1) using none by auto
  next
    case (got m' rest)
    then have frame: "next_frame s = Ret (Some m', s\<lparr>incoming := rest\<rparr>)" and s: "incoming s = wire m' @ rest"
      by (simp_all add: next_frame_def)
    show ?thesis
      unfolding frame s using wire_unique [of m' rest m "incoming s'"] got(1)
      by (cases s; cases s') (auto simp: within_def)
  qed
qed

section \<open>The handler loop\<close>

lemma next_raw_shrinks:
  "next_raw sub = Ret (Inr m, sub') \<Longrightarrow> length (incoming (reader sub')) < length (incoming (reader sub))"
  by (cases sub rule: next_raw_cases) (auto simp: length_wire)

function run ::
  "(MsgHeader \<Rightarrow> u8 list \<Rightarrow> 'h \<Rightarrow> (bool \<times> 'h) outcome) \<Rightarrow> 'h \<Rightarrow> Subscriber
     \<Rightarrow> ((io_error + unit) \<times> 'h \<times> Subscriber) outcome" where
  "run handler e sub =
     (case next_raw sub of
        Panic \<Rightarrow> Panic
      | Ret (Inl err, sub') \<Rightarrow> Ret (Inl err, e, sub')
      | Ret (Inr (header, payload), sub') \<Rightarrow>
         (case handler header payload e of
            Panic \<Rightarrow> Panic
          | Ret (continue, e') \<Rightarrow>
              if \<not> continue then Ret (Inr (), e', sub') else run handler e' sub'))"
  by pat_completeness auto
termination
  by (relation "measure (\<lambda>(_, _, sub). length (incoming (reader sub)))") (auto dest: next_raw_shrinks)

declare run.simps [simp del]

lemma next_raw_wire:
  assumes "framed m" and "incoming (reader sub) = wire m @ rest"
  shows "next_raw sub = Ret (Inr m, sub\<lparr>reader := (reader sub)\<lparr>incoming := rest\<rparr>\<rparr>)"
proof (cases sub rule: next_raw_cases)
  case eof
  then show ?thesis using assms by blast
next
  case (got m' rest')
  have "m' = m \<and> rest' = rest"
    by (rule wire_unique) (use assms got in \<open>simp_all only:\<close>)
  with got(3) show ?thesis by simp
qed

lemma next_raw_eof:
  assumes "\<And>m rest. framed m \<Longrightarrow> incoming (reader sub) \<noteq> wire m @ rest"
  shows "next_raw sub = Ret (Inl UnexpectedEof, sub\<lparr>reader := (reader sub)\<lparr>incoming := []\<rparr>\<rparr>)"
proof (cases sub rule: next_raw_cases)
  case (got m rest)
  with assms show ?thesis by blast
qed

text \<open>A handler fed with a list of messages: whether it stopped, its state and what is left.\<close>

fun feed :: "(MsgHeader \<times> u8 list \<Rightarrow> 'h \<Rightarrow> bool \<times> 'h) \<Rightarrow> 'h \<Rightarrow> (MsgHeader \<times> u8 list) list
    \<Rightarrow> bool \<times> 'h \<times> (MsgHeader \<times> u8 list) list" where
  "feed g e [] = (False, e, [])"
| "feed g e (m # ms) = (case g m e of (continue, e') \<Rightarrow> if continue then feed g e' ms else (True, e', ms))"

lemma run_feed:
  assumes "list_all framed ms" and "\<And>m rest. framed m \<Longrightarrow> tail \<noteq> wire m @ rest"
    and "incoming (reader sub) = concat (map wire ms) @ tail"
  shows "run (\<lambda>h p e. Ret (g (h, p) e)) e sub =
    (case feed g e ms of
       (True, e', ms') \<Rightarrow>
         Ret (Inr (), e', sub\<lparr>reader := (reader sub)\<lparr>incoming := concat (map wire ms') @ tail\<rparr>\<rparr>)
     | (False, e', _) \<Rightarrow> Ret (Inl UnexpectedEof, e', sub\<lparr>reader := (reader sub)\<lparr>incoming := []\<rparr>\<rparr>))"
  using assms
proof (induction ms arbitrary: e sub)
  case Nil
  then have "next_raw sub = Ret (Inl UnexpectedEof, sub\<lparr>reader := (reader sub)\<lparr>incoming := []\<rparr>\<rparr>)"
    by (intro next_raw_eof) simp
  then show ?case by (simp add: run.simps [of _ _ sub])
next
  case (Cons m ms)
  let ?sub = "sub\<lparr>reader := (reader sub)\<lparr>incoming := concat (map wire ms) @ tail\<rparr>\<rparr>"
  have "next_raw sub = Ret (Inr m, ?sub)"
    using Cons.prems by (intro next_raw_wire) simp_all
  moreover obtain continue e' where g: "g m e = (continue, e')"
    by (cases "g m e")
  moreover have "run (\<lambda>h p e. Ret (g (h, p) e)) e' ?sub =
    (case feed g e' ms of
       (True, e', ms') \<Rightarrow>
         Ret (Inr (), e', sub\<lparr>reader := (reader sub)\<lparr>incoming := concat (map wire ms') @ tail\<rparr>\<rparr>)
     | (False, e', _) \<Rightarrow> Ret (Inl UnexpectedEof, e', sub\<lparr>reader := (reader sub)\<lparr>incoming := []\<rparr>\<rparr>))"
    using Cons.IH [of ?sub e'] Cons.prems by (cases "feed g e' ms"; cases "fst (feed g e' ms)") simp_all
  ultimately show ?case
    by (cases m) (simp add: run.simps [of _ e sub])
qed

text \<open>
  \<open>next_raw\<close> reads exactly one frame. It returns a message exactly when the stream
  begins with that message's frame, leaving what follows; otherwise it reports the end of
  the stream. It never panics and never reports a malformed header.
\<close>

lemma next_raw_exact:
  "(next_raw sub = Ret (Inr m, sub') \<longleftrightarrow>
      framed m \<and> incoming (reader sub) = wire m @ incoming (reader sub') \<and>
      sub' = sub\<lparr>reader := (reader sub)\<lparr>incoming := incoming (reader sub')\<rparr>\<rparr>) \<and>
   next_raw sub \<noteq> Panic \<and> next_raw sub \<noteq> Ret (Inl InvalidData, sub')"
proof (cases sub rule: next_raw_cases)
  case eof
  then have none: "\<not> (framed m \<and> incoming (reader sub) = wire m @ incoming (reader sub'))"
    using eof(2) [of m "incoming (reader sub')"] by force
  show ?thesis
    unfolding eof(1) using none by auto
next
  case (got m' rest)
  then show ?thesis
    using wire_unique [of m' rest m "incoming (reader sub')"]
    by (cases sub; cases sub'; cases "reader sub"; cases "reader sub'") auto
qed

text \<open>
  \<open>run\<close> hands the handler the messages of the stream, one by one and in order, until the
  handler stops it, leaving the rest unread, or until the stream ends, which is the error
  \<open>UnexpectedEof\<close>. Its loop always ends when the stream does.
\<close>

lemma run_feeds_handler:
  assumes "list_all framed ms" and "\<And>m rest. framed m \<Longrightarrow> tail \<noteq> wire m @ rest"
    and "incoming (reader sub) = concat (map wire ms) @ tail"
  shows "run (\<lambda>h p e. Ret (g (h, p) e)) e sub =
    (case feed g e ms of
       (True, e', ms') \<Rightarrow>
         Ret (Inr (), e', sub\<lparr>reader := (reader sub)\<lparr>incoming := concat (map wire ms') @ tail\<rparr>\<rparr>)
     | (False, e', _) \<Rightarrow> Ret (Inl UnexpectedEof, e', sub\<lparr>reader := (reader sub)\<lparr>incoming := []\<rparr>\<rparr>))"
  using assms by (rule run_feed)

definition demo_msgs :: "(MsgHeader \<times> u8 list) list" where
  "demo_msgs = [(\<lparr>msg_type = 1, channel_id = 2, timestamp_ns = 3, payload_len = 1\<rparr>, [9]),
                (\<lparr>msg_type = 1, channel_id = 2, timestamp_ns = 3, payload_len = 0\<rparr>, [])]"

lemma run_feeds_handler_example:
  "run (\<lambda>h p e. Ret (length e < 1, e @ [p])) []
     \<lparr>reader = \<lparr>incoming = concat (map wire demo_msgs) @ [7], outgoing = [], send_room = None\<rparr>\<rparr> =
   Ret (Inr (), [[9], []], \<lparr>reader = \<lparr>incoming = [7], outgoing = [], send_room = None\<rparr>\<rparr>)"
proof -
  have feed: "feed (\<lambda>m e. (length e < 1, e @ [snd m])) [] demo_msgs = (True, [[9], []], [])"
    by (simp add: demo_msgs_def)
  have "list_all framed demo_msgs"
    by (simp add: demo_msgs_def framed_def)
  moreover have "[7] \<noteq> wire m @ rest" for m rest
    by (simp add: wire_def)
  ultimately show ?thesis
    using run_feeds_handler [of demo_msgs "[7]"
        "\<lparr>reader = \<lparr>incoming = concat (map wire demo_msgs) @ [7], outgoing = [], send_room = None\<rparr>\<rparr>"
        "\<lambda>m e. (length e < 1, e @ [snd m])" "[]"]
    unfolding feed by simp
qed

end
