(* ===== verification/Bus_Connections.thy ===== *)
theory Bus_Connections
  imports Bus_Handlers Subscriber_Client Publisher_Client
begin

text \<open>
  What the handlers of a connection do with the bytes of its stream: the publisher's loop
  reads frames of at most 1024 payload bytes, \<open>publish_one\<close> returns once a publication is
  not refused, and the handshake takes over what the subscriber SDK sends.
\<close>

section \<open>Reading a publisher\<close>

lemma read_payload:
  "(if n > 0 then read_exact n s else (Inr [], s)) = read_exact n s"
  by (cases n) simp_all

lemma read_exact_split:
  "read_exact n (s\<lparr>incoming := bs\<rparr>) =
     (if n \<le> length bs then (Inr (take n bs), s\<lparr>incoming := drop n bs\<rparr>)
      else (Inl UnexpectedEof, s\<lparr>incoming := []\<rparr>))"
  by (simp add: read_exact_def)

lemma publisher_read_cases:
  obtains (stop) l st' where "publisher_read st peer s = Ret (Closed st', print l s)"
    "\<And>m rest. framed m \<Longrightarrow> length (snd m) \<le> PAYLOAD_CAP \<Longrightarrow> incoming st \<noteq> wire m @ rest"
    "l \<in> {PublisherGone peer, PublishTooLarge peer, IncompletePayload peer}"
  | (got) m rest where "framed m" "length (snd m) \<le> PAYLOAD_CAP" "incoming st = wire m @ rest"
    "publisher_read st peer s = Ret (PublishOne (fst m) (snd m) (st\<lparr>incoming := rest\<rparr>) peer, s)"
proof (cases "incoming st" rule: stream_cases)
  case short
  then have "publisher_read st peer s = Ret (Closed (st\<lparr>incoming := []\<rparr>), print (PublisherGone peer) s)"
    by (simp add: publisher_read_eq read_exact_def)
  then show thesis by (rule stop) (use short(2) in simp_all)
next
  case (header h r)
  let ?n = "unat (payload_len h)"
  have eq: "publisher_read st peer s =
      (if ?n > PAYLOAD_CAP then Ret (Closed (st\<lparr>incoming := r\<rparr>), print (PublishTooLarge peer) s)
       else if ?n \<le> length r then Ret (PublishOne h (take ?n r) (st\<lparr>incoming := drop ?n r\<rparr>) peer, s)
       else Ret (Closed (st\<lparr>incoming := []\<rparr>), print (IncompletePayload peer) s))"
    unfolding publisher_read_eq read_exact_def [of HEADER_SIZE] read_payload using header(1-3)
    by (simp add: read_exact_split Let_def)
  have no: "incoming st \<noteq> wire m @ rest" if "framed m" "m \<noteq> (h, take ?n r) \<or> \<not> ?n \<le> length r" for m rest
    using that header(4) frame_iff [of h r m rest] by metis
  show thesis
  proof (cases "?n \<le> PAYLOAD_CAP \<and> ?n \<le> length r")
    case True
    then have "publisher_read st peer s = Ret (PublishOne h (take ?n r) (st\<lparr>incoming := drop ?n r\<rparr>) peer, s)"
      by (simp add: eq)
    moreover have "incoming st = wire (h, take ?n r) @ drop ?n r \<and> framed (h, take ?n r)"
      using True header(4) frame_iff [of h r "(h, take ?n r)" "drop ?n r"] by metis
    ultimately show thesis
      using True by (intro got [of "(h, take ?n r)" "drop ?n r"]) simp_all
  next
    case False
    have "\<exists>l st'. publisher_read st peer s = Ret (Closed st', print l s) \<and>
        l \<in> {PublisherGone peer, PublishTooLarge peer, IncompletePayload peer}"
      using False by (auto simp: eq)
    moreover have "incoming st \<noteq> wire m @ rest" if "framed m" "length (snd m) \<le> PAYLOAD_CAP" for m rest
    proof (cases "m = (h, take ?n r) \<and> ?n \<le> length r")
      case True
      with that False show ?thesis by (auto simp: framed_def)
    next
      case False
      with no that(1) show ?thesis by blast
    qed
    ultimately show thesis by (blast intro: stop)
  qed
qed

text \<open>One turn of the publisher's loop as the reader of frames it is.\<close>

definition next_publication ::
  "SocketAddr \<Rightarrow> Shared \<Rightarrow> TcpStream \<Rightarrow> ((MsgHeader \<times> u8 list) option \<times> TcpStream) outcome" where
  "next_publication peer s st =
     obind (publisher_read st peer s) (\<lambda>(c, _).
       Ret (case c of
              PublishOne h p st' _ \<Rightarrow> (Some (h, p), st')
            | Closed st' \<Rightarrow> (None, st')
            | _ \<Rightarrow> (None, st)))"

lemma next_publication_reader: "frame_reader (next_publication peer s) (Some PAYLOAD_CAP)"
proof
  fix st m st'
  show "next_publication peer s st \<noteq> Panic"
    by (cases rule: publisher_read_cases [of st peer s]) (simp_all add: next_publication_def)
  show "next_publication peer s st = Ret (Some m, st') \<longleftrightarrow>
      framed m \<and> within (Some PAYLOAD_CAP) (length (snd m)) \<and> incoming st = wire m @ incoming st' \<and>
      st' = st\<lparr>incoming := incoming st'\<rparr>"
  proof (cases rule: publisher_read_cases [of st peer s])
    case (stop l st'')
    then have none: "\<not> (framed m \<and> length (snd m) \<le> PAYLOAD_CAP \<and> incoming st = wire m @ incoming st')"
      by blast
    show ?thesis
      unfolding next_publication_def stop(1) within_def using none by auto
  next
    case (got m' rest)
    then have frame: "next_publication peer s st = Ret (Some m', st\<lparr>incoming := rest\<rparr>)"
      by (simp add: next_publication_def)
    show ?thesis
      unfolding frame got(3) using wire_unique [of m' rest m "incoming st'"] got(1,2)
      by (cases st; cases st') (auto simp: within_def)
  qed
qed

interpretation publisher: frame_reader "next_publication peer s" "Some PAYLOAD_CAP" for peer s
  by (rule next_publication_reader)

lemma publisher_read_wire:
  assumes "framed m" and "length (snd m) \<le> PAYLOAD_CAP" and "incoming st = wire m @ rest"
  shows "publisher_read st peer s = Ret (PublishOne (fst m) (snd m) (st\<lparr>incoming := rest\<rparr>) peer, s)"
proof (cases rule: publisher_read_cases [of st peer s])
  case (stop l st')
  with assms show ?thesis by blast
next
  case (got m' rest')
  have "m' = m \<and> rest' = rest"
    by (rule wire_unique) (use assms got in \<open>simp_all only:\<close>)
  with got(4) show ?thesis by simp
qed

text \<open>
  What the publisher's loop reads. A turn goes on to publish exactly when the stream begins
  with a whole frame of at most 1024 payload bytes, and then with that frame's header and payload and
  nothing printed; otherwise it closes the connection and prints why. It never panics.
\<close>

lemma publisher_read_exact:
  "case publisher_read st peer s of
     Ret (PublishOne h p st' a, s') \<Rightarrow>
       framed (h, p) \<and> length p \<le> 1024 \<and> incoming st = wire (h, p) @ incoming st' \<and>
       st' = st\<lparr>incoming := incoming st'\<rparr> \<and> a = peer \<and> s' = s
   | Ret (Closed st', s') \<Rightarrow>
       (\<forall>m rest. framed m \<and> length (snd m) \<le> 1024 \<longrightarrow> incoming st \<noteq> wire m @ rest) \<and>
       (\<exists>l\<in>{PublisherGone peer, PublishTooLarge peer, IncompletePayload peer}. s' = print l s)
   | _ \<Rightarrow> False"
proof (cases rule: publisher_read_cases [of st peer s])
  case (stop l st')
  have "\<forall>m rest. framed m \<and> length (snd m) \<le> 1024 \<longrightarrow> incoming st \<noteq> wire m @ rest"
    using stop(2) unfolding PAYLOAD_CAP_def by blast
  then show ?thesis
    unfolding stop(1) using stop(3) by auto
next
  case (got m rest)
  then show ?thesis by (simp add: PAYLOAD_CAP_def)
qed

lemma publisher_read_exact_example:
  "\<exists>st' s'. publisher_read \<lparr>incoming = [0, 1], outgoing = [], send_room = None\<rparr> ''p''
       \<lparr>registry = [], chans = [], sub_id = 0, printed = []\<rparr> = Ret (Closed st', s') \<and>
     (\<forall>m rest. framed m \<and> length (snd m) \<le> 1024 \<longrightarrow> [0, 1] \<noteq> wire m @ rest)"
proof -
  have "publisher_read \<lparr>incoming = [0, 1], outgoing = [], send_room = None\<rparr> ''p''
       \<lparr>registry = [], chans = [], sub_id = 0, printed = []\<rparr> =
     Ret (Closed \<lparr>incoming = [], outgoing = [], send_room = None\<rparr>,
          print (PublisherGone ''p'') \<lparr>registry = [], chans = [], sub_id = 0, printed = []\<rparr>)"
    by (simp add: publisher_read_eq read_exact_def)
  then show ?thesis
    using publisher_read_exact [of "\<lparr>incoming = [0, 1], outgoing = [], send_room = None\<rparr>" "''p''"
        "\<lparr>registry = [], chans = [], sub_id = 0, printed = []\<rparr>"]
    by simp
qed

text \<open>
  The bus and the client read the same frames. On any stream, a turn of the bus's publisher
  loop gets a message exactly when \<open>next_raw\<close> of the subscriber SDK would get the same message and
  leave the same rest, and the payload is at most 1024 bytes.
\<close>

lemma bus_reads_what_client_reads:
  "next_publication peer s st = Ret (Some m, st') \<longleftrightarrow>
   next_raw \<lparr>reader = st\<rparr> = Ret (Inr m, \<lparr>reader = st'\<rparr>) \<and> length (snd m) \<le> 1024"
proof -
  have "next_raw \<lparr>reader = st\<rparr> = Ret (Inr m, \<lparr>reader = st'\<rparr>) \<longleftrightarrow> next_frame st = Ret (Some m, st')"
    by (cases "\<lparr>reader = st\<rparr>" rule: next_raw_cases) (auto simp: next_frame_def)
  then show ?thesis
    unfolding publisher.rd_Some client.rd_Some by (auto simp: within_def PAYLOAD_CAP_def)
qed

text \<open>
  A publication arrives as it was made. When \<open>publish_raw\<close> succeeds with a payload of at
  most 1024 bytes on a fresh connection, the bus's publisher loop, reading the bytes it wrote, goes on
  to publish exactly that channel, type and payload.
\<close>

lemma publication_roundtrip:
  assumes "publish_raw clk p ch mt payload = Ret (Inr (), p')" and "length payload \<le> 1024"
    and "outgoing (stream p) = []" and "incoming st = outgoing (stream p') @ rest"
  shows "\<exists>h. publisher_read st peer s = Ret (PublishOne h payload (st\<lparr>incoming := rest\<rparr>) peer, s) \<and>
             channel_id h = ch \<and> msg_type h = mt"
proof -
  obtain ns where clk: "clk = Some ns"
    using assms(1) by (cases clk) (auto simp: publish_raw_def header_new_def now_ns_unwrap_def)
  let ?m = "(pub_header ns mt ch payload, payload)"
  obtain st2 where w: "write_all (wire ?m) (stream p) = (Inr (), st2)" "p' = p\<lparr>stream := st2\<rparr>"
    using assms(1) unfolding clk publish_raw_eq by (cases "write_all (wire ?m) (stream p)") auto
  have "outgoing st2 = wire ?m"
    using write_all_outgoing [OF w(1)] assms(3) by auto
  then have inc: "incoming st = wire ?m @ rest"
    using assms(4) w(2) by simp
  have "framed ?m"
    using assms(2) by (simp add: framed_def pub_header_def unat_of_nat take_bit_nat_eq_self)
  from publisher_read_wire [OF this _ inc, of peer s] assms(2) show ?thesis
    by (simp add: PAYLOAD_CAP_def pub_header_def)
qed

lemma publication_roundtrip_example:
  "\<exists>h. publisher_read \<lparr>incoming = wire (pub_header 6 1 7 [9], [9]), outgoing = [], send_room = None\<rparr> ''p''
      \<lparr>registry = [], chans = [], sub_id = 0, printed = []\<rparr> =
     Ret (PublishOne h [9] \<lparr>incoming = [], outgoing = [], send_room = None\<rparr> ''p'',
          \<lparr>registry = [], chans = [], sub_id = 0, printed = []\<rparr>) \<and> channel_id h = 7 \<and> msg_type h = 1"
proof -
  let ?st = "\<lparr>incoming = [], outgoing = [], send_room = None\<rparr>"
  have "publish_raw (Some 6) \<lparr>stream = ?st\<rparr> 7 1 [9] =
      Ret (Inr (), \<lparr>stream = ?st\<lparr>outgoing := wire (pub_header 6 1 7 [9], [9])\<rparr>\<rparr>)"
    by (simp add: publish_raw_eq write_all_def)
  then show ?thesis
    using publication_roundtrip [of "Some 6" "\<lparr>stream = ?st\<rparr>" 7 1 "[9]" "\<lparr>stream = ?st\<lparr>outgoing := wire (pub_header 6 1 7 [9], [9])\<rparr>\<rparr>", of "\<lparr>incoming = wire (pub_header 6 1 7 [9], [9]), outgoing = [], send_room = None\<rparr>" "[]"]
    by simp
qed

section \<open>Retrying a refused publication\<close>

lemma publish_one_found:
  assumes "\<And>l. i \<le> l \<Longrightarrow> l < j \<Longrightarrow>
      fst (publish (env l) (clks l) (channel_id h) (msg_type h) p) = Inl SlowConsumer"
    and "fst (publish (env j) (clks j) (channel_id h) (msg_type h) p) \<noteq> Inl SlowConsumer" and "i \<le> j"
  shows "publish_one env clks h p i =
    (case publish (env j) (clks j) (channel_id h) (msg_type h) p of (res, r) \<Rightarrow> Some (res, r, j))"
  using assms
proof (induction "j - i" arbitrary: i)
  case 0
  then show ?case
    by (subst publish_one.simps) (auto split: prod.split sum.split)
next
  case (Suc d)
  then have "fst (publish (env i) (clks i) (channel_id h) (msg_type h) p) = Inl SlowConsumer"
    by auto
  moreover have "publish_one env clks h p (Suc i) =
    (case publish (env j) (clks j) (channel_id h) (msg_type h) p of (res, r) \<Rightarrow> Some (res, r, j))"
    using Suc by (intro Suc.hyps(1)) auto
  ultimately show ?case
    by (subst publish_one.simps) (auto split: prod.splits)
qed

lemma publish_one_returns:
  assumes "publish_one env clks h p i = Some res"
  shows "\<exists>j. fst (publish (env j) (clks j) (channel_id h) (msg_type h) p) \<noteq> Inl SlowConsumer"
proof (rule publish_one.raw_induct [OF _ assms, where P = "\<lambda>env clks h p i res.
      \<exists>j. fst (publish (env j) (clks j) (channel_id h) (msg_type h) p) \<noteq> Inl SlowConsumer"])
  fix f env clks h p i res
  assume IH: "\<And>env clks h p i res. f env clks h p i = Some res \<Longrightarrow>
      \<exists>j. fst (publish (env j) (clks j) (channel_id h) (msg_type h) p) \<noteq> Inl SlowConsumer"
    and eq: "(case publish (env i) (clks i) (channel_id h) (msg_type h) p of
        (Inr x, r) \<Rightarrow> Some (Inr x, r, i)
      | (Inl e, r) \<Rightarrow> (if e = SlowConsumer then f env clks h p (Suc i) else Some (Inl e, r, i))) = Some res"
  show "\<exists>j. fst (publish (env j) (clks j) (channel_id h) (msg_type h) p) \<noteq> Inl SlowConsumer"
  proof (cases "fst (publish (env i) (clks i) (channel_id h) (msg_type h) p) = Inl SlowConsumer")
    case True
    with eq IH show ?thesis by (auto split: prod.splits)
  qed blast
qed

text \<open>
  \<open>publish_one\<close> returns exactly when some attempt is not refused for a slow consumer,
  and then the message has been published once, at the first such attempt, on the ring as it was
  then; a payload the handlers let through is never given up.
\<close>

lemma publish_one_exact:
  assumes "length payload \<le> PAYLOAD_CAP"
  shows "publish_one env clks header payload 0 =
    (let attempt = \<lambda>i. publish (env i) (clks i) (channel_id header) (msg_type header) payload in
     if \<exists>i. fst (attempt i) = Inr ()
     then let j = (LEAST i. fst (attempt i) = Inr ()) in Some (Inr (), snd (attempt j), j)
     else None)"
proof -
  define attempt where
    "attempt i = publish (env i) (clks i) (channel_id header) (msg_type header) payload" for i
  have ok: "fst (attempt i) \<noteq> Inl SlowConsumer \<longleftrightarrow> fst (attempt i) = Inr ()" for i
    using assms by (auto simp: attempt_def publish_def Let_def)
  have "publish_one env clks header payload 0 =
     (if \<exists>i. fst (attempt i) = Inr ()
      then let j = (LEAST i. fst (attempt i) = Inr ()) in Some (Inr (), snd (attempt j), j)
      else None)"
  proof (cases "\<exists>i. fst (attempt i) = Inr ()")
    case True
    define j where "j = (LEAST i. fst (attempt i) = Inr ())"
    have j: "fst (attempt j) = Inr ()"
      unfolding j_def using True by (rule LeastI_ex)
    have "fst (attempt l) = Inl SlowConsumer" if "l < j" for l
      using that not_less_Least [of l "\<lambda>i. fst (attempt i) = Inr ()"] ok [of l] by (simp add: j_def)
    with j have "publish_one env clks header payload 0 = (case attempt j of (res, r) \<Rightarrow> Some (res, r, j))"
      using publish_one_found [of 0 j env clks header payload] by (simp add: attempt_def)
    with True j show ?thesis
      by (simp add: j_def [symmetric] Let_def case_prod_beta)
  next
    case False
    then have "publish_one env clks header payload 0 = None"
      using publish_one_returns [of env clks header payload 0] ok
      by (cases "publish_one env clks header payload 0") (auto simp: attempt_def)
    with False show ?thesis by simp
  qed
  then show ?thesis by (simp add: attempt_def Let_def)
qed

lemma publish_one_exact_example:
  "publish_one (\<lambda>i. ring_new) (\<lambda>i. Some 5) \<lparr>msg_type = 1, channel_id = 7, timestamp_ns = 3, payload_len = 1\<rparr> [9] 0 =
   Some (Inr (), snd (publish ring_new (Some 5) 7 1 [9]), 0)"
proof -
  have "fst (publish ring_new (Some 5) 7 1 [9]) = Inr ()"
    using publish_sim [OF ring_rel_new, of "Some 5" 7 1 "[9]"] by (simp add: log_eval)
  with publish_one_exact [of "[9]" "\<lambda>i. ring_new" "\<lambda>i. Some 5"
      "\<lparr>msg_type = 1, channel_id = 7, timestamp_ns = 3, payload_len = 1\<rparr>"]
  show ?thesis by (simp add: PAYLOAD_CAP_def)
qed

section \<open>The handshake\<close>

lemma chunks_le4: "chunks_exact4 (to_le_bytes 4 (c :: u32) @ bs) = to_le_bytes 4 c # chunks_exact4 bs"
  by (simp add: eval_nat_numeral)

lemma chunks_channels: "map from_le_bytes (chunks_exact4 (concat (map (to_le_bytes 4) (chs :: u32 list)))) = chs"
  by (induction chs) (simp_all add: chunks_le4)

lemma chunks_count: "length (chunks_exact4 bs) = length bs div 4"
  by (induction bs rule: chunks_exact4.induct) simp_all

lemma handle_connection_header:
  assumes "incoming st = header_wire h @ r"
  shows "handle_connection st (Some peer) s =
    (if msg_type h = 0 then subscriber_handshake h (st\<lparr>incoming := r\<rparr>) peer s
     else publisher_handshake h (st\<lparr>incoming := r\<rparr>) peer s)"
  using from_bytes_header_wire [of h]
  by (simp add: handle_connection_def read_exact_def assms del: append_assoc append_Cons)

text \<open>The registry entry and the thread a completed subscriber handshake leaves.\<close>

definition subscribed :: "u32 set \<Rightarrow> SocketAddr \<Rightarrow> Shared \<Rightarrow> Shared" where
  "subscribed chs peer s =
     \<lparr>registry = hash_insert (sub_id s)
        \<lparr>tx = length (chans s), channels = chs, filter_all = (chs = {}), addr = peer\<rparr> (registry s),
      chans = chans s @ [\<lparr>buffer = [], bound = 8192\<rparr>], sub_id = sub_id s + 1,
      printed = printed s @ [SubscriberUp peer (sub_id s)]\<rparr>"

lemma subscriber_handshake_eq:
  "subscriber_handshake h st peer s =
     Ret (let plen = unat (payload_len h) in
      if 1024 < plen then (Closed st, print (SubscribeTooLarge peer) s)
      else if length (incoming st) < plen then (Closed (st\<lparr>incoming := []\<rparr>), s)
      else (SubscriberIo (st\<lparr>incoming := drop plen (incoming st)\<rparr>) (length (chans s)) (sub_id s) peer,
            subscribed (set (map from_le_bytes (chunks_exact4 (take plen (incoming st))))) peer s))"
  unfolding subscriber_handshake_Ret Let_def read_payload
  by (cases s) (simp add: read_exact_def sync_channel_def subscribed_def print_def
      size_consts not_less)

text \<open>The bytes of a subscription, read by the handler.\<close>

lemma handle_subscribe:
  assumes inc: "incoming st = wire (subscribe_msg chs) @ rest" and small: "4 * length chs < 2 ^ 32"
  shows "handle_connection st (Some peer) s =
    Ret (if length chs \<le> 256
         then (SubscriberIo (st\<lparr>incoming := rest\<rparr>) (length (chans s)) (sub_id s) peer, subscribed (set chs) peer s)
         else (Closed (st\<lparr>incoming := snd (subscribe_msg chs) @ rest\<rparr>), print (SubscribeTooLarge peer) s))"
proof -
  have inc: "incoming st = header_wire (fst (subscribe_msg chs)) @ snd (subscribe_msg chs) @ rest"
    using inc by (simp only: wire_def append_assoc)
  have plen: "unat (payload_len (fst (subscribe_msg chs))) = 4 * length chs"
    and len: "length (snd (subscribe_msg chs)) = 4 * length chs"
    using framed_subscribe [OF small] by (simp_all add: framed_def subscribe_msg_def length_concat_le Let_def)
  have zero: "msg_type (fst (subscribe_msg chs)) = 0"
    and chunks: "map from_le_bytes (chunks_exact4 (snd (subscribe_msg chs))) = chs"
    using chunks_channels [of chs] by (simp_all add: subscribe_msg_def Let_def)
  show ?thesis
    unfolding handle_connection_header [OF inc] subscriber_handshake_eq Let_def plen
    using zero len chunks by simp
qed

text \<open>
  C18: the subscription arrives as it was made. When \<open>connect_filtered\<close> succeeds, the bus's
  handler, reading the bytes it wrote, registers a subscriber with exactly the given
  channels, every channel when none is given, a fresh queue of 8192 frames and the next id;
  more than 256 channels are refused and nothing is registered.
\<close>

theorem subscription_roundtrip:
  assumes "connect_filtered dial set_nodelay a chs = Ret (Inr sub)"
    and "dial a = Inr st" and "outgoing st = []" and "4 * length chs < 2 ^ 32"
    and "incoming bus_side = outgoing (reader sub) @ rest"
  shows "handle_connection bus_side (Some peer) s =
    Ret (if length chs \<le> 256
         then (SubscriberIo (bus_side\<lparr>incoming := rest\<rparr>) (length (chans s)) (sub_id s) peer,
               subscribed (set chs) peer s)
         else (Closed (bus_side\<lparr>incoming := snd (subscribe_msg chs) @ rest\<rparr>), print (SubscribeTooLarge peer) s))"
proof -
  have "outgoing (reader sub) = wire (subscribe_msg chs)"
    using assms(1-3) write_all_outgoing [of "wire (subscribe_msg chs)" st]
    by (fastforce simp: connect_filtered_wire split: sum.splits prod.splits)
  with assms(5) have "incoming bus_side = wire (subscribe_msg chs) @ rest" by simp
  from handle_subscribe [OF this assms(4)] show ?thesis .
qed

theorem subscription_roundtrip_witness:
  "handle_connection \<lparr>incoming = wire (subscribe_msg [1001, 1002]), outgoing = [], send_room = None\<rparr> (Some ''10.0.0.9'')
     \<lparr>registry = [], chans = [], sub_id = 0, printed = []\<rparr> =
   Ret (SubscriberIo \<lparr>incoming = [], outgoing = [], send_room = None\<rparr> 0 0 ''10.0.0.9'',
        subscribed {1001, 1002} ''10.0.0.9'' \<lparr>registry = [], chans = [], sub_id = 0, printed = []\<rparr>)"
proof -
  let ?st = "\<lparr>incoming = [], outgoing = [], send_room = None\<rparr>"
  let ?sub = "\<lparr>reader = ?st\<lparr>outgoing := wire (subscribe_msg [1001, 1002])\<rparr>\<rparr>"
  have "connect_filtered (\<lambda>_. Inr ?st) (\<lambda>_. Inr ()) ''bus'' [1001, 1002] = Ret (Inr ?sub)"
    by (simp add: connect_filtered_wire write_all_def)
  from subscription_roundtrip [OF this, of ?st "\<lparr>incoming = wire (subscribe_msg [1001, 1002]), outgoing = [], send_room = None\<rparr>" "[]"]
  show ?thesis by simp
qed

text \<open>
  A truncated list subscribes to everything. A handshake whose payload is one to three
  bytes names no whole channel, and the subscriber it registers receives every channel.
\<close>

lemma short_channel_list_means_all:
  assumes "unat (payload_len h) = length bs" and "0 < length bs" and "length bs < 4" and "msg_type h = 0"
    and "incoming st = wire (h, bs) @ rest"
  shows "handle_connection st (Some peer) s =
    Ret (SubscriberIo (st\<lparr>incoming := rest\<rparr>) (length (chans s)) (sub_id s) peer, subscribed {} peer s)"
proof -
  have inc: "incoming st = header_wire h @ bs @ rest"
    using assms(5) by (simp only: wire_def append_assoc fst_conv snd_conv)
  have "chunks_exact4 bs = []"
    using chunks_count [of bs] assms(3) by simp
  with assms(1-4) show ?thesis
    unfolding handle_connection_header [OF inc] subscriber_handshake_eq Let_def by simp
qed

lemma short_channel_list_means_all_example:
  "handle_connection
     \<lparr>incoming = wire (\<lparr>msg_type = 0, channel_id = 0, timestamp_ns = 0, payload_len = 2\<rparr>, [233, 3]),
      outgoing = [], send_room = None\<rparr> (Some ''x'') \<lparr>registry = [], chans = [], sub_id = 4, printed = []\<rparr> =
   Ret (SubscriberIo \<lparr>incoming = [], outgoing = [], send_room = None\<rparr> 0 4 ''x'',
        subscribed {} ''x'' \<lparr>registry = [], chans = [], sub_id = 4, printed = []\<rparr>)"
  using short_channel_list_means_all [of "\<lparr>msg_type = 0, channel_id = 0, timestamp_ns = 0, payload_len = 2\<rparr>"
      "[233, 3]" "\<lparr>incoming = wire (\<lparr>msg_type = 0, channel_id = 0, timestamp_ns = 0, payload_len = 2\<rparr>, [233, 3]),
      outgoing = [], send_room = None\<rparr>" "[]" "''x''" "\<lparr>registry = [], chans = [], sub_id = 4, printed = []\<rparr>"]
  by simp

end
