(* ===== verification/Bus_System.thy ===== *)
theory Bus_System
  imports Bus_Dispatch Bus_Connections "HOL-Library.Sublist"
begin

text \<open>
  The whole bus as a step relation: the accept loop of \<open>main\<close>, the dispatch thread and one
  thread for each connection take turns, a step being one turn of a thread's loop. A turn of
  the dispatch thread is one \<open>consume_one\<close>; the interleavings inside the ring's methods are
  the subject of the theories of the ring. A panic has no step: that no handler panics
  in a reachable state is proved.
\<close>

section \<open>State and steps\<close>

text \<open>
  Besides the program's state, two history variables: the messages the ring accepted with
  the connection they came from, and the bytes each connection's peer sends. \<open>joined\<close> records
  for every queue how many messages had been dispatched when it was made.
\<close>

record Bus =
  bus_ring :: Ring
  shared :: Shared
  dispatcher :: nat
  conns :: "Conn list"
  accepted :: "(nat \<times> Msg) list"
  joined :: "nat list"
  origin :: "u8 list list"

definition handed :: "Bus \<Rightarrow> nat" where
  "handed b = unat (consumers (bus_ring b) ! dispatcher b)"

text \<open>The first lines of \<open>main\<close>: \<open>expect\<close> panics if the dispatcher cannot be registered.\<close>

definition bus_start :: "Bus outcome" where
  "bus_start =
     (case register_consumer ring_new of
        (Inl _, r) \<Rightarrow> Panic
      | (Inr dispatch_consumer_id, r) \<Rightarrow>
          Ret \<lparr>bus_ring = r, shared = \<lparr>registry = [], chans = [], sub_id = 0, printed = []\<rparr>,
               dispatcher = dispatch_consumer_id, conns = [], accepted = [], joined = [], origin = []\<rparr>)"

definition set_conn :: "nat \<Rightarrow> Conn \<Rightarrow> Bus \<Rightarrow> Bus" where
  "set_conn i c b = b\<lparr>conns := (conns b)[i := c]\<rparr>"

inductive bus_step :: "Bus \<Rightarrow> Bus \<Rightarrow> bool" where
  accept: "outgoing st = [] \<Longrightarrow>
    bus_step b (b\<lparr>conns := conns b @ [Handshake st peer], origin := origin b @ [incoming st]\<rparr>)"
| handshake: "i < length (conns b) \<Longrightarrow> conns b ! i = Handshake st peer \<Longrightarrow>
    handle_connection st peer (shared b) = Ret (c, s) \<Longrightarrow>
    bus_step b (set_conn i c (b\<lparr>shared := s,
      joined := joined b @ replicate (length (chans s) - length (chans (shared b))) (handed b)\<rparr>))"
| read: "i < length (conns b) \<Longrightarrow> conns b ! i = RunPublisher st peer \<Longrightarrow>
    publisher_read st peer (shared b) = Ret (c, s) \<Longrightarrow>
    bus_step b (set_conn i c (b\<lparr>shared := s\<rparr>))"
| publish: "i < length (conns b) \<Longrightarrow> conns b ! i = PublishOne h p st peer \<Longrightarrow>
    publish_attempt (bus_ring b) clk h p st peer (shared b) = (c, r, s) \<Longrightarrow>
    bus_step b (set_conn i c (b\<lparr>bus_ring := r, shared := s,
      accepted := accepted b @
        (if fst (Ring.publish (bus_ring b) clk (channel_id h) (msg_type h) p) = Inr ()
         then [(i, stamped clk (channel_id h) (msg_type h) p)] else [])\<rparr>))"
| dispatch: "dispatch_iter (\<lambda>_. bus_ring b) (dispatcher b) (shared b) = Some (Ret (r, s)) \<Longrightarrow>
    bus_step b (b\<lparr>bus_ring := r, shared := s\<rparr>)"
| send: "i < length (conns b) \<Longrightarrow> conns b ! i = SubscriberIo st rx sid peer \<Longrightarrow>
    subscriber_io_iter st rx sid peer (shared b) = Some (c, s) \<Longrightarrow>
    bus_step b (set_conn i c (b\<lparr>shared := s\<rparr>))"
| leave: "i < length (conns b) \<Longrightarrow> conns b ! i = SubscriberLeaving st sid peer \<Longrightarrow>
    bus_step b (set_conn i (Closed st) (b\<lparr>shared := subscriber_leave sid (shared b)\<rparr>))"

inductive_cases bus_stepE: "bus_step b b'"

inductive bus_reach :: "Bus \<Rightarrow> bool" where
  start: "bus_start = Ret b \<Longrightarrow> bus_reach b"
| step: "bus_reach b \<Longrightarrow> bus_step b b' \<Longrightarrow> bus_reach b'"

section \<open>The invariant\<close>

text \<open>The ring represents the accepted messages, and the dispatcher is its one consumer.\<close>

definition bus_log :: "Bus \<Rightarrow> Log" where
  "bus_log b = \<lparr>msgs = map snd (accepted b), positions = (replicate MAX_CONSUMERS None)[0 := Some (handed b)]\<rparr>"

definition ring_ok :: "Bus \<Rightarrow> bool" where
  "ring_ok b \<longleftrightarrow> ring_rel (bus_log b) (bus_ring b) \<and> dispatcher b = 0"

text \<open>Queues and registry: every id is the number of its queue, and queues are bounded.\<close>

definition shared_ok :: "Shared \<Rightarrow> bool" where
  "shared_ok s \<longleftrightarrow> hash_map_wf (registry s) \<and> sub_id s = word_of_nat (length (chans s)) \<and>
     list_all (\<lambda>(i, e). tx e < length (chans s) \<and> i = word_of_nat (tx e)) (registry s) \<and>
     list_all (\<lambda>c. bound c = DEFAULT_QUEUE_DEPTH \<and> length (buffer c) \<le> DEFAULT_QUEUE_DEPTH) (chans s) \<and>
     DispatchFellBehind \<notin> set (printed s)"

text \<open>What a publisher's connection has sent, against what the ring accepted from it.\<close>

definition core :: "Msg \<Rightarrow> u32 \<times> u8 \<times> u8 list" where
  "core m = (m_channel_id m, m_msg_type m, m_payload m)"

definition core_of :: "MsgHeader \<times> u8 list \<Rightarrow> u32 \<times> u8 \<times> u8 list" where
  "core_of m = (channel_id (fst m), msg_type (fst m), snd m)"

definition acceptable :: "MsgHeader \<times> u8 list \<Rightarrow> bool" where
  "acceptable m \<longleftrightarrow> framed m \<and> length (snd m) \<le> PAYLOAD_CAP"

definition sent_by :: "nat \<Rightarrow> (nat \<times> Msg) list \<Rightarrow> Msg list" where
  "sent_by i acc = map snd (filter (\<lambda>(j, _). j = i) acc)"

definition parsed :: "u8 list \<Rightarrow> Msg list \<Rightarrow> u8 list \<Rightarrow> bool" where
  "parsed bytes ms rest \<longleftrightarrow>
     (\<exists>fs. list_all acceptable fs \<and> bytes = concat (map wire fs) @ rest \<and> map core ms = map core_of fs)"

text \<open>
  What a subscriber has been sent: \<open>hm\<close> are the messages dispatched so far. The frames
  written to its socket, followed by those in its queue, are a subsequence of the frames of
  the matching messages since it joined, and all of them if no slow line was printed.
\<close>

definition slowed :: "u64 \<Rightarrow> LogLine list \<Rightarrow> bool" where
  "slowed sid ls \<longleftrightarrow> (\<exists>a ch. SubscriberSlow sid a ch \<in> set ls)"

definition expected :: "SubEntry \<Rightarrow> nat \<Rightarrow> Msg list \<Rightarrow> Frame list" where
  "expected e j hm = map frame_of (filter (\<lambda>m. matches e (m_channel_id m)) (drop j hm))"

definition delivers :: "Frame list \<Rightarrow> bool \<Rightarrow> Frame list \<Rightarrow> bool" where
  "delivers fs slow ex \<longleftrightarrow> subseq fs ex \<and> (\<not> slow \<longrightarrow> fs = ex)"

definition sub_ok :: "Shared \<Rightarrow> nat list \<Rightarrow> Msg list \<Rightarrow> TcpStream \<Rightarrow> nat \<Rightarrow> u64 \<Rightarrow> bool" where
  "sub_ok s jn hm st rx sid \<longleftrightarrow>
     rx < length (chans s) \<and> sid = word_of_nat rx \<and> jn ! rx \<le> length hm \<and>
     (\<exists>e ws. map_of (registry s) sid = Some e \<and> tx e = rx \<and> outgoing st = concat ws \<and>
             delivers (ws @ buffer (chans s ! rx)) (slowed sid (printed s)) (expected e (jn ! rx) hm))"

definition dispatched :: "Bus \<Rightarrow> Msg list" where
  "dispatched b = take (handed b) (map snd (accepted b))"

fun conn_ok :: "Bus \<Rightarrow> nat \<Rightarrow> Conn \<Rightarrow> bool" where
  "conn_ok b i (Handshake st peer) \<longleftrightarrow>
     incoming st = origin b ! i \<and> outgoing st = [] \<and> sent_by i (accepted b) = []"
| "conn_ok b i (RunPublisher st peer) \<longleftrightarrow> parsed (origin b ! i) (sent_by i (accepted b)) (incoming st)"
| "conn_ok b i (PublishOne h p st peer) \<longleftrightarrow> acceptable (h, p) \<and>
     parsed (origin b ! i) (sent_by i (accepted b)) (wire (h, p) @ incoming st)"
| "conn_ok b i (SubscriberIo st rx sid peer) \<longleftrightarrow> sent_by i (accepted b) = [] \<and>
     sub_ok (shared b) (joined b) (dispatched b) st rx sid"
| "conn_ok b i (SubscriberLeaving st sid peer) \<longleftrightarrow> sent_by i (accepted b) = [] \<and>
     (\<exists>rx<length (chans (shared b)). sid = word_of_nat rx) \<and> map_of (registry (shared b)) sid \<noteq> None"
| "conn_ok b i (Closed st) \<longleftrightarrow> (\<exists>rest. parsed (origin b ! i) (sent_by i (accepted b)) rest)"

fun conn_sid :: "Conn \<Rightarrow> u64 option" where
  "conn_sid (SubscriberIo st rx sid peer) = Some sid"
| "conn_sid (SubscriberLeaving st sid peer) = Some sid"
| "conn_sid _ = None"

fun_cases conn_sid_SomeE: "conn_sid c = Some sid"

text \<open>Every entry of the registry belongs to exactly one running thread.\<close>

definition owners_ok :: "Bus \<Rightarrow> bool" where
  "owners_ok b \<longleftrightarrow>
     (\<forall>i<length (conns b). \<forall>j<length (conns b).
        conn_sid (conns b ! i) = conn_sid (conns b ! j) \<longrightarrow> conn_sid (conns b ! i) = None \<or> i = j) \<and>
     (\<forall>sid. map_of (registry (shared b)) sid \<noteq> None \<longrightarrow>
        (\<exists>i<length (conns b). conn_sid (conns b ! i) = Some sid))"

definition bus_inv :: "Bus \<Rightarrow> bool" where
  "bus_inv b \<longleftrightarrow> ring_ok b \<and> shared_ok (shared b) \<and> length (origin b) = length (conns b) \<and>
     length (joined b) = length (chans (shared b)) \<and> owners_ok b \<and>
     (\<forall>(i, m)\<in>set (accepted b). i < length (conns b)) \<and>
     (\<forall>i<length (conns b). conn_ok b i (conns b ! i))"

text \<open>The bounds under which the 64-bit counters do not wrap.\<close>

definition bus_small :: "Bus \<Rightarrow> bool" where
  "bus_small b \<longleftrightarrow> length (accepted b) < 2 ^ 64 - 1 \<and> length (chans (shared b)) < 2 ^ 64"

end
