(* ===== verification/Bus_Invariant.thy ===== *)
theory Bus_Invariant
  imports Bus_System
begin

text \<open>
  Every step of the bus keeps its invariant: one lemma for each part of the state a
  step changes, then one case for each step.
\<close>

section \<open>The shared state\<close>

lemma print_simps [simp]:
  "registry (print l s) = registry s" "chans (print l s) = chans s" "sub_id (print l s) = sub_id s"
  "printed (print l s) = printed s @ [l]"
  by (simp_all add: print_def)

lemma subscribed_simps [simp]:
  "chans (subscribed chs peer s) = chans s @ [\<lparr>buffer = [], bound = 8192\<rparr>]"
  "printed (subscribed chs peer s) = printed s @ [SubscriberUp peer (sub_id s)]"
  "map_of (registry (subscribed chs peer s)) =
     (map_of (registry s))(sub_id s \<mapsto> \<lparr>tx = length (chans s), channels = chs, filter_all = (chs = {}), addr = peer\<rparr>)"
  by (simp_all add: subscribed_def)

lemma offered_simps [simp]:
  "registry (offered f ch es s) = registry s" "sub_id (offered f ch es s) = sub_id s"
  "printed (offered f ch es s) = printed s @ slow_lines ch es (chans s)"
  "h < length (chans s) \<Longrightarrow> chans (offered f ch es s) ! h = offer f ch es h (chans s ! h)"
  by (simp_all add: offered_def)

lemma shared_okD:
  assumes "shared_ok s"
  shows "hash_map_wf (registry s)" "sub_id s = word_of_nat (length (chans s))"
    "map_of (registry s) i = Some e \<Longrightarrow> tx e < length (chans s) \<and> i = word_of_nat (tx e)"
    "h < length (chans s) \<Longrightarrow> bound (chans s ! h) = DEFAULT_QUEUE_DEPTH \<and>
       length (buffer (chans s ! h)) \<le> DEFAULT_QUEUE_DEPTH"
    "DispatchFellBehind \<notin> set (printed s)"
  using assms by (auto simp: shared_ok_def list_all_iff dest!: map_of_SomeD dest: nth_mem)

lemma shared_ok_print: "shared_ok s \<Longrightarrow> l \<noteq> DispatchFellBehind \<Longrightarrow> shared_ok (print l s)"
  by (simp add: shared_ok_def)

lemma shared_ok_subscribed: "shared_ok s \<Longrightarrow> shared_ok (subscribed chs peer s)"
  by (auto simp: shared_ok_def subscribed_def list_all_iff hash_insert_def hash_remove_def
      DEFAULT_QUEUE_DEPTH_def hash_map_wf_def less_Suc_eq distinct_map_filter)

lemma shared_ok_leave: "shared_ok s \<Longrightarrow> shared_ok (subscriber_leave sid s)"
  by (auto simp: shared_ok_def subscriber_leave_def list_all_iff hash_remove_def hash_map_wf_def
      distinct_map_filter)

lemma shared_ok_registry_ok:
  assumes "shared_ok s"
  shows "registry_ok s"
proof -
  have "map fst (registry s) = map word_of_nat (map (tx \<circ> snd) (registry s))"
    using assms by (auto simp: shared_ok_def list_all_iff)
  then have "distinct (map (tx \<circ> snd) (registry s))"
    using shared_okD(1) [OF assms] by (metis distinct_map hash_map_wf_def)
  then show ?thesis
    using assms by (auto simp: registry_ok_def shared_ok_def list_all_iff)
qed

lemma shared_ok_offered:
  assumes "shared_ok s"
  shows "shared_ok (offered f ch (registry s) s)"
proof -
  have "bound (offer f ch es h c) = DEFAULT_QUEUE_DEPTH \<and> length (buffer (offer f ch es h c)) \<le> DEFAULT_QUEUE_DEPTH"
    if "bound c = DEFAULT_QUEUE_DEPTH" "length (buffer c) \<le> DEFAULT_QUEUE_DEPTH" for es h c
    using that by (simp add: offer_def full_def)
  moreover have "DispatchFellBehind \<notin> set (slow_lines ch es cs)" for es cs
    by (auto simp: slow_lines_def)
  ultimately show ?thesis
    using assms by (simp add: shared_ok_def list_all_length)
qed

lemma recv_Received:
  assumes "recv h s = Received f cs"
  obtains fs where "buffer (chans s ! h) = f # fs" "cs = (chans s)[h := (chans s ! h)\<lparr>buffer := fs\<rparr>]"
  using assms by (auto simp: recv_def split: list.splits if_splits)

lemma shared_ok_received:
  assumes ok: "shared_ok s" and "recv h s = Received f cs"
  shows "shared_ok (s\<lparr>chans := cs\<rparr>)"
proof -
  obtain fs where b: "buffer (chans s ! h) = f # fs" and cs: "cs = (chans s)[h := (chans s ! h)\<lparr>buffer := fs\<rparr>]"
    using assms(2) by (rule recv_Received)
  show ?thesis
  proof (cases "h < length (chans s)")
    case True
    from shared_okD(4) [OF ok True] have "length fs \<le> DEFAULT_QUEUE_DEPTH" by (simp add: b)
    with ok True shared_okD(4) [OF ok True] show ?thesis
      by (simp add: cs shared_ok_def list_all_length nth_list_update)
  next
    case False
    with ok show ?thesis by (simp add: cs shared_ok_def list_update_beyond)
  qed
qed

section \<open>What a subscriber is owed\<close>

lemma expected_snoc:
  "j \<le> length hm \<Longrightarrow>
   expected e j (hm @ [m]) = expected e j hm @ (if matches e (m_channel_id m) then [frame_of m] else [])"
  by (simp add: expected_def)

lemma delivers_weaken: "delivers fs slow ex \<Longrightarrow> (slow \<longrightarrow> slow') \<Longrightarrow> delivers fs slow' ex"
  by (auto simp: delivers_def)

lemma slowed_append: "slowed sid (ls @ ls') \<longleftrightarrow> slowed sid ls \<or> slowed sid ls'"
  by (auto simp: slowed_def)

lemma slowed_other: "\<forall>sid a ch. l \<noteq> SubscriberSlow sid a ch \<Longrightarrow> slowed sid (ls @ [l]) \<longleftrightarrow> slowed sid ls"
  unfolding slowed_def by (metis Un_iff in_set_conv_decomp set_ConsD set_append list.set_intros(1) append_is_Nil_conv emptyE empty_set)

lemma sub_ok_cong:
  assumes "sub_ok s jn hm st rx sid"
    and "map_of (registry s') sid = map_of (registry s) sid"
    and "rx < length (chans s) \<Longrightarrow> rx < length (chans s') \<and> chans s' ! rx = chans s ! rx \<and> jn' ! rx = jn ! rx"
    and "slowed sid (printed s) \<longrightarrow> slowed sid (printed s')"
  shows "sub_ok s' jn' hm st rx sid"
  using assms delivers_weaken unfolding sub_ok_def by (metis (no_types, lifting))

lemma sub_ok_subscribed:
  assumes "outgoing st = []" and "length jn = length (chans s)" and "shared_ok s" and "n = length hm"
  shows "sub_ok (subscribed chs peer s) (jn @ [n]) hm st (length (chans s)) (sub_id s)"
  using assms shared_okD(2) [OF assms(3)]
  by (auto simp: sub_ok_def expected_def delivers_def nth_append intro: exI [of _ "[]"])

lemma sub_ok_offered:
  assumes ok: "shared_ok s" and sub: "sub_ok s jn hm st rx sid"
  shows "sub_ok (offered (frame_of m) (m_channel_id m) (registry s) s) jn (hm @ [m]) st rx sid"
proof -
  let ?ch = "m_channel_id m" and ?f = "frame_of m" and ?c = "chans s ! rx"
  let ?s = "offered ?f ?ch (registry s) s"
  obtain e ws where e: "map_of (registry s) sid = Some e" "tx e = rx" and out: "outgoing st = concat ws"
    and del: "delivers (ws @ buffer ?c) (slowed sid (printed s)) (expected e (jn ! rx) hm)"
    and rx: "rx < length (chans s)" "sid = word_of_nat rx" "jn ! rx \<le> length hm"
    using sub by (auto simp: sub_ok_def)
  have only: "list_ex (\<lambda>(_, e'). tx e' = rx \<and> matches e' ?ch) (registry s) \<longleftrightarrow> matches e ?ch"
  proof
    assume "list_ex (\<lambda>(_, e'). tx e' = rx \<and> matches e' ?ch) (registry s)"
    then obtain i e' where i: "(i, e') \<in> set (registry s)" "tx e' = rx" "matches e' ?ch"
      by (auto simp: list_ex_iff)
    with shared_okD(1) [OF ok] have "map_of (registry s) i = Some e'"
      by (simp add: hash_map_mem_iff)
    with shared_okD(3) [OF ok] i(2) rx(2) e(1) have "e' = e" by fastforce
    with i show "matches e ?ch" by simp
  next
    assume "matches e ?ch"
    with e show "list_ex (\<lambda>(_, e'). tx e' = rx \<and> matches e' ?ch) (registry s)"
      by (auto simp: list_ex_iff dest!: map_of_SomeD)
  qed
  have slow: "slowed sid (slow_lines ?ch (registry s) (chans s))" if "matches e ?ch" "full ?c"
    using that map_of_SomeD [OF e(1)] e(2) by (force simp: slowed_def slow_lines_def)
  have "delivers (ws @ buffer (chans ?s ! rx)) (slowed sid (printed ?s)) (expected e (jn ! rx) (hm @ [m]))"
  proof (cases "matches e ?ch")
    case False
    with del show ?thesis
      by (auto simp: rx offer_def only expected_snoc slowed_append delivers_def)
  next
    case True
    with del slow show ?thesis
      by (cases "full ?c")
        (auto simp: rx offer_def only expected_snoc slowed_append delivers_def
          simp flip: append_assoc)
  qed
  with e out rx show ?thesis
    by (auto simp: sub_ok_def)
qed

lemma sub_ok_received:
  assumes "sub_ok s jn hm st rx sid" and "recv rx s = Received f cs" and "write_all f st = (Inr u, st')"
  shows "sub_ok (s\<lparr>chans := cs\<rparr>) jn hm st' rx sid"
proof -
  obtain fs where b: "buffer (chans s ! rx) = f # fs" and cs: "cs = (chans s)[rx := (chans s ! rx)\<lparr>buffer := fs\<rparr>]"
    using assms(2) by (rule recv_Received)
  obtain e ws where e: "map_of (registry s) sid = Some e" "tx e = rx" and out: "outgoing st = concat ws"
    and del: "delivers (ws @ buffer (chans s ! rx)) (slowed sid (printed s)) (expected e (jn ! rx) hm)"
    and rx: "rx < length (chans s)" "sid = word_of_nat rx" "jn ! rx \<le> length hm"
    using assms(1) by (auto simp: sub_ok_def)
  have "outgoing st' = concat (ws @ [f])"
    using assms(3) out by (auto simp: write_all_def split: option.splits if_splits)
  moreover have "delivers ((ws @ [f]) @ buffer (cs ! rx)) (slowed sid (printed s)) (expected e (jn ! rx) hm)"
    using del b rx(1) by (simp add: cs)
  ultimately show ?thesis
    using e rx cs unfolding sub_ok_def by (auto simp del: concat_append append_assoc)
qed

section \<open>The ring\<close>

lemma ring_ok_cong:
  "ring_ok b \<Longrightarrow> bus_ring b' = bus_ring b \<Longrightarrow> accepted b' = accepted b \<Longrightarrow> dispatcher b' = dispatcher b \<Longrightarrow>
   ring_ok b' \<and> dispatched b' = dispatched b"
  by (auto simp: ring_ok_def bus_log_def handed_def dispatched_def)

lemma handed_le: "ring_ok b \<Longrightarrow> handed b \<le> length (accepted b)"
  using ring_log.rel_position [of "bus_log b" "bus_ring b" 0 "handed b"]
  by (simp add: ring_ok_def bus_log_def MAX_CONSUMERS_def)

lemma ring_ok_publish:
  assumes ok: "ring_ok b" and pub: "Ring.publish (bus_ring b) clk ch mt p = (res, r)"
    and acc: "acc = accepted b @ (if res = Inr () then [(i, stamped clk ch mt p)] else [])"
    and small: "length acc < 2 ^ 64 - 1"
    and b': "bus_ring b' = r" "accepted b' = acc" "dispatcher b' = dispatcher b"
  shows "ring_ok b' \<and> dispatched b' = dispatched b"
proof -
  have "consumers r = consumers (bus_ring b)"
    using publish_consumers [of "bus_ring b" clk ch mt p] pub by simp
  then have h: "handed b' = handed b"
    using b' by (simp add: handed_def)
  have rel: "ring_rel (bus_log b) (bus_ring b)"
    using ok by (simp add: ring_ok_def)
  have "ring_rel (bus_log b') r"
  proof (cases res)
    case (Inl e)
    then have "r = bus_ring b"
      using publish_refused [of "bus_ring b" clk ch mt p e] pub by simp
    with rel Inl h show ?thesis by (simp add: bus_log_def b' acc)
  next
    case (Inr u)
    then have "Suc (length (msgs (bus_log b))) < 2 ^ 64 - 1"
      using small by (simp add: acc bus_log_def)
    from publish_sim [OF rel this, of clk ch mt p] pub Inr
    have "fst (log_publish (bus_log b) (stamped clk ch mt p)) = Inr ()"
      "ring_rel (snd (log_publish (bus_log b) (stamped clk ch mt p))) r" by simp_all
    with Inr h show ?thesis
      by (auto simp: log_publish_def bus_log_def b' acc split: if_splits)
  qed
  moreover have "dispatched b' = dispatched b"
    using handed_le [OF ok] by (simp add: dispatched_def h b' acc)
  ultimately show ?thesis
    using ok b' by (simp add: ring_ok_def)
qed

lemma bus_dispatch_iter:
  assumes ok: "ring_ok b" and sh: "shared_ok (shared b)"
  shows "dispatch_iter (\<lambda>_. bus_ring b) (dispatcher b) (shared b) =
    (if handed b < length (accepted b)
     then let m = snd (accepted b ! handed b) in
       Some (Ret (advance (bus_ring b) 0, offered (frame_of m) (m_channel_id m) (registry (shared b)) (shared b)))
     else None)"
  using dispatch_iter_log [of "bus_log b" "bus_ring b" 0 "handed b" "shared b"] ok
    shared_ok_registry_ok [OF sh]
  by (simp add: ring_ok_def bus_log_def MAX_CONSUMERS_def Let_def)

lemma ring_ok_dispatch:
  assumes ok: "ring_ok b" and less: "handed b < length (accepted b)"
    and b': "bus_ring b' = advance (bus_ring b) 0" "accepted b' = accepted b" "dispatcher b' = dispatcher b"
  shows "ring_ok b' \<and> dispatched b' = dispatched b @ [snd (accepted b ! handed b)]"
proof -
  have rel: "ring_rel (bus_log b) (bus_ring b)" and d: "dispatcher b = 0"
    using ok by (simp_all add: ring_ok_def)
  have p: "0 < MAX_CONSUMERS" "positions (bus_log b) ! 0 = Some (handed b)" "handed b < length (msgs (bus_log b))"
    using less by (simp_all add: bus_log_def MAX_CONSUMERS_def)
  have "0 < length (consumers (bus_ring b))"
    using ring_relD(1) [OF rel] by (simp add: ring_shape_def MAX_CONSUMERS_def)
  then have h: "handed b' = Suc (handed b)"
    using next_slot(2) [OF rel p(1,2)] by (simp add: handed_def b' d advance_def)
  have "log_advance (bus_log b) 0 = bus_log b'"
    using p(1) by (simp add: log_advance_def bus_log_def h b')
  with advance_rel [OF rel p] have "ring_rel (bus_log b') (bus_ring b')"
    by (simp add: b')
  moreover have "dispatched b' = dispatched b @ [snd (accepted b ! handed b)]"
    using less by (simp add: dispatched_def h b' take_Suc_conv_app_nth)
  ultimately show ?thesis
    using d b' by (simp add: ring_ok_def)
qed

section \<open>Connections\<close>

lemma parsed_Nil: "parsed bytes [] bytes"
  by (auto simp: parsed_def intro: exI [of _ "[]"])

lemma parsed_snoc:
  assumes "parsed bytes ms (wire f @ rest)" and "acceptable f" and "core m = core_of f"
  shows "parsed bytes (ms @ [m]) rest"
proof -
  obtain fs where "list_all acceptable fs" "bytes = concat (map wire fs) @ wire f @ rest" "map core ms = map core_of fs"
    using assms(1) by (auto simp: parsed_def)
  with assms(2,3) show ?thesis
    unfolding parsed_def by (intro exI [of _ "fs @ [f]"]) simp
qed

lemma sent_by_append:
  "sent_by i (acc @ acc') = sent_by i acc @ sent_by i acc'" "sent_by i [] = []"
  "sent_by i [(j, m)] = (if j = i then [m] else [])"
  by (simp_all add: sent_by_def)

lemma sent_by_new: "\<forall>(i, m)\<in>set acc. i < n \<Longrightarrow> sent_by n acc = []"
  by (force simp: sent_by_def filter_empty_conv)

lemma conn_ok_conns [simp]: "conn_ok (b\<lparr>conns := cs\<rparr>) i c \<longleftrightarrow> conn_ok b i c"
  by (cases c) (simp_all add: dispatched_def handed_def)

lemma conn_ok_frame:
  assumes "conn_ok b j c" and "origin b' ! j = origin b ! j" and "sent_by j (accepted b') = sent_by j (accepted b)"
    and "\<And>st rx sid. conn_sid c = Some sid \<Longrightarrow> sub_ok (shared b) (joined b) (dispatched b) st rx sid \<Longrightarrow>
      sub_ok (shared b') (joined b') (dispatched b') st rx sid"
    and "\<And>sid. conn_sid c = Some sid \<Longrightarrow> map_of (registry (shared b)) sid \<noteq> None \<Longrightarrow>
      map_of (registry (shared b')) sid \<noteq> None"
    and "length (chans (shared b)) \<le> length (chans (shared b'))"
  shows "conn_ok b' j c"
  using assms by (cases c) (auto intro: less_le_trans)

lemma handle_connection_cases:
  assumes "handle_connection st peer s = Ret (c, s')"
  obtains (closed) st' where "c = Closed st'" "s' = s \<or> (\<exists>l. s' = print l s \<and> l \<noteq> DispatchFellBehind \<and> (\<forall>sid a ch. l \<noteq> SubscriberSlow sid a ch))"
  | (sub) st' p chs where "c = SubscriberIo st' (length (chans s)) (sub_id s) p" "outgoing st' = outgoing st"
      "s' = subscribed chs p s"
  | (pub) h pl st' p where "c = PublishOne h pl st' p" "acceptable (h, pl)"
      "incoming st = wire (h, pl) @ incoming st'" "s' = print (PublisherUp p) s"
proof (cases peer)
  case None
  with assms show thesis by (auto simp: handle_connection_def intro: closed)
next
  case (Some p)
  show thesis
  proof (cases "incoming st" rule: stream_cases)
    case short
    with assms Some show thesis by (auto simp: handle_connection_def read_exact_def intro: closed)
  next
    case (header h r)
    from handle_connection_header [OF header(4), of p s] assms Some
    have eq: "Ret (c, s') = (if msg_type h = 0 then subscriber_handshake h (st\<lparr>incoming := r\<rparr>) p s
                         else publisher_handshake h (st\<lparr>incoming := r\<rparr>) p s)" by simp
    show thesis
    proof (cases "msg_type h = 0")
      case True
      with eq show thesis
        by (auto simp: subscriber_handshake_eq Let_def split: if_splits intro: closed sub)
    next
      case False
      let ?n = "unat (payload_len h)"
      have eq': "(c, s') = (if PAYLOAD_CAP < ?n then (Closed (st\<lparr>incoming := r\<rparr>), print (PublishTooLarge p) s)
          else if ?n \<le> length r then (PublishOne h (take ?n r) (st\<lparr>incoming := drop ?n r\<rparr>) p, print (PublisherUp p) s)
          else (Closed (st\<lparr>incoming := []\<rparr>), s))"
        using eq False unfolding publisher_handshake_Ret Let_def read_payload
        by (simp add: read_exact_split split: if_splits)
      show thesis
      proof (cases "?n \<le> PAYLOAD_CAP \<and> ?n \<le> length r")
        case True
        moreover from this have "incoming st = wire (h, take ?n r) @ drop ?n r \<and> framed (h, take ?n r)"
          using header(4) frame_iff [of h r "(h, take ?n r)" "drop ?n r"] by metis
        ultimately show thesis
          using eq' by (intro pub [of h "take ?n r" "st\<lparr>incoming := drop ?n r\<rparr>" p])
            (auto simp: acceptable_def)
      next
        case False
        with eq' show thesis by (auto split: if_splits intro: closed)
      qed
    qed
  qed
qed

section \<open>Owners of registry entries\<close>

definition owned :: "Conn list \<Rightarrow> bool" where
  "owned cs \<longleftrightarrow> (\<forall>i<length cs. \<forall>j<length cs.
     conn_sid (cs ! i) = conn_sid (cs ! j) \<longrightarrow> conn_sid (cs ! i) = None \<or> i = j)"

lemma owners_ok_iff:
  "owners_ok b \<longleftrightarrow> owned (conns b) \<and>
     (\<forall>sid. map_of (registry (shared b)) sid \<noteq> None \<longrightarrow> (\<exists>i<length (conns b). conn_sid (conns b ! i) = Some sid))"
  by (simp add: owners_ok_def owned_def)

lemma owned_update:
  assumes "owned cs" and "i < length cs"
    and "\<And>j sid. j < length cs \<Longrightarrow> j \<noteq> i \<Longrightarrow> conn_sid c = Some sid \<Longrightarrow> conn_sid (cs ! j) \<noteq> Some sid"
  shows "owned (cs[i := c])"
  unfolding owned_def
proof (intro allI impI)
  fix k j assume kj: "k < length (cs[i := c])" "j < length (cs[i := c])"
    "conn_sid (cs[i := c] ! k) = conn_sid (cs[i := c] ! j)"
  show "conn_sid (cs[i := c] ! k) = None \<or> k = j"
  proof (cases "k = i \<or> j = i")
    case True
    with kj assms(2) assms(3) [of j] assms(3) [of k] show ?thesis
      by (cases "conn_sid c") (auto simp: nth_list_update split: if_splits)
  next
    case False
    with kj assms(1) show ?thesis by (auto simp: owned_def)
  qed
qed

lemma owners_ok_update:
  assumes ok: "owners_ok b" and i: "i < length (conns b)" and b': "conns b' = (conns b)[i := c]"
    and sid: "\<And>j sid. j < length (conns b) \<Longrightarrow> j \<noteq> i \<Longrightarrow> conn_sid c = Some sid \<Longrightarrow> conn_sid (conns b ! j) \<noteq> Some sid"
    and reg: "\<And>sid. map_of (registry (shared b')) sid \<noteq> None \<Longrightarrow> conn_sid c = Some sid \<or>
      (map_of (registry (shared b)) sid \<noteq> None \<and> conn_sid (conns b ! i) \<noteq> Some sid)"
  shows "owners_ok b'"
  unfolding owners_ok_iff
proof (intro conjI allI impI)
  show "owned (conns b')"
    unfolding b' by (rule owned_update) (use ok i sid in \<open>auto simp: owners_ok_iff\<close>)
  fix s assume "map_of (registry (shared b')) s \<noteq> None"
  from reg [OF this] show "\<exists>j<length (conns b'). conn_sid (conns b' ! j) = Some s"
  proof
    assume "conn_sid c = Some s"
    with i b' show ?thesis by (intro exI [of _ i]) simp
  next
    assume s: "map_of (registry (shared b)) s \<noteq> None \<and> conn_sid (conns b ! i) \<noteq> Some s"
    with ok obtain j where "j < length (conns b)" "conn_sid (conns b ! j) = Some s"
      by (auto simp: owners_ok_iff)
    moreover from this s have "j \<noteq> i" by auto
    ultimately show ?thesis
      using b' by (intro exI [of _ j]) simp
  qed
qed

section \<open>Steps\<close>

lemma bus_invD:
  assumes "bus_inv b"
  shows "ring_ok b" "shared_ok (shared b)" "length (origin b) = length (conns b)"
    "length (joined b) = length (chans (shared b))" "owners_ok b"
    "\<forall>(i, m)\<in>set (accepted b). i < length (conns b)"
    "i < length (conns b) \<Longrightarrow> conn_ok b i (conns b ! i)"
  using assms by (simp_all add: bus_inv_def)

lemma bus_inv_set_conn:
  assumes inv: "bus_inv b" and i: "i < length (conns b)" and b1: "conns b1 = conns b" "origin b1 = origin b"
    and "ring_ok b1" and "shared_ok (shared b1)" and "length (joined b1) = length (chans (shared b1))"
    and "\<forall>(j, m)\<in>set (accepted b1). j < length (conns b)"
    and "conn_ok b1 i c" and others: "\<And>j. j < length (conns b) \<Longrightarrow> j \<noteq> i \<Longrightarrow> conn_ok b1 j (conns b ! j)"
    and "\<And>j sid. j < length (conns b) \<Longrightarrow> j \<noteq> i \<Longrightarrow> conn_sid c = Some sid \<Longrightarrow> conn_sid (conns b ! j) \<noteq> Some sid"
    and "\<And>sid. map_of (registry (shared b1)) sid \<noteq> None \<Longrightarrow> conn_sid c = Some sid \<or>
      (map_of (registry (shared b)) sid \<noteq> None \<and> conn_sid (conns b ! i) \<noteq> Some sid)"
  shows "bus_inv (set_conn i c b1)"
proof -
  have "owners_ok (set_conn i c b1)"
    by (rule owners_ok_update [OF bus_invD(5) [OF inv] i]) (use assms in \<open>simp_all add: set_conn_def\<close>)
  moreover have "ring_ok (set_conn i c b1)"
    using ring_ok_cong [OF assms(5), of "set_conn i c b1"] by (simp add: set_conn_def)
  moreover have "conn_ok b1 j ((conns b)[i := c] ! j)" if "j < length (conns b)" for j
    using that others assms(9) i by (cases "j = i") simp_all
  ultimately show ?thesis
    using assms bus_invD(3) [OF inv] by (simp add: bus_inv_def set_conn_def)
qed

text \<open>The ids of the running threads number existing queues.\<close>

lemma conn_sid_old:
  assumes "conn_ok b j c" and "conn_sid c = Some sid"
  shows "\<exists>rx<length (chans (shared b)). sid = word_of_nat rx"
  using assms(2,1) by (elim conn_sid_SomeE) (auto simp: sub_ok_def)

lemma word_of_nat_inj:
  assumes "m < 2 ^ 64" "n < 2 ^ 64" "(word_of_nat m :: u64) = word_of_nat n"
  shows "m = n"
proof -
  have "unat (word_of_nat k :: u64) = k" if "k < 2 ^ 64" for k
    using that by (simp add: unat_of_nat take_bit_nat_eq_self)
  with assms show ?thesis by metis
qed

lemma inv_accept:
  assumes inv: "bus_inv b" and "outgoing st = []"
  shows "bus_inv (b\<lparr>conns := conns b @ [Handshake st peer], origin := origin b @ [incoming st]\<rparr>)" (is "bus_inv ?b")
proof -
  let ?n = "length (conns b)"
  have rest: "ring_ok ?b" "dispatched ?b = dispatched b"
    using ring_ok_cong [OF bus_invD(1) [OF inv], of ?b] by simp_all
  have "conn_ok ?b i (conns ?b ! i)" if "i < length (conns ?b)" for i
  proof (cases "i = ?n")
    case True
    then show ?thesis
      using assms(2) bus_invD(3,6) [OF inv] by (simp add: nth_append sent_by_new)
  next
    case False
    with that have i: "i < ?n" by simp
    with bus_invD(7) [OF inv i] have "conn_ok ?b i (conns b ! i)"
      by (rule_tac conn_ok_frame) (auto simp: nth_append bus_invD(3) [OF inv] rest)
    with i show ?thesis by (simp add: nth_append)
  qed
  moreover have "owners_ok ?b"
    using bus_invD(5) [OF inv]
    unfolding owners_ok_iff owned_def by (auto simp: nth_append less_Suc_eq)
  moreover have "\<forall>(i, m)\<in>set (accepted ?b). i < length (conns ?b)"
    using bus_invD(6) [OF inv] by fastforce
  ultimately show ?thesis
    using rest bus_invD [OF inv] by (simp add: bus_inv_def)
qed

lemma inv_handshake:
  assumes inv: "bus_inv b" and i: "i < length (conns b)" and c: "conns b ! i = Handshake st peer"
    and h: "handle_connection st peer (shared b) = Ret (c', s)"
    and small: "length (chans s) < 2 ^ 64"
  defines "b1 \<equiv> b\<lparr>shared := s, joined := joined b @ replicate (length (chans s) - length (chans (shared b))) (handed b)\<rparr>"
  shows "bus_inv (set_conn i c' b1)"
proof -
  let ?s = "shared b"
  note sh = bus_invD(2) [OF inv]
  have ring: "ring_ok b1" "dispatched b1 = dispatched b"
    using ring_ok_cong [OF bus_invD(1) [OF inv], of b1] by (simp_all add: b1_def)
  have st: "incoming st = origin b ! i" "outgoing st = []" "sent_by i (accepted b) = []"
    using bus_invD(7) [OF inv i] c by simp_all
  have [simp]: "conns b1 = conns b" "origin b1 = origin b" "accepted b1 = accepted b" "shared b1 = s"
    by (simp_all add: b1_def)
  have frame: "conn_ok b1 j (conns b ! j)"
    if j: "j < length (conns b)" "j \<noteq> i" and same: "\<And>sid. conn_sid (conns b ! j) = Some sid \<Longrightarrow>
        map_of (registry s) sid = map_of (registry ?s) sid"
      and ch: "length (chans ?s) \<le> length (chans s)" "\<And>rx. rx < length (chans ?s) \<Longrightarrow> chans s ! rx = chans ?s ! rx"
      and slow: "\<And>sid. slowed sid (printed ?s) \<Longrightarrow> slowed sid (printed s)" for j
  proof (rule conn_ok_frame [OF bus_invD(7) [OF inv j(1)]])
    fix st rx sid
    assume sid: "conn_sid (conns b ! j) = Some sid"
      and ok: "sub_ok ?s (joined b) (dispatched b) st rx sid"
    show "sub_ok (shared b1) (joined b1) (dispatched b1) st rx sid"
      unfolding ring(2)
      by (rule sub_ok_cong [OF ok])
        (use same [OF sid] ch slow bus_invD(4) [OF inv] in \<open>auto simp: b1_def nth_append\<close>)
  qed (use same ch in simp_all)
  from h show ?thesis
  proof (cases rule: handle_connection_cases)
    case (closed st')
    then have s: "chans s = chans ?s" "registry s = registry ?s" "\<And>sid. slowed sid (printed s) = slowed sid (printed ?s)"
      "shared_ok s"
      using sh by (auto simp: shared_ok_print slowed_other)
    have "conn_ok b1 i c'"
      using closed(1) st(3) parsed_Nil [of "origin b ! i"] by auto
    then show ?thesis
      by (rule_tac bus_inv_set_conn [OF inv i])
        (use closed(1) s ring frame c bus_invD(4,6) [OF inv] in \<open>auto simp: b1_def\<close>)
  next
    case (sub st' p chs)
    let ?n = "length (chans ?s)"
    have new: "conn_sid (conns b ! j) \<noteq> Some (sub_id ?s)" if j: "j < length (conns b)" for j
    proof
      assume "conn_sid (conns b ! j) = Some (sub_id ?s)"
      then obtain rx where rx: "rx < ?n" "sub_id ?s = word_of_nat rx"
        using conn_sid_old [OF bus_invD(7) [OF inv j]] by blast
      moreover have "?n < 2 ^ 64"
        using small sub(3) by simp
      ultimately have "rx = ?n"
        using shared_okD(2) [OF sh] by (intro word_of_nat_inj) simp_all
      with rx show False by simp
    qed
    have len: "length (joined b) = ?n" "?n < length (chans s)" "length (chans s) - ?n = 1"
      using bus_invD(4) [OF inv] sub(3) by simp_all
    have "handed b = length (dispatched b)"
      using handed_le [OF bus_invD(1) [OF inv]] by (simp add: dispatched_def)
    then have "sub_ok s (joined b1) (dispatched b) st' ?n (sub_id ?s)"
      using sub_ok_subscribed [of st' "joined b" ?s "handed b" "dispatched b" chs p] sub len st(2) sh
      by (simp add: b1_def)
    then have "conn_ok b1 i c'"
      using sub(1) st(3) ring(2) by simp
    moreover have "conn_ok b1 j (conns b ! j)" if j: "j < length (conns b)" "j \<noteq> i" for j
    proof (rule frame [OF j])
      fix k assume "conn_sid (conns b ! j) = Some k"
      with new [OF j(1)] show "map_of (registry s) k = map_of (registry ?s) k"
        by (auto simp: sub(3))
    qed (use len sub(3) in \<open>auto simp: nth_append slowed_append\<close>)
    ultimately show ?thesis
      by (rule_tac bus_inv_set_conn [OF inv i])
        (use sub ring new len c bus_invD(6) [OF inv] shared_ok_subscribed [OF sh] in
          \<open>auto simp: b1_def split: if_splits\<close>)
  next
    case (pub hd pl st' p)
    have s: "chans s = chans ?s" "registry s = registry ?s" "\<And>sid. slowed sid (printed s) = slowed sid (printed ?s)"
      "shared_ok s"
      using sh pub(4) by (auto simp: shared_ok_print slowed_other)
    have "conn_ok b1 i c'"
      using pub(1-3) st parsed_Nil [of "origin b ! i"] by simp
    then show ?thesis
      by (rule_tac bus_inv_set_conn [OF inv i])
        (use pub(1) s ring frame c bus_invD(4,6) [OF inv] in \<open>auto simp: b1_def\<close>)
  qed
qed

text \<open>A step of one connection that changes only what is printed, for the other connections.\<close>

lemma conn_ok_printed:
  assumes "conn_ok b j c" and "b1 = b\<lparr>shared := s\<rparr>" and "ring_ok b"
    and "chans s = chans (shared b)" "registry s = registry (shared b)"
    and "\<And>sid. slowed sid (printed (shared b)) \<Longrightarrow> slowed sid (printed s)"
  shows "conn_ok b1 j c"
proof -
  have "dispatched b1 = dispatched b"
    using ring_ok_cong [OF assms(3), of b1] assms(2) by simp
  then show ?thesis
    using assms by (intro conn_ok_frame [OF assms(1)]) (auto intro: sub_ok_cong)
qed

lemma inv_read:
  assumes inv: "bus_inv b" and i: "i < length (conns b)" and c: "conns b ! i = RunPublisher st peer"
    and h: "publisher_read st peer (shared b) = Ret (c', s)"
  shows "bus_inv (set_conn i c' (b\<lparr>shared := s\<rparr>))"
proof -
  let ?b = "b\<lparr>shared := s\<rparr>"
  note ring = bus_invD(1) [OF inv] and sh = bus_invD(2) [OF inv]
  have st: "parsed (origin b ! i) (sent_by i (accepted b)) (incoming st)"
    using bus_invD(7) [OF inv i] c by simp
  have *: "conn_ok ?b i c' \<and> conn_sid c' = None \<and> chans s = chans (shared b) \<and> registry s = registry (shared b) \<and>
      shared_ok s \<and> (\<forall>sid. slowed sid (printed (shared b)) \<longrightarrow> slowed sid (printed s))"
  proof (cases rule: publisher_read_cases [of st peer "shared b"])
    case (stop l st')
    moreover have "l \<noteq> DispatchFellBehind"
      using stop(3) by auto
    ultimately show ?thesis
      using h st sh by (auto simp: shared_ok_print slowed_append)
  next
    case (got m rest)
    then show ?thesis
      using h st sh by (auto simp: acceptable_def)
  qed
  have "ring_ok ?b"
    using ring_ok_cong [OF ring, of ?b] by simp
  moreover have "conn_ok ?b j (conns b ! j)" if "j < length (conns b)" for j
    using * by (intro conn_ok_printed [OF bus_invD(7) [OF inv that] refl ring]) auto
  ultimately show ?thesis
    by (rule_tac bus_inv_set_conn [OF inv i]) (use * c bus_invD(4,6) [OF inv] in auto)
qed

lemma inv_publish:
  assumes inv: "bus_inv b" and i: "i < length (conns b)" and c: "conns b ! i = PublishOne h p st peer"
    and att: "publish_attempt (bus_ring b) clk h p st peer (shared b) = (c', r, s)"
  defines "acc \<equiv> accepted b @
        (if fst (Ring.publish (bus_ring b) clk (channel_id h) (msg_type h) p) = Inr ()
         then [(i, stamped clk (channel_id h) (msg_type h) p)] else [])"
  assumes small: "length acc < 2 ^ 64 - 1"
  shows "bus_inv (set_conn i c' (b\<lparr>bus_ring := r, shared := s, accepted := acc\<rparr>))"
proof -
  let ?b = "b\<lparr>bus_ring := r, shared := s, accepted := acc\<rparr>"
  have st: "acceptable (h, p)" "parsed (origin b ! i) (sent_by i (accepted b)) (wire (h, p) @ incoming st)"
    using bus_invD(7) [OF inv i] c by simp_all
  obtain res where pub: "Ring.publish (bus_ring b) clk (channel_id h) (msg_type h) p = (res, r)"
    using att by (auto simp: publish_attempt_def split: prod.splits sum.splits PublishError.splits)
  have res: "res = Inr () \<and> c' = RunPublisher st peer \<or> res = Inl SlowConsumer \<and> c' = PublishOne h p st peer"
    and s: "s = shared b"
    using att pub st(1) by (auto simp: publish_attempt_def Ring.publish_def acceptable_def Let_def split: if_splits)
  have ring: "ring_ok ?b \<and> dispatched ?b = dispatched b"
    by (rule ring_ok_publish [OF bus_invD(1) [OF inv] pub _ small]) (simp_all add: acc_def pub)
  have sent: "sent_by j acc = sent_by j (accepted b)" if "j \<noteq> i" for j
    using that by (simp add: acc_def sent_by_append)
  have ci: "conn_ok ?b i c'"
    using res
  proof
    assume ok: "res = Inr () \<and> c' = RunPublisher st peer"
    have "core (stamped clk (channel_id h) (msg_type h) p) = core_of (h, p)"
      by (simp add: core_def core_of_def stamped_def)
    from parsed_snoc [OF st(2,1) this] ok show ?thesis
      by (simp add: acc_def pub sent_by_append)
  next
    assume "res = Inl SlowConsumer \<and> c' = PublishOne h p st peer"
    with st show ?thesis by (simp add: acc_def pub sent_by_append)
  qed
  have "conn_ok ?b j (conns b ! j)" if "j < length (conns b)" "j \<noteq> i" for j
    using sent [OF that(2)] ring
    by (intro conn_ok_frame [OF bus_invD(7) [OF inv that(1)]]) (simp_all add: s)
  then show ?thesis
    by (rule_tac bus_inv_set_conn [OF inv i])
      (use ci ring c res i bus_invD(2,4,6) [OF inv] in \<open>auto simp: s acc_def\<close>)
qed

lemma inv_dispatch:
  assumes inv: "bus_inv b"
    and it: "dispatch_iter (\<lambda>_. bus_ring b) (dispatcher b) (shared b) = Some (Ret (r, s))"
  shows "bus_inv (b\<lparr>bus_ring := r, shared := s\<rparr>)"
proof -
  let ?b = "b\<lparr>bus_ring := r, shared := s\<rparr>" and ?m = "snd (accepted b ! handed b)"
  note ring = bus_invD(1) [OF inv] and sh = bus_invD(2) [OF inv]
  have less: "handed b < length (accepted b)" and r: "r = advance (bus_ring b) 0"
    and s: "s = offered (frame_of ?m) (m_channel_id ?m) (registry (shared b)) (shared b)"
    using it bus_dispatch_iter [OF ring sh] by (auto simp: Let_def split: if_splits)
  have rk: "ring_ok ?b" "dispatched ?b = dispatched b @ [?m]"
    using ring_ok_dispatch [OF ring less, of ?b] r by simp_all
  have "conn_ok ?b j (conns b ! j)" if "j < length (conns b)" for j
    using sub_ok_offered [OF sh] rk(2)
    by (intro conn_ok_frame [OF bus_invD(7) [OF inv that]]) (simp_all add: s)
  moreover have "owners_ok ?b"
    using bus_invD(5) [OF inv] by (simp add: owners_ok_iff s)
  ultimately show ?thesis
    using rk shared_ok_offered [OF sh] bus_invD [OF inv] by (simp add: bus_inv_def s)
qed

lemma inv_send:
  assumes inv: "bus_inv b" and i: "i < length (conns b)" and c: "conns b ! i = SubscriberIo st rx sid peer"
    and io: "subscriber_io_iter st rx sid peer (shared b) = Some (c', s)" and small: "length (chans (shared b)) < 2 ^ 64"
  shows "bus_inv (set_conn i c' (b\<lparr>shared := s\<rparr>))"
proof -
  let ?b = "b\<lparr>shared := s\<rparr>" and ?s = "shared b"
  note ring = bus_invD(1) [OF inv] and sh = bus_invD(2) [OF inv]
  have sub: "sub_ok ?s (joined b) (dispatched b) st rx sid" "sent_by i (accepted b) = []"
    using bus_invD(7) [OF inv i] c by simp_all
  have rk: "ring_ok ?b" "dispatched ?b = dispatched b"
    using ring_ok_cong [OF ring, of ?b] by simp_all
  obtain e where e: "map_of (registry ?s) sid = Some e" "tx e = rx" "rx < length (chans ?s)" "sid = word_of_nat rx"
    using sub(1) by (auto simp: sub_ok_def)
  then have "list_ex (\<lambda>(_, e). tx e = rx) (registry ?s)"
    by (force simp: list_ex_iff dest: map_of_SomeD)
  then obtain f cs where rc: "recv rx ?s = Received f cs"
    using io by (auto simp: subscriber_io_iter_def recv_def split: list.splits if_splits)
  obtain fs where cs: "cs = (chans ?s)[rx := (chans ?s ! rx)\<lparr>buffer := fs\<rparr>]"
    using rc by (rule recv_Received)
  have c': "conn_sid c' = Some sid \<and> conn_ok ?b i c' \<and> chans s = cs \<and> registry s = registry ?s \<and> shared_ok s \<and>
      (\<forall>k. slowed k (printed ?s) \<longrightarrow> slowed k (printed s))"
  proof (cases "write_all f st")
    case (Pair res st')
    show ?thesis
    proof (cases res)
      case (Inr u)
      with Pair io rc have "c' = SubscriberIo st' rx sid peer" "s = ?s\<lparr>chans := cs\<rparr>"
        by (simp_all add: subscriber_io_iter_def)
      with sub_ok_received [OF sub(1) rc] Pair Inr sub(2) rk(2) shared_ok_received [OF sh rc] show ?thesis
        by simp
    next
      case (Inl err)
      with Pair io rc have "c' = SubscriberLeaving st' sid peer" "s = print (SubscriberGone sid peer) (?s\<lparr>chans := cs\<rparr>)"
        by (simp_all add: subscriber_io_iter_def)
      with sub(2) e cs shared_ok_received [OF sh rc] show ?thesis
        by (auto simp: shared_ok_print slowed_append)
    qed
  qed
  have others: "conn_sid (conns b ! j) \<noteq> Some sid" if "j < length (conns b)" "j \<noteq> i" for j
    using bus_invD(5) [OF inv] that i c by (fastforce simp: owners_ok_def)
  have "conn_ok ?b j (conns b ! j)" if j: "j < length (conns b)" "j \<noteq> i" for j
  proof (rule conn_ok_frame [OF bus_invD(7) [OF inv j(1)]])
    fix st2 rx2 sid2
    assume sid2: "conn_sid (conns b ! j) = Some sid2" and ok: "sub_ok ?s (joined b) (dispatched b) st2 rx2 sid2"
    with others [OF j] e(4) have "rx2 \<noteq> rx" by (auto simp: sub_ok_def)
    then show "sub_ok (shared ?b) (joined ?b) (dispatched ?b) st2 rx2 sid2"
      unfolding rk(2) by (intro sub_ok_cong [OF ok]) (use c' cs in auto)
  qed (use c' cs in simp_all)
  then show ?thesis
    by (rule_tac bus_inv_set_conn [OF inv i])
      (use c' cs rk(1) c bus_invD(4,6) [OF inv] others in auto)
qed

lemma inv_leave:
  assumes inv: "bus_inv b" and i: "i < length (conns b)" and c: "conns b ! i = SubscriberLeaving st sid peer"
  shows "bus_inv (set_conn i (Closed st) (b\<lparr>shared := subscriber_leave sid (shared b)\<rparr>))"
proof -
  let ?s = "subscriber_leave sid (shared b)"
  let ?b = "b\<lparr>shared := ?s\<rparr>"
  note ring = bus_invD(1) [OF inv] and sh = bus_invD(2) [OF inv]
  have rk: "ring_ok ?b" "dispatched ?b = dispatched b"
    using ring_ok_cong [OF ring, of ?b] by simp_all
  have s: "chans ?s = chans (shared b)" "printed ?s = printed (shared b)"
    "map_of (registry ?s) = (map_of (registry (shared b)))(sid := None)"
    by (simp_all add: subscriber_leave_def)
  have others: "conn_sid (conns b ! j) \<noteq> Some sid" if "j < length (conns b)" "j \<noteq> i" for j
    using bus_invD(5) [OF inv] that i c by (fastforce simp: owners_ok_def)
  have "conn_ok ?b j (conns b ! j)" if j: "j < length (conns b)" "j \<noteq> i" for j
  proof (rule conn_ok_frame [OF bus_invD(7) [OF inv j(1)]])
    fix st2 rx2 sid2
    assume "conn_sid (conns b ! j) = Some sid2" and ok: "sub_ok (shared b) (joined b) (dispatched b) st2 rx2 sid2"
    with others [OF j] show "sub_ok (shared ?b) (joined ?b) (dispatched ?b) st2 rx2 sid2"
      unfolding rk(2) by (intro sub_ok_cong [OF ok]) (auto simp: s)
  qed (use others [OF j] s in auto)
  moreover have "conn_ok ?b i (Closed st)"
    using bus_invD(7) [OF inv i] c parsed_Nil [of "origin b ! i"] by auto
  ultimately show ?thesis
    by (rule_tac bus_inv_set_conn [OF inv i])
      (use rk(1) c s shared_ok_leave [OF sh] bus_invD(4,6) [OF inv] in \<open>auto split: if_splits\<close>)
qed

end
