(* ===== verification/Bus_Props.thy ===== *)
theory Bus_Props
  imports Bus_Invariant
begin

text \<open>
  What the whole bus promises in every reachable state: no panic, bounded queues, a
  registry that names exactly the running subscriber threads, publishers whose messages are
  accepted in the order sent, subscribers that are sent the matching messages in order, and
  backpressure that one turn of the dispatcher releases.
\<close>

section \<open>Reachable states\<close>

lemma bus_start_eq:
  "bus_start = Ret \<lparr>bus_ring = snd (register_consumer ring_new),
     shared = \<lparr>registry = [], chans = [], sub_id = 0, printed = []\<rparr>,
     dispatcher = 0, conns = [], accepted = [], joined = [], origin = []\<rparr>"
  and register_new: "consumers (snd (register_consumer ring_new)) = (replicate MAX_CONSUMERS CONSUMER_FREE)[0 := 0]"
proof -
  have "register_consumer ring_new = (Inr 0, ring_new\<lparr>consumers := (replicate MAX_CONSUMERS CONSUMER_FREE)[0 := 0]\<rparr>)"
  proof -
    have cs: "replicate MAX_CONSUMERS CONSUMER_FREE = CONSUMER_FREE # replicate 63 CONSUMER_FREE"
      by (simp add: MAX_CONSUMERS_def replicate_Suc [symmetric] del: replicate_Suc)
    show ?thesis
      by (simp add: register_consumer_def cs)
  qed
  then show "bus_start = Ret \<lparr>bus_ring = snd (register_consumer ring_new),
     shared = \<lparr>registry = [], chans = [], sub_id = 0, printed = []\<rparr>,
     dispatcher = 0, conns = [], accepted = [], joined = [], origin = []\<rparr>"
    and "consumers (snd (register_consumer ring_new)) = (replicate MAX_CONSUMERS CONSUMER_FREE)[0 := 0]"
    by (simp_all add: bus_start_def)
qed

lemma bus_start_inv:
  assumes "bus_start = Ret b"
  shows "bus_inv b"
proof -
  have b: "b = \<lparr>bus_ring = snd (register_consumer ring_new),
     shared = \<lparr>registry = [], chans = [], sub_id = 0, printed = []\<rparr>,
     dispatcher = 0, conns = [], accepted = [], joined = [], origin = []\<rparr>"
    using bus_start_eq unfolding assms by (simp only: outcome.inject)
  have h: "handed b = 0"
    using register_new by (simp add: handed_def b MAX_CONSUMERS_def)
  have "snd (log_register log_new) = bus_log b"
    using h by (simp add: bus_log_def log_eval) (simp add: b)
  with register_sim [OF ring_rel_new] have "ring_ok b"
    by (simp add: ring_ok_def b)
  then show ?thesis
    by (simp add: bus_inv_def shared_ok_def owners_ok_def b)
qed

lemma consume_one_preserves:
  assumes "consume_one env cid f e = Some (Ret (res, r, e'))" and "\<And>d e e'. f d e = Ret e' \<Longrightarrow> P e' = P e"
  shows "P e' = P e"
  using assms
  by (fastforce simp: consume_one_def Let_def obind_eq_Ret_iff split: outcome.splits option.splits sum.splits)

lemma length_fan_out: "length (chans (fan_out f ch e s)) = length (chans s)"
  by (auto simp: fan_out_def try_send_def split: option.splits prod.splits)

lemma length_fold_fan_out: "length (chans (fold (fan_out f ch) es s)) = length (chans s)"
  by (induction es arbitrary: s) (simp_all add: length_fan_out)

lemma length_dispatch_msg: "dispatch_msg d s = Ret s' \<Longrightarrow> length (chans s') = length (chans s)"
  by (auto simp: dispatch_msg_def Let_def obind_eq_Ret_iff length_fold_fan_out)

lemma step_grows:
  assumes "bus_step b b'"
  shows "length (accepted b) \<le> length (accepted b') \<and> length (chans (shared b)) \<le> length (chans (shared b'))"
  using assms
proof cases
  case (handshake i st peer c s)
  then show ?thesis
    by (auto simp: set_conn_def elim!: handle_connection_cases)
next
  case (read i st peer c s)
  then show ?thesis
    by (cases rule: publisher_read_cases [of st peer "shared b"]) (auto simp: set_conn_def)
next
  case (publish i h p st peer clk c r s)
  then show ?thesis
    by (auto simp: set_conn_def publish_attempt_def split: prod.splits sum.splits PublishError.splits)
next
  case (dispatch r s)
  then obtain res e where e: "consume_one (\<lambda>_. bus_ring b) (dispatcher b) dispatch_msg (shared b) = Some (Ret (res, r, e))"
    "chans s = chans e"
    by (auto simp: dispatch_iter_def split: option.splits outcome.splits sum.splits ConsumerError.splits)
  with consume_one_preserves [OF e(1), of "\<lambda>s. length (chans s)"] length_dispatch_msg dispatch show ?thesis
    by simp
next
  case (send i st rx sid peer c s)
  then show ?thesis
    by (auto simp: set_conn_def subscriber_io_iter_def elim!: recv_Received
        split: RecvResult.splits prod.splits sum.splits)
qed (simp_all add: set_conn_def subscriber_leave_def)

lemma step_inv:
  assumes "bus_step b b'" and inv: "bus_inv b" and small: "bus_small b'"
  shows "bus_inv b'"
  using assms(1)
proof cases
  case (accept st peer)
  then show ?thesis using inv_accept [OF inv] by simp
next
  case (handshake i st peer c s)
  then show ?thesis using inv_handshake [OF inv] small by (simp add: bus_small_def set_conn_def)
next
  case (read i st peer c s)
  then show ?thesis using inv_read [OF inv] by simp
next
  case (publish i h p st peer clk c r s)
  then show ?thesis
    using inv_publish [OF inv publish(2-4)] small unfolding bus_small_def set_conn_def by simp
next
  case (dispatch r s)
  then show ?thesis using inv_dispatch [OF inv] by simp
next
  case (send i st rx sid peer c s)
  moreover have "length (chans (shared b)) < 2 ^ 64"
    using step_grows [OF assms(1)] small by (simp add: bus_small_def)
  ultimately show ?thesis using inv_send [OF inv] by simp
next
  case (leave i st sid peer)
  then show ?thesis using inv_leave [OF inv] by simp
qed

lemma bus_reach_inv: "bus_reach b \<Longrightarrow> bus_small b \<Longrightarrow> bus_inv b"
proof (induction rule: bus_reach.induct)
  case (start b)
  then show ?case by (intro bus_start_inv)
next
  case (step b b')
  then have "bus_small b"
    using step_grows [of b b'] by (auto simp: bus_small_def)
  with step step_inv show ?case by blast
qed

section \<open>A run\<close>

text \<open>
  A run to apply the properties to: a subscriber to channel 7 connects, a publisher connects
  and sends one message on channel 7, it is published, dispatched and written out.
\<close>

definition demo_pub :: "MsgHeader \<times> u8 list" where
  "demo_pub = (\<lparr>msg_type = 1, channel_id = 7, timestamp_ns = 0, payload_len = 1\<rparr>, [9])"

definition demo_stream :: "u8 list \<Rightarrow> u8 list \<Rightarrow> TcpStream" where
  "demo_stream inc out = \<lparr>incoming = inc, outgoing = out, send_room = None\<rparr>"

definition demo_shared :: "Frame list \<Rightarrow> LogLine list \<Rightarrow> Shared" where
  "demo_shared q ls = \<lparr>registry = [(0, \<lparr>tx = 0, channels = {7}, filter_all = False, addr = ''s''\<rparr>)],
     chans = [\<lparr>buffer = q, bound = 8192\<rparr>], sub_id = 1, printed = ls\<rparr>"

definition demo_bus :: "Ring \<Rightarrow> Shared \<Rightarrow> Conn list \<Rightarrow> (nat \<times> Msg) list \<Rightarrow> Bus" where
  "demo_bus r s cs acc = \<lparr>bus_ring = r, shared = s, dispatcher = 0, conns = cs, accepted = acc,
     joined = [0], origin = [wire (subscribe_msg [7]), wire demo_pub]\<rparr>"

lemma handshake_7:
  "handle_connection (demo_stream (wire (subscribe_msg [7])) []) (Some ''s'')
     \<lparr>registry = [], chans = [], sub_id = 0, printed = []\<rparr> =
   Ret (SubscriberIo (demo_stream [] []) 0 0 ''s'', demo_shared [] [SubscriberUp ''s'' 0])"
proof -
  let ?h = "fst (subscribe_msg [7])" and ?p = "snd (subscribe_msg [7])"
  have inc: "incoming (demo_stream (wire (subscribe_msg [7])) []) = header_wire ?h @ ?p"
    by (simp add: wire_def demo_stream_def)
  have h: "msg_type ?h = 0" "unat (payload_len ?h) = 4" "length ?p = 4" "map from_le_bytes (chunks_exact4 ?p) = [7 :: u32]"
    using chunks_channels [of "[7]"] by (simp_all add: subscribe_msg_def Let_def)
  show ?thesis
    unfolding handle_connection_header [OF inc] subscriber_handshake_eq Let_def h(2) using h
    by (simp add: demo_stream_def subscribed_def demo_shared_def hash_insert_def hash_remove_def)
qed

lemma handshake_pub:
  "handle_connection (demo_stream (wire demo_pub) []) (Some ''p'') s =
   Ret (PublishOne (fst demo_pub) [9] (demo_stream [] []) ''p'', print (PublisherUp ''p'') s)"
proof -
  have inc: "incoming (demo_stream (wire demo_pub) []) = header_wire (fst demo_pub) @ [9]"
    by (simp add: wire_def demo_stream_def demo_pub_def)
  show ?thesis
    unfolding handle_connection_header [OF inc]
    by (simp add: publisher_handshake_Ret demo_pub_def demo_stream_def read_exact_def PAYLOAD_CAP_def)
qed

definition demo_msg :: Msg where
  "demo_msg = stamped None 7 1 [9]"

lemma demo_sending:
  "\<exists>r. bus_reach (demo_bus r (demo_shared [] [SubscriberUp ''s'' 0, PublisherUp ''p''])
         [SubscriberIo (demo_stream [] []) 0 0 ''s'', PublishOne (fst demo_pub) [9] (demo_stream [] []) ''p''] []) \<and>
       consumers r ! 0 = 0"
proof -
  let ?s0 = "\<lparr>registry = [], chans = [], sub_id = 0, printed = []\<rparr>" and ?r = "snd (register_consumer ring_new)"
  let ?sub = "SubscriberIo (demo_stream [] []) 0 0 ''s''"
  let ?b0 = "\<lparr>bus_ring = ?r, shared = ?s0, dispatcher = 0, conns = [], accepted = [], joined = [], origin = []\<rparr>"
  let ?b1 = "?b0\<lparr>conns := [Handshake (demo_stream (wire (subscribe_msg [7])) []) (Some ''s'')],
                 origin := [wire (subscribe_msg [7])]\<rparr>"
  let ?b2 = "?b1\<lparr>conns := [?sub], shared := demo_shared [] [SubscriberUp ''s'' 0], joined := [0]\<rparr>"
  let ?b3 = "?b2\<lparr>conns := [?sub, Handshake (demo_stream (wire demo_pub) []) (Some ''p'')],
                 origin := [wire (subscribe_msg [7]), wire demo_pub]\<rparr>"
  have h: "consumers ?r ! 0 = 0"
    using register_new by (simp add: MAX_CONSUMERS_def)
  have 0: "bus_reach ?b0"
    by (rule bus_reach.start [OF bus_start_eq])
  have 1: "bus_reach ?b1"
    using bus_reach.step [OF 0 accept [of "demo_stream (wire (subscribe_msg [7])) []" ?b0 "Some ''s''"]]
    by (simp add: demo_stream_def)
  have 2: "bus_reach ?b2"
    using bus_reach.step [OF 1 handshake [of 0 ?b1 "demo_stream (wire (subscribe_msg [7])) []" "Some ''s''"
          ?sub "demo_shared [] [SubscriberUp ''s'' 0]"]] handshake_7 h
    by (simp add: set_conn_def handed_def demo_shared_def)
  have 3: "bus_reach ?b3"
    using bus_reach.step [OF 2 accept [of "demo_stream (wire demo_pub) []" ?b2 "Some ''p''"]]
    by (simp add: demo_stream_def)
  show ?thesis
    using bus_reach.step [OF 3 handshake [of 1 ?b3 "demo_stream (wire demo_pub) []" "Some ''p''"
          "PublishOne (fst demo_pub) [9] (demo_stream [] []) ''p''"
          "print (PublisherUp ''p'') (demo_shared [] [SubscriberUp ''s'' 0])"]] handshake_pub h
    by (intro exI [of _ ?r]) (simp add: set_conn_def demo_bus_def demo_shared_def print_def)
qed

definition demo_lines :: "LogLine list" where
  "demo_lines = [SubscriberUp ''s'' 0, PublisherUp ''p'']"

definition demo_conns :: "u8 list \<Rightarrow> Conn list" where
  "demo_conns out = [SubscriberIo (demo_stream [] out) 0 0 ''s'', RunPublisher (demo_stream [] []) ''p'']"

lemma demo_accepted:
  "\<exists>r. bus_reach (demo_bus r (demo_shared [] demo_lines) (demo_conns []) [(1, demo_msg)]) \<and> consumers r ! 0 = 0"
proof -
  let ?c = "\<lambda>c. [SubscriberIo (demo_stream [] []) 0 0 ''s'', c]"
  let ?p = "PublishOne (fst demo_pub) [9] (demo_stream [] []) ''p''"
  obtain r where "bus_reach (demo_bus r (demo_shared [] demo_lines) (?c ?p) [])" and c: "consumers r ! 0 = 0"
    using demo_sending by (auto simp: demo_lines_def)
  moreover define b where "b = demo_bus r (demo_shared [] demo_lines) (?c ?p) []"
  ultimately have reach: "bus_reach b" by simp
  then have "bus_inv b"
    by (rule bus_reach_inv) (simp add: b_def bus_small_def demo_bus_def demo_shared_def)
  then have rel: "ring_rel (bus_log b) r"
    by (auto simp: bus_inv_def ring_ok_def b_def demo_bus_def)
  have "bus_log b = \<lparr>msgs = [], positions = (replicate MAX_CONSUMERS None)[0 := Some (handed b)]\<rparr>"
    by (simp add: bus_log_def b_def demo_bus_def)
  with publish_sim [OF rel, of None 7 1 "[9]"] have "fst (Ring.publish r None 7 1 [9]) = Inr ()"
    by (simp add: log_publish_def not_lagging_short size_consts)
  then obtain r' where pub: "Ring.publish r None 7 1 [9] = (Inr (), r')"
    by (cases "Ring.publish r None 7 1 [9]") auto
  have "bus_reach (demo_bus r' (demo_shared [] demo_lines) (demo_conns []) [(1, demo_msg)])"
    using bus_reach.step [OF reach publish [of 1 b "fst demo_pub" "[9]" "demo_stream [] []" "''p''" None
          "RunPublisher (demo_stream [] []) ''p''" r' "demo_shared [] demo_lines"]] pub
    by (simp add: b_def demo_bus_def publish_attempt_def demo_pub_def set_conn_def demo_conns_def demo_msg_def)
  moreover have "consumers r' ! 0 = 0"
    using publish_consumers [of r None 7 1 "[9]"] pub c by simp
  ultimately show ?thesis by blast
qed

lemma demo_delivered:
  "\<exists>r. bus_reach (demo_bus r (demo_shared [] demo_lines) (demo_conns (frame_of demo_msg)) [(1, demo_msg)]) \<and>
       dispatched (demo_bus r (demo_shared [] demo_lines) (demo_conns (frame_of demo_msg)) [(1, demo_msg)]) = [demo_msg]"
proof -
  let ?f = "frame_of demo_msg"
  obtain r where r: "bus_reach (demo_bus r (demo_shared [] demo_lines) (demo_conns []) [(1, demo_msg)])"
    "consumers r ! 0 = 0"
    using demo_accepted by blast
  define b where "b = demo_bus r (demo_shared [] demo_lines) (demo_conns []) [(1, demo_msg)]"
  define b' where "b' = demo_bus (advance r 0) (demo_shared [?f] demo_lines) (demo_conns []) [(1, demo_msg)]"
  have inv: "bus_inv b"
    using r by (intro bus_reach_inv) (simp_all add: b_def bus_small_def demo_bus_def demo_shared_def)
  have h: "handed b = 0"
    using r(2) by (simp add: handed_def b_def demo_bus_def)
  have off: "offered ?f 7 (registry (demo_shared [] ls)) (demo_shared [] ls) = demo_shared [?f] ls" for ls
    by (simp add: offered_def offer_def demo_shared_def matches_def full_def slow_lines_def)
  have m: "snd (accepted b ! 0) = demo_msg" "m_channel_id demo_msg = 7" "accepted b = [(1, demo_msg)]"
    "bus_ring b = r" "shared b = demo_shared [] demo_lines"
    by (simp_all add: b_def demo_bus_def demo_msg_def stamped_def)
  have "dispatch_iter (\<lambda>_. bus_ring b) (dispatcher b) (shared b) = Some (Ret (advance r 0, demo_shared [?f] demo_lines))"
    using bus_dispatch_iter [OF bus_invD(1,2) [OF inv]] by (simp add: h m off)
  from bus_reach.step [OF r(1) [folded b_def] bus_step.dispatch [OF this]]
  have 1: "bus_reach b'"
    by (simp add: b_def b'_def demo_bus_def)
  have "dispatched b' = dispatched b @ [demo_msg]"
    using ring_ok_dispatch [OF bus_invD(1) [OF inv], of b'] by (simp add: h m b'_def) (simp add: b_def b'_def demo_bus_def)
  then have d: "dispatched b' = [demo_msg]"
    by (simp add: dispatched_def h)
  have "bus_reach (demo_bus (advance r 0) (demo_shared [] demo_lines) (demo_conns ?f) [(1, demo_msg)])"
    using bus_reach.step [OF 1 send [of 0 b' "demo_stream [] []" 0 0 "''s''"
          "SubscriberIo (demo_stream [] ?f) 0 0 ''s''" "demo_shared [] demo_lines"]]
    by (simp add: b'_def demo_bus_def demo_conns_def set_conn_def subscriber_io_iter_def recv_def
        demo_shared_def write_all_def demo_stream_def)
  moreover have "dispatched (demo_bus (advance r 0) (demo_shared [] demo_lines) (demo_conns ?f) [(1, demo_msg)]) = [demo_msg]"
    using d by (simp add: dispatched_def handed_def b'_def demo_bus_def)
  ultimately show ?thesis by blast
qed

section \<open>Properties\<close>

text \<open>
  C15: no panic. In every reachable state no handler panics whatever bytes a peer sends: the
  payload length of a header never makes a slice of the fixed arrays \<open>ch_payload\<close>,
  \<open>first_payload\<close> and \<open>payload_buf\<close> run past their 1024 bytes. No slice of the dispatch closure
  is out of range, and the dispatcher has never reported that it fell behind. (\<open>read_into_Panic\<close>
  is what a longer length would do behind the guards.)
\<close>

theorem bus_never_panics:
  assumes "bus_reach b" and "bus_small b"
  shows "dispatch_iter (\<lambda>_. bus_ring b) (dispatcher b) (shared b) \<noteq> Some Panic \<and>
         handle_connection st peer_addr (shared b) \<noteq> Panic \<and>
         publisher_read st peer (shared b) \<noteq> Panic \<and>
         DispatchFellBehind \<notin> set (printed (shared b))"
proof -
  note inv = bus_reach_inv [OF assms]
  have "dispatch_iter (\<lambda>_. bus_ring b) (dispatcher b) (shared b) \<noteq> Some Panic"
    using bus_dispatch_iter [OF bus_invD(1,2) [OF inv]] by (simp add: Let_def)
  moreover have "handle_connection st peer_addr (shared b) \<noteq> Panic"
  proof (cases peer_addr)
    case (Some p)
    show ?thesis
      by (cases "incoming st" rule: stream_cases)
        (simp_all add: Some handle_connection_header [of st _ _ p] subscriber_handshake_Ret publisher_handshake_Ret
           del: append_assoc append_Cons,
         simp add: handle_connection_def read_exact_def)
  qed (simp add: handle_connection_def)
  moreover have "publisher_read st peer (shared b) \<noteq> Panic"
    by (cases rule: publisher_read_cases [of st peer "shared b"]) simp_all
  ultimately show ?thesis
    using shared_okD(5) [OF bus_invD(2) [OF inv]] by simp
qed

theorem bus_never_panics_witness:
  "\<exists>b. bus_reach b \<and> accepted b = [(1, demo_msg)] \<and>
       handle_connection (demo_stream [0] []) (Some ''x'') (shared b) \<noteq> Panic"
proof -
  obtain r where r: "bus_reach (demo_bus r (demo_shared [] demo_lines) (demo_conns (frame_of demo_msg)) [(1, demo_msg)])"
    using demo_delivered by blast
  from bus_never_panics [OF this] r show ?thesis
    by (auto simp: bus_small_def demo_bus_def demo_shared_def)
qed

text \<open>
  C7: what a subscriber is sent. In every reachable state the bytes written to a
  connected subscriber's socket are whole frames; they and the frames in its queue are a
  subsequence, in order and without repetition, of the frames of the dispatched messages that match
  its channels since it joined, and are all of those messages unless the bus printed that it
  was slow.
\<close>

theorem subscriber_is_sent_matching:
  assumes "bus_reach b" and "bus_small b" and "i < length (conns b)"
    and "conns b ! i = SubscriberIo st rx sid peer"
  shows "\<exists>e ws. map_of (registry (shared b)) sid = Some e \<and> tx e = rx \<and> outgoing st = concat ws \<and>
    (let due = map frame_of (filter (\<lambda>m. filter_all e \<or> m_channel_id m \<in> channels e)
                               (drop (joined b ! rx) (dispatched b)));
         sent = ws @ buffer (chans (shared b) ! rx)
     in subseq sent due \<and> (sent = due \<or> (\<exists>a ch. SubscriberSlow sid a ch \<in> set (printed (shared b)))))"
proof -
  note inv = bus_reach_inv [OF assms(1,2)]
  from bus_invD(7) [OF inv assms(3)] assms(4)
  have "sub_ok (shared b) (joined b) (dispatched b) st rx sid" by simp
  then obtain e ws where "map_of (registry (shared b)) sid = Some e" "tx e = rx" "outgoing st = concat ws"
    "delivers (ws @ buffer (chans (shared b) ! rx)) (slowed sid (printed (shared b)))
       (expected e (joined b ! rx) (dispatched b))"
    by (auto simp: sub_ok_def)
  then show ?thesis
    by (intro exI [of _ e] exI [of _ ws]) (auto simp: delivers_def expected_def slowed_def matches_def Let_def)
qed

theorem subscriber_is_sent_matching_witness:
  "\<exists>b st e ws. bus_reach b \<and> conns b ! 0 = SubscriberIo st 0 0 ''s'' \<and> outgoing st = frame_of demo_msg \<and>
     map_of (registry (shared b)) 0 = Some e \<and> outgoing st = concat ws \<and>
     ws @ buffer (chans (shared b) ! 0) =
       map frame_of (filter (\<lambda>m. filter_all e \<or> m_channel_id m \<in> channels e) (drop 0 (dispatched b)))"
proof -
  let ?b = "\<lambda>r. demo_bus r (demo_shared [] demo_lines) (demo_conns (frame_of demo_msg)) [(1, demo_msg)]"
  obtain r where r: "bus_reach (?b r)"
    using demo_delivered by blast
  have b: "bus_small (?b r)" "0 < length (conns (?b r))"
    "conns (?b r) ! 0 = SubscriberIo (demo_stream [] (frame_of demo_msg)) 0 0 ''s''" "joined (?b r) = [0]"
    "\<And>a ch. SubscriberSlow 0 a ch \<notin> set (printed (shared (?b r)))"
    by (simp_all add: bus_small_def demo_bus_def demo_shared_def demo_conns_def demo_lines_def)
  from subscriber_is_sent_matching [OF r b(1-3)] b(3-5) r show ?thesis
    by (intro exI [of _ "?b r"] exI [of _ "demo_stream [] (frame_of demo_msg)"])
      (auto simp: Let_def demo_stream_def)
qed

text \<open>
  C8: a publisher's messages are accepted in the order sent. In every reachable state and for
  every connection, the messages the ring accepted from it are those of the frames at the
  start of the bytes its peer sends: in order, each once, with the channel, type and payload
  sent; what follows in the bytes is not yet read, not a frame, or over the bound.
\<close>

theorem publisher_accepted_in_order:
  assumes "bus_reach b" and "bus_small b" and "i < length (conns b)"
  shows "\<exists>fs rest. list_all framed fs \<and> list_all (\<lambda>f. length (snd f) \<le> 1024) fs \<and>
    origin b ! i = concat (map wire fs) @ rest \<and>
    map core (map snd (filter (\<lambda>(j, _). j = i) (accepted b))) = map core_of fs"
proof -
  note ok = bus_invD(7) [OF bus_reach_inv [OF assms(1,2)] assms(3)]
  have "\<exists>rest. parsed (origin b ! i) (sent_by i (accepted b)) rest"
    using ok parsed_Nil [of "origin b ! i"] by (cases "conns b ! i") auto
  then obtain fs rest where "list_all acceptable fs" "origin b ! i = concat (map wire fs) @ rest"
    "map core (sent_by i (accepted b)) = map core_of fs"
    by (auto simp: parsed_def)
  then show ?thesis
    by (intro exI [of _ fs] exI [of _ rest]) (simp add: sent_by_def list_all_iff acceptable_def PAYLOAD_CAP_def)
qed

theorem publisher_accepted_in_order_witness:
  "\<exists>b fs rest. bus_reach b \<and> wire demo_pub = concat (map wire fs) @ rest \<and> [core demo_msg] = map core_of fs"
proof -
  obtain r where r: "bus_reach (demo_bus r (demo_shared [] demo_lines) (demo_conns []) [(1, demo_msg)])" (is "bus_reach ?b")
    using demo_accepted by blast
  have b: "bus_small ?b" "1 < length (conns ?b)" "origin ?b ! 1 = wire demo_pub" "accepted ?b = [(1, demo_msg)]"
    by (simp_all add: bus_small_def demo_bus_def demo_shared_def demo_conns_def)
  from publisher_accepted_in_order [OF r b(1,2)] b(3,4) r show ?thesis by auto
qed

text \<open>
  C16: bounds and ownership. In every reachable state at most 65536 accepted messages wait for the
  dispatcher, no queue holds more than 8192 frames, ids are distinct, and the registry
  names exactly the threads that still serve a subscriber: every entry has one such thread and
  every such thread has its entry.
\<close>

theorem bus_bounds_and_registry:
  assumes "bus_reach b" and "bus_small b"
  shows "handed b \<le> length (accepted b) \<and> length (accepted b) \<le> handed b + 65536 \<and>
    list_all (\<lambda>c. length (buffer c) \<le> 8192) (chans (shared b)) \<and>
    distinct (map fst (registry (shared b))) \<and>
    (map_of (registry (shared b)) sid \<noteq> None \<longleftrightarrow> (\<exists>i<length (conns b). conn_sid (conns b ! i) = Some sid)) \<and>
    (\<forall>i<length (conns b). \<forall>j<length (conns b).
       conn_sid (conns b ! i) = Some sid \<and> conn_sid (conns b ! j) = Some sid \<longrightarrow> i = j)"
proof (intro conjI)
  note inv = bus_reach_inv [OF assms]
  note ok = bus_invD [OF inv]
  show "handed b \<le> length (accepted b)"
    by (rule handed_le [OF ok(1)])
  show "length (accepted b) \<le> handed b + 65536"
    using ring_log.rel_position [of "bus_log b" "bus_ring b" 0 "handed b"] ok(1)
    by (simp add: ring_ok_def bus_log_def size_consts)
  show "list_all (\<lambda>c. length (buffer c) \<le> 8192) (chans (shared b))"
    using ok(2) by (auto simp: shared_ok_def list_all_iff DEFAULT_QUEUE_DEPTH_def)
  show "distinct (map fst (registry (shared b)))"
    using shared_okD(1) [OF ok(2)] by (simp add: hash_map_wf_def)
  show "map_of (registry (shared b)) sid \<noteq> None \<longleftrightarrow> (\<exists>i<length (conns b). conn_sid (conns b ! i) = Some sid)"
  proof
    assume "map_of (registry (shared b)) sid \<noteq> None"
    with ok(5) show "\<exists>i<length (conns b). conn_sid (conns b ! i) = Some sid"
      by (simp add: owners_ok_def)
  next
    assume "\<exists>i<length (conns b). conn_sid (conns b ! i) = Some sid"
    then obtain i where i: "i < length (conns b)" "conn_sid (conns b ! i) = Some sid" by blast
    from ok(7) [OF i(1)] i(2) show "map_of (registry (shared b)) sid \<noteq> None"
      by (cases "conns b ! i") (auto simp: sub_ok_def)
  qed
  show "\<forall>i<length (conns b). \<forall>j<length (conns b).
       conn_sid (conns b ! i) = Some sid \<and> conn_sid (conns b ! j) = Some sid \<longrightarrow> i = j"
    using ok(5) by (fastforce simp: owners_ok_def)
qed

theorem bus_bounds_and_registry_witness:
  "\<exists>b. bus_reach b \<and> accepted b = [(1, demo_msg)] \<and> map_of (registry (shared b)) 0 \<noteq> None \<and>
       (\<exists>i<length (conns b). conn_sid (conns b ! i) = Some 0)"
proof -
  obtain r where r: "bus_reach (demo_bus r (demo_shared [] demo_lines) (demo_conns []) [(1, demo_msg)])" (is "bus_reach ?b")
    using demo_accepted by blast
  have b: "bus_small ?b" "accepted ?b = [(1, demo_msg)]" "map_of (registry (shared ?b)) 0 \<noteq> None"
    by (simp_all add: bus_small_def demo_bus_def demo_shared_def)
  with bus_bounds_and_registry [OF r b(1), of 0] r show ?thesis by blast
qed

text \<open>
  C14: no deadlock between publishers and dispatcher. When a publisher's attempt is refused
  because the dispatcher is a whole ring behind, the dispatcher can take a turn, and after it
  the same attempt is accepted, whatever the state of the subscribers.
\<close>

theorem dispatch_releases_publisher:
  assumes "bus_reach b" and "bus_small b" and "Suc (length (accepted b)) < 2 ^ 64 - 1"
    and "i < length (conns b)" and "conns b ! i = PublishOne h p st peer"
    and "fst (publish_attempt (bus_ring b) clk h p st peer (shared b)) = PublishOne h p st peer"
  shows "\<exists>b'. bus_step b b' \<and> conns b' = conns b \<and> accepted b' = accepted b \<and>
    fst (publish_attempt (bus_ring b') clk h p st peer (shared b')) = RunPublisher st peer"
proof -
  note inv = bus_reach_inv [OF assms(1,2)]
  note ring = bus_invD(1) [OF inv] and sh = bus_invD(2) [OF inv]
  have slow: "fst (Ring.publish (bus_ring b) clk (channel_id h) (msg_type h) p) = Inl SlowConsumer"
    using assms(6) by (auto simp: publish_attempt_def split: prod.splits sum.splits PublishError.splits)
  have rel: "ring_rel (bus_log b) (bus_ring b)" and pos: "0 < MAX_CONSUMERS" "positions (bus_log b) ! 0 = Some (handed b)"
    using ring by (simp_all add: ring_ok_def bus_log_def MAX_CONSUMERS_def)
  have only: "positions (bus_log b) ! j = None" if "j < MAX_CONSUMERS" "j \<noteq> 0" for j
    using that by (simp add: bus_log_def)
  from ring_log.backpressure_released [OF rel pos only _ slow] assms(3)
  have less: "handed b < length (accepted b)"
    and ok: "fst (Ring.publish (advance (bus_ring b) 0) clk (channel_id h) (msg_type h) p) = Inr ()"
    by (simp_all add: bus_log_def)
  obtain s where "dispatch_iter (\<lambda>_. bus_ring b) (dispatcher b) (shared b) = Some (Ret (advance (bus_ring b) 0, s))"
    using bus_dispatch_iter [OF ring sh] less by (auto simp: Let_def)
  from bus_step.dispatch [OF this] ok show ?thesis
    by (intro exI [of _ "b\<lparr>bus_ring := advance (bus_ring b) 0, shared := s\<rparr>"])
      (auto simp: publish_attempt_def split: prod.splits sum.splits)
qed

text \<open>A publisher that sends 65537 messages fills the ring when the dispatcher takes no turn.\<close>

definition flood :: "nat \<Rightarrow> TcpStream" where
  "flood n = demo_stream (concat (replicate n (wire demo_pub))) []"

lemma demo_pub_framed: "framed demo_pub" "length (snd demo_pub) \<le> PAYLOAD_CAP"
  by (simp_all add: framed_def demo_pub_def PAYLOAD_CAP_def)

lemma publisher_read_flood:
  "publisher_read (flood (Suc n)) peer s = Ret (PublishOne (fst demo_pub) (snd demo_pub) (flood n) peer, s)"
  using publisher_read_wire [OF demo_pub_framed, of "flood (Suc n)" "incoming (flood n)"]
  by (simp add: flood_def demo_stream_def)

lemma handshake_flood:
  "handle_connection (flood (Suc n)) (Some ''p'') s =
   Ret (PublishOne (fst demo_pub) (snd demo_pub) (flood n) ''p'', print (PublisherUp ''p'') s)"
proof -
  have inc: "incoming (flood (Suc n)) = header_wire (fst demo_pub) @ [9] @ incoming (flood n)"
    by (simp add: flood_def wire_def demo_stream_def demo_pub_def)
  show ?thesis
    unfolding handle_connection_header [OF inc]
    by (simp add: publisher_handshake_Ret demo_pub_def flood_def demo_stream_def read_exact_def PAYLOAD_CAP_def)
qed

lemma flooded:
  "n \<le> 65536 \<Longrightarrow> \<exists>b. bus_reach b \<and> length (accepted b) = n \<and> handed b = 0 \<and> chans (shared b) = [] \<and>
     conns b = [PublishOne (fst demo_pub) (snd demo_pub) (flood (65536 - n)) ''p'']"
proof (induction n)
  case 0
  let ?b0 = "\<lparr>bus_ring = snd (register_consumer ring_new), shared = \<lparr>registry = [], chans = [], sub_id = 0, printed = []\<rparr>,
     dispatcher = 0, conns = [], accepted = [], joined = [], origin = []\<rparr>"
  let ?b1 = "?b0\<lparr>conns := [Handshake (flood (Suc 65536)) (Some ''p'')], origin := [incoming (flood (Suc 65536))]\<rparr>"
  let ?c = "PublishOne (fst demo_pub) (snd demo_pub) (flood 65536) ''p''"
  let ?s = "print (PublisherUp ''p'') (shared ?b0)"
  have "outgoing (flood (Suc 65536)) = []"
    unfolding flood_def demo_stream_def by simp
  from bus_reach.step [OF bus_reach.start [OF bus_start_eq] accept [OF this, of ?b0 "Some ''p''"]]
  have 1: "bus_reach ?b1" by simp
  have "bus_step ?b1 (set_conn 0 ?c (?b1\<lparr>shared := ?s,
      joined := joined ?b1 @ replicate (length (chans ?s) - length (chans (shared ?b1))) (handed ?b1)\<rparr>))"
    by (rule handshake [of 0 ?b1 "flood (Suc 65536)" "Some ''p''"]) (simp_all only: handshake_flood, simp_all)
  from bus_reach.step [OF 1 this] register_new show ?case
    by (intro exI [of _ "set_conn 0 ?c (?b1\<lparr>shared := ?s\<rparr>)"])
      (simp add: set_conn_def handed_def MAX_CONSUMERS_def)
next
  case (Suc n)
  let ?p = "\<lambda>k. PublishOne (fst demo_pub) (snd demo_pub) (flood k) ''p''"
  obtain b where b: "bus_reach b" "length (accepted b) = n" "handed b = 0" "chans (shared b) = []"
    "conns b = [?p (65536 - n)]"
    using Suc by auto
  define k where "k = 65536 - Suc n"
  have k: "65536 - n = Suc k"
    using Suc.prems by (simp add: k_def)
  have "bus_inv b"
    using b Suc.prems by (intro bus_reach_inv) (simp_all add: bus_small_def)
  then have rel: "ring_rel (bus_log b) (bus_ring b)"
    by (simp add: bus_inv_def ring_ok_def)
  have "\<not> lagging (bus_log b)"
    using b(2) Suc.prems by (intro not_lagging_short) (simp add: bus_log_def RING_SIZE_eq)
  with publish_sim [OF rel, of None 7 1 "[9]"] b(2) Suc.prems
  have "fst (Ring.publish (bus_ring b) None 7 1 [9]) = Inr ()"
    by (simp add: log_publish_def PAYLOAD_CAP_def bus_log_def)
  then obtain r where pub: "Ring.publish (bus_ring b) None 7 1 [9] = (Inr (), r)"
    by (cases "Ring.publish (bus_ring b) None 7 1 [9]") auto
  define b1 where "b1 = b\<lparr>bus_ring := r, accepted := accepted b @ [(0, demo_msg)],
      conns := [RunPublisher (flood (Suc k)) ''p'']\<rparr>"
  have "bus_reach b1"
    using bus_reach.step [OF b(1) publish [of 0 b "fst demo_pub" "snd demo_pub" "flood (Suc k)" "''p''" None
          "RunPublisher (flood (Suc k)) ''p''" r "shared b"]] b(5) pub k
    by (simp add: b1_def publish_attempt_def demo_pub_def set_conn_def demo_msg_def)
  from bus_reach.step [OF this read [of 0 b1 "flood (Suc k)" "''p''" "?p k" "shared b"]]
  have "bus_reach (b1\<lparr>conns := [?p k]\<rparr>)"
    using publisher_read_flood by (simp add: b1_def set_conn_def)
  moreover have "consumers r = consumers (bus_ring b)"
    using publish_consumers [of "bus_ring b" None 7 1 "[9]"] pub by simp
  ultimately show ?case
    unfolding k_def [symmetric] using b by (intro exI [of _ "b1\<lparr>conns := [?p k]\<rparr>"]) (simp add: b1_def handed_def)
qed

theorem dispatch_releases_publisher_witness:
  "\<exists>b b'. bus_reach b \<and> length (accepted b) = 65536 \<and> bus_step b b' \<and>
     fst (publish_attempt (bus_ring b) None (fst demo_pub) [9] (flood 0) ''p'' (shared b)) =
       PublishOne (fst demo_pub) [9] (flood 0) ''p'' \<and>
     fst (publish_attempt (bus_ring b') None (fst demo_pub) [9] (flood 0) ''p'' (shared b')) =
       RunPublisher (flood 0) ''p''"
proof -
  obtain b where b: "bus_reach b" "length (accepted b) = 65536" "handed b = 0" "chans (shared b) = []"
    "conns b = [PublishOne (fst demo_pub) [9] (flood 0) ''p'']"
    using flooded [of 65536] by (auto simp: demo_pub_def)
  have small: "bus_small b" using b by (simp add: bus_small_def)
  then have "ring_rel (bus_log b) (bus_ring b)"
    using bus_reach_inv [OF b(1)] by (simp add: bus_inv_def ring_ok_def)
  moreover have "Some 0 \<in> set (positions (bus_log b))"
    by (simp add: bus_log_def b(3) MAX_CONSUMERS_def set_update_memI)
  then have "lagging (bus_log b)"
    using b(2) unfolding lagging_iff by (intro exI [of _ 0]) (simp add: bus_log_def RING_SIZE_eq)
  ultimately have "fst (Ring.publish (bus_ring b) None 7 1 [9]) = Inl SlowConsumer"
    using publish_sim [of "bus_log b" "bus_ring b" None 7 1 "[9]"] b(2)
    by (simp add: log_publish_def PAYLOAD_CAP_def bus_log_def)
  then have slow: "fst (publish_attempt (bus_ring b) None (fst demo_pub) [9] (flood 0) ''p'' (shared b)) =
      PublishOne (fst demo_pub) [9] (flood 0) ''p''"
    by (auto simp: publish_attempt_def demo_pub_def split: prod.splits)
  from dispatch_releases_publisher [OF b(1) small _ _ _ slow, of 0] b slow show ?thesis by auto
qed

text \<open>Turns of the dispatcher alone.\<close>

inductive dispatcher_runs :: "Bus \<Rightarrow> Bus \<Rightarrow> bool" where
  stop: "dispatcher_runs b b"
| turn: "dispatch_iter (\<lambda>_. bus_ring b) (dispatcher b) (shared b) = Some (Ret (r, s)) \<Longrightarrow>
    dispatcher_runs (b\<lparr>bus_ring := r, shared := s\<rparr>) b' \<Longrightarrow> dispatcher_runs b b'"

lemma catch_up:
  "bus_inv b \<Longrightarrow> \<exists>b'. dispatcher_runs b b' \<and> handed b' = length (accepted b') \<and> accepted b' = accepted b"
proof (induction "length (accepted b) - handed b" arbitrary: b)
  case 0
  then show ?case
    using handed_le [OF bus_invD(1) [OF 0(2)]] by (intro exI [of _ b]) (simp add: dispatcher_runs.stop)
next
  case (Suc n)
  note ring = bus_invD(1) [OF Suc.prems] and sh = bus_invD(2) [OF Suc.prems]
  have less: "handed b < length (accepted b)" using Suc.hyps(2) by simp
  then obtain s where it: "dispatch_iter (\<lambda>_. bus_ring b) (dispatcher b) (shared b) = Some (Ret (advance (bus_ring b) 0, s))"
    using bus_dispatch_iter [OF ring sh] by (auto simp: Let_def)
  let ?b = "b\<lparr>bus_ring := advance (bus_ring b) 0, shared := s\<rparr>"
  have "dispatched ?b = dispatched b @ [snd (accepted b ! handed b)]" "ring_ok ?b"
    using ring_ok_dispatch [OF ring less, of ?b] by simp_all
  then have "handed ?b = Suc (handed b)"
    using less handed_le [of ?b] by (auto simp: dispatched_def dest!: arg_cong [where f = length])
  then have n: "n = length (accepted ?b) - handed ?b"
    using Suc.hyps(2) by simp
  from Suc.hyps(1) [OF n inv_dispatch [OF Suc.prems it]] show ?case
    using dispatcher_runs.turn [OF it] by auto
qed

text \<open>
  C21: the dispatcher catches up. From every reachable state, turns of the dispatcher alone
  lead to a state in which every accepted message has been dispatched.
\<close>

theorem dispatcher_catches_up:
  assumes "bus_reach b" and "bus_small b"
  shows "\<exists>b'. dispatcher_runs b b' \<and> accepted b' = accepted b \<and> dispatched b' = map snd (accepted b)"
  using catch_up [OF bus_reach_inv [OF assms]] by (force simp: dispatched_def)

theorem dispatcher_catches_up_witness:
  "\<exists>b b'. bus_reach b \<and> handed b = 0 \<and> dispatcher_runs b b' \<and> dispatched b' = [demo_msg]"
proof -
  obtain r where r: "bus_reach (demo_bus r (demo_shared [] demo_lines) (demo_conns []) [(1, demo_msg)])" (is "bus_reach ?b")
    "consumers r ! 0 = 0"
    using demo_accepted by blast
  have b: "bus_small ?b" "accepted ?b = [(1, demo_msg)]" "handed ?b = 0"
    using r(2) by (simp_all add: bus_small_def demo_bus_def demo_shared_def handed_def)
  with dispatcher_catches_up [OF r(1) b(1)] r show ?thesis by auto
qed

section \<open>End to end\<close>

lemma conn_parsed: "bus_inv b \<Longrightarrow> i < length (conns b) \<Longrightarrow> \<exists>rest. parsed (origin b ! i) (sent_by i (accepted b)) rest"
  using bus_invD(7) [of b i] parsed_Nil [of "origin b ! i"] by (cases "conns b ! i") auto

lemma accepted_payload:
  assumes "bus_inv b" and "m \<in> set (map snd (accepted b))"
  shows "length (m_payload m) \<le> PAYLOAD_CAP"
proof -
  obtain i where i: "(i, m) \<in> set (accepted b)" using assms(2) by auto
  then have len: "i < length (conns b)" using bus_invD(6) [OF assms(1)] by auto
  have m: "m \<in> set (sent_by i (accepted b))" using i by (force simp: sent_by_def)
  from conn_parsed [OF assms(1) len] obtain fs where fs: "list_all acceptable fs" "map core (sent_by i (accepted b)) = map core_of fs"
    by (auto simp: parsed_def)
  from m have "core m \<in> set (map core (sent_by i (accepted b)))" by simp
  then obtain f where "f \<in> set fs" "core m = core_of f"
    unfolding fs(2) by auto
  with fs(1) show ?thesis
    by (auto simp: list_all_iff acceptable_def core_def core_of_def)
qed

lemma feed_all: "feed (\<lambda>m e. (True, e @ [m])) e ms = (False, e @ ms, [])"
  by (induction ms arbitrary: e) simp_all

lemma run_collects:
  assumes "list_all framed ms" and "incoming st = concat (map wire ms)"
  shows "run (\<lambda>h p e. Ret (True, e @ [(h, p)])) [] \<lparr>reader = st\<rparr> =
    Ret (Inl UnexpectedEof, ms, \<lparr>reader = st\<lparr>incoming := []\<rparr>\<rparr>)"
proof -
  have "[] \<noteq> wire m @ rest" for m rest
    using length_wire [of m] by auto
  with run_feed [of ms "[]" "\<lparr>reader = st\<rparr>" "\<lambda>m e. (True, e @ [m])" "[]"] assms show ?thesis
    by (simp add: feed_all)
qed

lemma framed_msg: "length (m_payload m) \<le> PAYLOAD_CAP \<Longrightarrow> framed (msg_header m, m_payload m)"
  by (simp add: framed_def msg_header_def PAYLOAD_CAP_def unat_of_nat take_bit_nat_eq_self)

lemma subseq_map_ex: "subseq ws (map f ds) \<Longrightarrow> \<exists>ds'. subseq ds' ds \<and> ws = map f ds'"
  by (metis nths_map subseq_conv_nths)

text \<open>The whole messages in a subscriber's stream.\<close>

lemma subscriber_stream:
  assumes "bus_reach b" and "bus_small b" and "i < length (conns b)"
    and "conns b ! i = SubscriberIo st rx sid peer"
  obtains e ds where "map_of (registry (shared b)) sid = Some e"
    and "outgoing st = concat (map wire (map (\<lambda>m. (msg_header m, m_payload m)) ds))"
    and "list_all framed (map (\<lambda>m. (msg_header m, m_payload m)) ds)"
    and "subseq ds (filter (\<lambda>m. matches e (m_channel_id m)) (map snd (accepted b)))"
proof -
  note inv = bus_reach_inv [OF assms(1,2)]
  let ?all = "map snd (accepted b)"
  from bus_invD(7) [OF inv assms(3)] assms(4)
  have "sub_ok (shared b) (joined b) (dispatched b) st rx sid" by simp
  then obtain e ws where e: "map_of (registry (shared b)) sid = Some e" and out: "outgoing st = concat ws"
    and "subseq (ws @ buffer (chans (shared b) ! rx)) (expected e (joined b ! rx) (dispatched b))"
    by (auto simp: sub_ok_def delivers_def)
  then have "subseq ws (map frame_of (filter (\<lambda>m. matches e (m_channel_id m)) (drop (joined b ! rx) (dispatched b))))"
    unfolding expected_def by (meson subseq_order.trans subseq_rev_drop_many subseq_order.refl)
  then obtain ds where ds: "subseq ds (filter (\<lambda>m. matches e (m_channel_id m)) (drop (joined b ! rx) (dispatched b)))"
    and ws: "ws = map frame_of ds"
    using subseq_map_ex by blast
  have "subseq (drop (joined b ! rx) (dispatched b)) ?all"
    unfolding dispatched_def by (meson sublist_drop sublist_imp_subseq subseq_order.trans sublist_take)
  then have sub: "subseq ds (filter (\<lambda>m. matches e (m_channel_id m)) ?all)"
    using ds by (meson subseq_filter subseq_order.trans)
  then have "set ds \<subseteq> set ?all"
    by (metis filter_is_subset set_nths_subset subseq_conv_nths subset_trans)
  then have framed: "list_all framed (map (\<lambda>m. (msg_header m, m_payload m)) ds)"
    using accepted_payload [OF inv] framed_msg by (auto simp: list_all_iff)
  have "outgoing st = concat (map wire (map (\<lambda>m. (msg_header m, m_payload m)) ds))"
    by (simp add: out ws frame_of_def [abs_def] comp_def)
  with e framed sub show thesis by (intro that)
qed

lemma core_of_message: "map core_of (map (\<lambda>m. (msg_header m, m_payload m)) ds) = map core ds"
  by (simp add: core_of_def core_def msg_header_def)

text \<open>
  C1: end to end. A client that reads a subscriber's stream with \<open>run\<close> is handed whole
  messages; their channels, types and payloads are a subsequence, in order, of those of the
  messages accepted from the publishers, restricted to the channels of its subscription.
\<close>

theorem subscriber_decodes_published:
  assumes "bus_reach b" and "bus_small b" and "i < length (conns b)"
    and "conns b ! i = SubscriberIo st rx sid peer"
  shows "\<exists>e ms. map_of (registry (shared b)) sid = Some e \<and>
    run (\<lambda>h p e. Ret (True, e @ [(h, p)])) [] \<lparr>reader = \<lparr>incoming = outgoing st, outgoing = [], send_room = None\<rparr>\<rparr> =
      Ret (Inl UnexpectedEof, ms, \<lparr>reader = \<lparr>incoming = [], outgoing = [], send_room = None\<rparr>\<rparr>) \<and>
    subseq (map core_of ms)
      (map core (filter (\<lambda>m. filter_all e \<or> m_channel_id m \<in> channels e) (map snd (accepted b))))"
proof -
  obtain e ds where e: "map_of (registry (shared b)) sid = Some e"
    and out: "outgoing st = concat (map wire (map (\<lambda>m. (msg_header m, m_payload m)) ds))"
    and framed: "list_all framed (map (\<lambda>m. (msg_header m, m_payload m)) ds)"
    and sub: "subseq ds (filter (\<lambda>m. matches e (m_channel_id m)) (map snd (accepted b)))"
    by (rule subscriber_stream [OF assms])
  have "subseq (map core_of (map (\<lambda>m. (msg_header m, m_payload m)) ds))
      (map core (filter (\<lambda>m. filter_all e \<or> m_channel_id m \<in> channels e) (map snd (accepted b))))"
    unfolding core_of_message using sub by (simp add: subseq_map matches_def)
  with run_collects [OF framed, of "\<lparr>incoming = outgoing st, outgoing = [], send_room = None\<rparr>"] e out show ?thesis
    by (intro exI [of _ e] exI [of _ "map (\<lambda>m. (msg_header m, m_payload m)) ds"]) simp
qed

theorem subscriber_decodes_published_witness:
  "\<exists>b ms. bus_reach b \<and> accepted b = [(1, demo_msg)] \<and>
     run (\<lambda>h p e. Ret (True, e @ [(h, p)])) [] \<lparr>reader = demo_stream (frame_of demo_msg) []\<rparr> =
       Ret (Inl UnexpectedEof, ms, \<lparr>reader = demo_stream [] []\<rparr>) \<and>
     subseq (map core_of ms) [core demo_msg]"
proof -
  let ?b = "\<lambda>r. demo_bus r (demo_shared [] demo_lines) (demo_conns (frame_of demo_msg)) [(1, demo_msg)]"
  obtain r where r: "bus_reach (?b r)"
    using demo_delivered by blast
  have b: "bus_small (?b r)" "0 < length (conns (?b r))"
    "conns (?b r) ! 0 = SubscriberIo (demo_stream [] (frame_of demo_msg)) 0 0 ''s''"
    "map_of (registry (shared (?b r))) 0 = Some \<lparr>tx = 0, channels = {7}, filter_all = False, addr = ''s''\<rparr>"
    "accepted (?b r) = [(1, demo_msg)]"
    by (simp_all add: bus_small_def demo_bus_def demo_shared_def demo_conns_def)
  have m: "m_channel_id demo_msg = 7"
    by (simp add: demo_msg_def stamped_def)
  from subscriber_decodes_published [OF r b(1-3)] b(4,5) r m show ?thesis
    by (auto simp: demo_stream_def)
qed

end
