(* ===== verification/Bus_Subscriptions.thy ===== *)
theory Bus_Subscriptions
  imports Bus_Props
begin

text \<open>
  The subscriptions the bus serves are the ones the clients asked for: no step of any
  other thread changes the registry entry of a connection that stays, so what the handshake
  read from the connection's first bytes is in force as long as the connection lasts.
\<close>

section \<open>What a step leaves alone\<close>

lemma step_origin:
  assumes "bus_step b b'" and "length (origin b) = length (conns b)" and "i < length (conns b)"
  shows "i < length (conns b') \<and> origin b' ! i = origin b ! i"
  using assms by cases (auto simp: set_conn_def nth_append)

lemma step_new_conn:
  assumes "bus_step b b'" and "\<not> i < length (conns b)" and "i < length (conns b')"
  shows "conn_sid (conns b' ! i) = None"
  using assms by cases (auto simp: set_conn_def nth_append)

text \<open>
  The entry of a connection that a step leaves registered is the one it had, unless the step
  is that connection's own handshake.
\<close>

lemma step_entry:
  assumes step: "bus_step b b'" and inv: "bus_inv b" and small: "bus_small b'"
    and j: "j < length (conns b)" and sid: "conn_sid (conns b' ! j) = Some sid"
  shows "conn_sid (conns b ! j) = Some sid \<and> map_of (registry (shared b')) sid = map_of (registry (shared b)) sid \<or>
    (\<exists>st peer c. conns b ! j = Handshake st peer \<and>
       handle_connection st peer (shared b) = Ret (c, shared b') \<and> conns b' ! j = c)"
  using step
proof cases
  case (accept st peer)
  then show ?thesis using j sid by (simp add: nth_append)
next
  case (handshake i st peer c s)
  show ?thesis
  proof (cases "j = i")
    case True
    with handshake show ?thesis by (simp add: set_conn_def)
  next
    case False
    then have old: "conn_sid (conns b ! j) = Some sid" using handshake sid by (simp add: set_conn_def)
    from handshake(4) have "map_of (registry s) sid = map_of (registry (shared b)) sid"
    proof (cases rule: handle_connection_cases)
      case (sub st' p chs)
      obtain rx where rx: "rx < length (chans (shared b))" "sid = word_of_nat rx"
        using conn_sid_old [OF bus_invD(7) [OF inv j] old] by blast
      have "length (chans (shared b)) < 2 ^ 64"
        using small handshake sub(3) by (simp add: bus_small_def set_conn_def)
      then have "sid \<noteq> sub_id (shared b)"
        using rx word_of_nat_inj [of rx "length (chans (shared b))"] shared_okD(2) [OF bus_invD(2) [OF inv]] by auto
      then show ?thesis by (simp add: sub(3))
    qed auto
    with old handshake show ?thesis by (simp add: set_conn_def)
  qed
next
  case (read i st peer c s)
  then have "conn_sid c = None \<and> registry s = registry (shared b)"
    by (cases rule: publisher_read_cases [of st peer "shared b"]) auto
  with read j sid show ?thesis by (auto simp: set_conn_def nth_list_update split: if_splits)
next
  case (publish i h p st peer clk c r s)
  from publish(4) have "conn_sid c = None \<and> registry s = registry (shared b)"
    by (auto simp: publish_attempt_def split: prod.splits sum.splits PublishError.splits)
  with publish j sid show ?thesis by (auto simp: set_conn_def nth_list_update split: if_splits)
next
  case (dispatch r s)
  then have "registry s = registry (shared b)"
    using bus_dispatch_iter [OF bus_invD(1,2) [OF inv]] by (auto simp: Let_def split: if_splits)
  with dispatch sid show ?thesis by simp
next
  case (send i st rx k peer c s)
  then have "conn_sid c = Some k \<and> registry s = registry (shared b)"
    by (auto simp: subscriber_io_iter_def split: RecvResult.splits prod.splits sum.splits)
  with send j sid show ?thesis by (auto simp: set_conn_def nth_list_update split: if_splits)
next
  case (leave i st k peer)
  then have ji: "j \<noteq> i" "conn_sid (conns b ! j) = Some sid"
    using j sid by (auto simp: set_conn_def nth_list_update split: if_splits)
  then have "sid \<noteq> k"
    using bus_invD(5) [OF inv] leave j by (fastforce simp: owners_ok_def)
  with leave ji show ?thesis by (simp add: set_conn_def subscriber_leave_def)
qed

section \<open>The subscription in force\<close>

text \<open>The entry a list of channels asks for: at most 256 of them, every channel when none is named.\<close>

definition entry_for :: "u32 list \<Rightarrow> SubEntry \<Rightarrow> bool" where
  "entry_for chs e \<longleftrightarrow> length chs \<le> 256 \<and> channels e = set chs \<and> (filter_all e \<longleftrightarrow> chs = [])"

definition asked :: "u8 list \<Rightarrow> u32 list \<Rightarrow> bool" where
  "asked bytes chs \<longleftrightarrow> 4 * length chs < 2 ^ 32 \<and> (\<exists>rest. bytes = wire (subscribe_msg chs) @ rest)"

definition subscriptions_ok :: "Bus \<Rightarrow> bool" where
  "subscriptions_ok b \<longleftrightarrow>
     (\<forall>i<length (conns b). \<forall>sid chs. conn_sid (conns b ! i) = Some sid \<longrightarrow> asked (origin b ! i) chs \<longrightarrow>
        (\<exists>e. map_of (registry (shared b)) sid = Some e \<and> entry_for chs e))"

lemma handshake_entry:
  assumes "asked (incoming st) chs" and "handle_connection st peer s = Ret (c, s')" and "conn_sid c = Some sid"
  shows "\<exists>e. map_of (registry s') sid = Some e \<and> entry_for chs e"
proof (cases peer)
  case None
  with assms show ?thesis by (auto simp: handle_connection_def)
next
  case (Some p)
  from assms(1) obtain rest where "4 * length chs < 2 ^ 32" "incoming st = wire (subscribe_msg chs) @ rest"
    by (auto simp: asked_def)
  from handle_subscribe [OF this(2,1), of p s] assms(2,3) Some show ?thesis
    by (auto simp: entry_for_def split: if_splits)
qed

lemma subscriptions_step:
  assumes "bus_step b b'" and "bus_inv b" and "bus_small b'" and "subscriptions_ok b"
  shows "subscriptions_ok b'"
  unfolding subscriptions_ok_def
proof (intro allI impI)
  fix i sid chs
  assume i: "i < length (conns b')" "conn_sid (conns b' ! i) = Some sid" and asked: "asked (origin b' ! i) chs"
  have j: "i < length (conns b)" using step_new_conn [OF assms(1)] i by fastforce
  have asked: "asked (origin b ! i) chs" using step_origin [OF assms(1) bus_invD(3) [OF assms(2)] j] asked by simp
  from step_entry [OF assms(1-3) j i(2)] show "\<exists>e. map_of (registry (shared b')) sid = Some e \<and> entry_for chs e"
  proof
    assume "conn_sid (conns b ! i) = Some sid \<and> map_of (registry (shared b')) sid = map_of (registry (shared b)) sid"
    with assms(4) j asked show ?thesis by (simp add: subscriptions_ok_def)
  next
    assume "\<exists>st peer c. conns b ! i = Handshake st peer \<and>
       handle_connection st peer (shared b) = Ret (c, shared b') \<and> conns b' ! i = c"
    then obtain st peer where h: "conns b ! i = Handshake st peer"
      "handle_connection st peer (shared b) = Ret (conns b' ! i, shared b')" by blast
    moreover have "incoming st = origin b ! i" using bus_invD(7) [OF assms(2) j] h(1) by simp
    ultimately show ?thesis using handshake_entry [of st chs peer "shared b"] asked i(2) by simp
  qed
qed

lemma subscriptions_reach: "bus_reach b \<Longrightarrow> bus_small b \<Longrightarrow> subscriptions_ok b"
proof (induction rule: bus_reach.induct)
  case (start b)
  then show ?case by (auto simp: bus_start_def subscriptions_ok_def split: prod.splits sum.splits)
next
  case (step b b')
  then have "bus_small b" using step_grows [of b b'] by (auto simp: bus_small_def)
  with step bus_reach_inv subscriptions_step show ?case by blast
qed

text \<open>
  C12: a subscription stays in force. In every reachable state, a connection whose first bytes
  were the subscription that \<open>connect_filtered\<close> writes for a list of channels and that has a
  subscriber thread has a registry entry, and it selects exactly the messages of those channels,
  all messages when the list is empty; no other connection coming or going changes it.
\<close>

theorem subscription_in_force:
  assumes "bus_reach b" and "bus_small b" and "i < length (conns b)"
    and "conn_sid (conns b ! i) = Some sid"
    and "origin b ! i = wire (subscribe_msg chs) @ rest" and "4 * length chs < 2 ^ 32"
  shows "length chs \<le> 256 \<and> (\<exists>e. map_of (registry (shared b)) sid = Some e \<and>
    (\<forall>ch. (filter_all e \<or> ch \<in> channels e) = (chs = [] \<or> ch \<in> set chs)))"
  using subscriptions_reach [OF assms(1,2)] assms(3-6)
  by (fastforce simp: subscriptions_ok_def asked_def entry_for_def)

theorem subscription_in_force_witness:
  "\<exists>b e. bus_reach b \<and> conn_sid (conns b ! 0) = Some 0 \<and> accepted b = [(1, demo_msg)] \<and>
     map_of (registry (shared b)) 0 = Some e \<and> (\<forall>ch. (filter_all e \<or> ch \<in> channels e) = (ch = 7))"
proof -
  obtain r where r: "bus_reach (demo_bus r (demo_shared [] demo_lines) (demo_conns []) [(1, demo_msg)])" (is "bus_reach ?b")
    using demo_accepted by blast
  have b: "bus_small ?b" "0 < length (conns ?b)" "conn_sid (conns ?b ! 0) = Some 0" "accepted ?b = [(1, demo_msg)]"
    "origin ?b ! 0 = wire (subscribe_msg [7]) @ []" "4 * length [7 :: u32] < 2 ^ 32"
    by (simp_all add: bus_small_def demo_bus_def demo_shared_def demo_conns_def)
  from subscription_in_force [OF r b(1-3,5,6)] b(3,4) r show ?thesis by auto
qed

end
