(* ===== verification/Bus_Relay.thy ===== *)
theory Bus_Relay
  imports Bus_Subscriptions
begin

text \<open>
  The bus can do its work to the end: for every list of channels a client subscribes to and every list
  of frames a publisher sends, there is a run in which every frame is accepted,
  dispatched and, when it matches, written to the subscriber's socket, and nothing else is.
\<close>

section \<open>The beginning of a stream of frames\<close>

lemma wires_prefix:
  "\<lbrakk>list_all framed fs; list_all framed ms; concat (map wire ms) = concat (map wire fs) @ rest\<rbrakk> \<Longrightarrow> prefix fs ms"
proof (induction fs arbitrary: ms)
  case (Cons f fs)
  show ?case
  proof (cases ms)
    case Nil
    with Cons.prems(3) length_wire [of f] show ?thesis by auto
  next
    case (Cons m ms')
    from Cons.prems Cons have "framed m" "framed f"
      "wire m @ concat (map wire ms') = wire f @ (concat (map wire fs) @ rest)" by simp_all
    from wire_unique [OF this(3,1,2)] show ?thesis
      using Cons.IH [of ms'] Cons.prems Cons by simp
  qed
qed simp

text \<open>When one connection sends everything, what is accepted is the beginning of what it sends.\<close>

lemma only_publisher:
  assumes inv: "bus_inv b" and k: "k < length (conns b)" and only: "\<forall>(j, m)\<in>set (accepted b). j = k"
    and bytes: "concat (map wire ms) = origin b ! k @ unsent" and framed: "list_all framed ms"
  obtains fs where "prefix fs ms" and "map core (map snd (accepted b)) = map core_of fs"
proof -
  have "filter (\<lambda>(j, _). j = k) (accepted b) = accepted b" using only by (auto simp: filter_id_conv)
  then have all: "sent_by k (accepted b) = map snd (accepted b)" by (simp add: sent_by_def)
  obtain fs rest where fs: "list_all acceptable fs" "origin b ! k = concat (map wire fs) @ rest"
    "map core (map snd (accepted b)) = map core_of fs"
    using conn_parsed [OF inv k] unfolding all by (auto simp: parsed_def)
  have "list_all framed fs" using fs(1) by (auto simp: list_all_iff acceptable_def)
  then have "prefix fs ms" using wires_prefix [OF _ framed, of fs "rest @ unsent"] bytes fs(2) by simp
  with fs(3) show thesis by (intro that)
qed

section \<open>A subscriber and a publisher\<close>

text \<open>A publication is a frame and what the clock reads when the ring takes it.\<close>

type_synonym Publication = "clock \<times> MsgHeader \<times> u8 list"

definition taken :: "Publication \<Rightarrow> Msg" where
  "taken d = stamped (fst d) (channel_id (fst (snd d))) (msg_type (fst (snd d))) (snd (snd d))"

definition selects :: "u32 list \<Rightarrow> Msg \<Rightarrow> bool" where
  "selects chs m \<longleftrightarrow> chs = [] \<or> m_channel_id m \<in> set chs"

definition relayed :: "u32 list \<Rightarrow> Publication list \<Rightarrow> u8 list" where
  "relayed chs ds = concat (map frame_of (filter (selects chs) (map taken ds)))"

definition sub_entry :: "u32 list \<Rightarrow> SubEntry" where
  "sub_entry chs = \<lparr>tx = 0, channels = set chs, filter_all = (set chs = {}), addr = ''s''\<rparr>"

definition relay_lines :: "LogLine list" where
  "relay_lines = [SubscriberUp ''s'' 0, PublisherUp ''p'']"

text \<open>The publications \<open>ds\<close> have gone all the way, and the publisher's connection is at \<open>c\<close>.\<close>

definition relay_at :: "u32 list \<Rightarrow> u8 list \<Rightarrow> Publication list \<Rightarrow> Conn \<Rightarrow> Bus \<Rightarrow> bool" where
  "relay_at chs bytes ds c b \<longleftrightarrow> bus_reach b \<and>
     conns b = [SubscriberIo (demo_stream [] (relayed chs ds)) 0 0 ''s'', c] \<and>
     registry (shared b) = [(0, sub_entry chs)] \<and> chans (shared b) = [\<lparr>buffer = [], bound = 8192\<rparr>] \<and>
     printed (shared b) = relay_lines \<and> accepted b = map (\<lambda>d. (1, taken d)) ds \<and> handed b = length ds \<and>
     origin b = [wire (subscribe_msg chs), bytes] \<and> joined b = [0]"

lemma relay_inv:
  assumes "relay_at chs bytes ds c b" and "length ds < 2 ^ 64 - 1"
  shows "bus_small b" and "bus_inv b"
proof -
  show "bus_small b" using assms by (simp add: relay_at_def bus_small_def)
  then show "bus_inv b" using assms bus_reach_inv by (simp add: relay_at_def)
qed

lemma matches_sub_entry: "matches (sub_entry chs) (m_channel_id m) \<longleftrightarrow> selects chs m"
  by (simp add: matches_def sub_entry_def selects_def)

section \<open>One publication\<close>

text \<open>The ring takes the publication: the dispatcher is not behind.\<close>

lemma relay_publish:
  assumes at: "relay_at chs bytes ds (PublishOne (fst m) (snd m) st ''p'') b"
    and m: "length (snd m) \<le> PAYLOAD_CAP" and small: "Suc (length ds) < 2 ^ 64 - 1"
  obtains r where "Ring.publish (bus_ring b) clk (channel_id (fst m)) (msg_type (fst m)) (snd m) = (Inr (), r)"
    and "bus_step b (b\<lparr>conns := (conns b)[1 := RunPublisher st ''p''], bus_ring := r,
      accepted := accepted b @ [(1, taken (clk, m))]\<rparr>)"
    and "consumers r = consumers (bus_ring b)"
proof -
  let ?r = "Ring.publish (bus_ring b) clk (channel_id (fst m)) (msg_type (fst m)) (snd m)"
  have inv: "bus_inv b" by (rule relay_inv(2) [OF at]) (use small in simp)
  then have rel: "ring_rel (bus_log b) (bus_ring b)" by (simp add: bus_inv_def ring_ok_def)
  have n: "length (accepted b) = length ds" "handed b = length ds" "conns b ! 1 = PublishOne (fst m) (snd m) st ''p''"
    "1 < length (conns b)"
    using at by (simp_all add: relay_at_def)
  have "\<not> lagging (bus_log b)"
    by (auto simp: lagging_iff bus_log_def n MAX_CONSUMERS_def RING_SIZE_eq dest!: set_update_subset_insert [THEN subsetD])
  with publish_sim [OF rel, of clk "channel_id (fst m)" "msg_type (fst m)" "snd m"] m small
  have "fst ?r = Inr ()" by (simp add: log_publish_def bus_log_def n stamped_def)
  then obtain r where r: "?r = (Inr (), r)" by (cases ?r) simp
  then have att: "publish_attempt (bus_ring b) clk (fst m) (snd m) st ''p'' (shared b) = (RunPublisher st ''p'', r, shared b)"
    by (simp add: publish_attempt_def)
  have upd: "set_conn i c (b\<lparr>bus_ring := r, accepted := acc\<rparr>) =
      b\<lparr>conns := (conns b)[i := c], bus_ring := r, accepted := acc\<rparr>" for i c acc
    by (cases b) (simp add: set_conn_def)
  from publish [OF n(4,3) att] r
  have "bus_step b (b\<lparr>conns := (conns b)[1 := RunPublisher st ''p''], bus_ring := r,
      accepted := accepted b @ [(1, taken (clk, m))]\<rparr>)"
    by (simp add: upd taken_def)
  moreover have "consumers r = consumers (bus_ring b)"
    using publish_consumers [of "bus_ring b" clk "channel_id (fst m)" "msg_type (fst m)" "snd m"] r by simp
  ultimately show thesis using r that by blast
qed

lemma relay_one:
  assumes at: "relay_at chs bytes ds (PublishOne (fst m) (snd m) st ''p'') b"
    and m: "length (snd m) \<le> PAYLOAD_CAP" and small: "Suc (length ds) < 2 ^ 64 - 1"
  shows "\<exists>b'. relay_at chs bytes (ds @ [(clk, m)]) (RunPublisher st ''p'') b'"
proof -
  let ?m = "taken (clk, m)"
  obtain r where step: "bus_step b (b\<lparr>conns := (conns b)[1 := RunPublisher st ''p''], bus_ring := r,
      accepted := accepted b @ [(1, ?m)]\<rparr>)" (is "bus_step b ?b1")
    and cs: "consumers r = consumers (bus_ring b)"
    by (rule relay_publish [OF at m small, of clk])
  have reach: "bus_reach ?b1" using at bus_reach.step [OF _ step] by (simp add: relay_at_def)
  have "bus_small ?b1" using at small by (simp add: relay_at_def bus_small_def)
  then have inv: "bus_inv ?b1" by (rule bus_reach_inv [OF reach])
  have h: "handed ?b1 = length ds" "accepted ?b1 ! length ds = (1, ?m)" "length (accepted ?b1) = Suc (length ds)"
    using at cs by (simp_all add: relay_at_def handed_def nth_append)
  let ?s = "shared b\<lparr>chans := [\<lparr>buffer = if selects chs ?m then [frame_of ?m] else [], bound = 8192\<rparr>]\<rparr>"
  have offer: "offered (frame_of ?m) (m_channel_id ?m) (registry (shared b)) (shared b) = ?s"
    using at by (cases "shared b")
      (auto simp: relay_at_def offered_def offer_def slow_lines_def full_def matches_sub_entry, simp_all add: sub_entry_def)
  let ?b2 = "?b1\<lparr>bus_ring := advance r 0, shared := ?s\<rparr>"
  have "dispatch_iter (\<lambda>_. bus_ring ?b1) (dispatcher ?b1) (shared ?b1) = Some (Ret (advance r 0, ?s))"
    using bus_dispatch_iter [OF bus_invD(1,2) [OF inv]] h by (simp add: Let_def offer)
  from bus_reach.step [OF reach dispatch [OF this]]
  have reach2: "bus_reach ?b2" by simp
  have d: "dispatched ?b2 = dispatched ?b1 @ [?m]" and ok: "ring_ok ?b2"
    using ring_ok_dispatch [OF bus_invD(1) [OF inv], of ?b2] h by simp_all
  have "length (dispatched ?b2) = Suc (length ds)"
    unfolding d using h by (simp add: dispatched_def)
  then have h2: "handed ?b2 = Suc (length ds)"
    using handed_le [OF ok] h(3) by (simp add: dispatched_def)
  show ?thesis
  proof (cases "selects chs ?m")
    case False
    with at reach2 h2 have "relay_at chs bytes (ds @ [(clk, m)]) (RunPublisher st ''p'') ?b2"
      by (simp add: relay_at_def relayed_def)
    then show ?thesis ..
  next
    case True
    let ?out = "relayed chs (ds @ [(clk, m)])"
    let ?s3 = "?s\<lparr>chans := [\<lparr>buffer = [], bound = 8192\<rparr>]\<rparr>"
    have "conns ?b2 ! 0 = SubscriberIo (demo_stream [] (relayed chs ds)) 0 0 ''s''" "0 < length (conns ?b2)"
      using at by (simp_all add: relay_at_def)
    moreover have "subscriber_io_iter (demo_stream [] (relayed chs ds)) 0 0 ''s'' (shared ?b2) =
        Some (SubscriberIo (demo_stream [] ?out) 0 0 ''s'', ?s3)"
      using True by (simp add: subscriber_io_iter_def recv_def write_all_def demo_stream_def relayed_def)
    ultimately have "bus_step ?b2 (set_conn 0 (SubscriberIo (demo_stream [] ?out) 0 0 ''s'') (?b2\<lparr>shared := ?s3\<rparr>))"
      by (intro send) simp_all
    from bus_reach.step [OF reach2 this] at h2
    have "relay_at chs bytes (ds @ [(clk, m)]) (RunPublisher st ''p'')
        (set_conn 0 (SubscriberIo (demo_stream [] ?out) 0 0 ''s'') (?b2\<lparr>shared := ?s3\<rparr>))"
      by (simp add: relay_at_def set_conn_def handed_def)
    then show ?thesis ..
  qed
qed

lemma relay_read:
  assumes at: "relay_at chs bytes ds (RunPublisher (demo_stream (wire m @ rest) []) ''p'') b"
    and m: "framed m" "length (snd m) \<le> PAYLOAD_CAP"
  shows "\<exists>b'. relay_at chs bytes ds (PublishOne (fst m) (snd m) (demo_stream rest []) ''p'') b'"
proof -
  let ?st = "demo_stream (wire m @ rest) []" and ?c = "PublishOne (fst m) (snd m) (demo_stream rest []) ''p''"
  have i: "1 < length (conns b)" "conns b ! 1 = RunPublisher ?st ''p''" using at by (simp_all add: relay_at_def)
  have "publisher_read ?st ''p'' (shared b) = Ret (?c, shared b)"
    using publisher_read_wire [OF m, of ?st rest] by (simp add: demo_stream_def)
  from bus_reach.step [OF _ read [OF i this]] at
  have "relay_at chs bytes ds ?c (set_conn 1 ?c (b\<lparr>shared := shared b\<rparr>))"
    by (simp add: relay_at_def set_conn_def handed_def)
  then show ?thesis ..
qed

section \<open>All of them\<close>

lemma relay_rest:
  "\<lbrakk>relay_at chs bytes ds (RunPublisher (demo_stream (concat (map (wire \<circ> snd) ps) @ rest) []) ''p'') b;
    list_all (\<lambda>(_, m). acceptable m) ps; length ds + length ps < 2 ^ 64 - 1\<rbrakk> \<Longrightarrow>
   \<exists>b'. relay_at chs bytes (ds @ ps) (RunPublisher (demo_stream rest []) ''p'') b'"
proof (induction ps arbitrary: ds b)
  case (Cons d ps)
  obtain clk m where d: "d = (clk, m)" by (cases d)
  have m: "framed m" "length (snd m) \<le> PAYLOAD_CAP" using Cons.prems(2) d by (simp_all add: acceptable_def)
  from Cons.prems(1) relay_read [OF _ m, of chs bytes ds "concat (map (wire \<circ> snd) ps) @ rest" b] d
  obtain b1 where b1: "relay_at chs bytes ds (PublishOne (fst m) (snd m)
      (demo_stream (concat (map (wire \<circ> snd) ps) @ rest) []) ''p'') b1"
    by (auto simp: comp_def)
  from relay_one [OF b1 m(2), of clk] Cons.prems(3)
  obtain b2 where "relay_at chs bytes (ds @ [d]) (RunPublisher (demo_stream (concat (map (wire \<circ> snd) ps) @ rest) []) ''p'') b2"
    by (auto simp: d)
  from Cons.IH [OF this] Cons.prems(2,3) show ?case by simp
qed auto

text \<open>The two connections are made: the subscriber's, then the publisher's with its first frame.\<close>

lemma relay_subscribed:
  assumes "length chs \<le> 256"
  shows "handle_connection (demo_stream (wire (subscribe_msg chs)) []) (Some ''s'')
     \<lparr>registry = [], chans = [], sub_id = 0, printed = []\<rparr> =
   Ret (SubscriberIo (demo_stream [] []) 0 0 ''s'',
     \<lparr>registry = [(0, sub_entry chs)], chans = [\<lparr>buffer = [], bound = 8192\<rparr>], sub_id = 1, printed = [SubscriberUp ''s'' 0]\<rparr>)"
  using assms handle_subscribe [of "demo_stream (wire (subscribe_msg chs)) []" chs "[]"]
  by (simp add: demo_stream_def subscribed_def sub_entry_def hash_insert_def hash_remove_def)

lemma relay_published:
  assumes "acceptable m" and "msg_type (fst m) \<noteq> 0"
  shows "handle_connection (demo_stream (wire m @ rest) []) (Some ''p'') s =
    Ret (PublishOne (fst m) (snd m) (demo_stream rest []) ''p'', print (PublisherUp ''p'') s)"
proof -
  have inc: "incoming (demo_stream (wire m @ rest) []) = header_wire (fst m) @ snd m @ rest"
    by (simp add: wire_def demo_stream_def)
  have len: "unat (payload_len (fst m)) = length (snd m)" "length (snd m) \<le> PAYLOAD_CAP"
    using assms(1) by (simp_all add: acceptable_def framed_def)
  show ?thesis
    unfolding handle_connection_header [OF inc] using assms(2) len
    by (simp add: publisher_handshake_Ret read_payload) (simp add: demo_stream_def read_exact_def)
qed

lemma relay_start:
  assumes chs: "length chs \<le> 256" and m: "acceptable m" "msg_type (fst m) \<noteq> 0"
  shows "\<exists>b. relay_at chs (wire m @ rest) [] (PublishOne (fst m) (snd m) (demo_stream rest []) ''p'') b"
proof -
  let ?s0 = "\<lparr>registry = [], chans = [], sub_id = 0, printed = []\<rparr>" and ?r = "snd (register_consumer ring_new)"
  let ?sub = "SubscriberIo (demo_stream [] []) 0 0 ''s''"
  let ?s1 = "\<lparr>registry = [(0, sub_entry chs)], chans = [\<lparr>buffer = [], bound = 8192\<rparr>], sub_id = 1,
      printed = [SubscriberUp ''s'' 0]\<rparr>"
  let ?b0 = "\<lparr>bus_ring = ?r, shared = ?s0, dispatcher = 0, conns = [], accepted = [], joined = [], origin = []\<rparr>"
  let ?b1 = "?b0\<lparr>conns := [Handshake (demo_stream (wire (subscribe_msg chs)) []) (Some ''s'')],
                 origin := [wire (subscribe_msg chs)]\<rparr>"
  let ?b2 = "?b1\<lparr>conns := [?sub], shared := ?s1, joined := [0]\<rparr>"
  let ?b3 = "?b2\<lparr>conns := [?sub, Handshake (demo_stream (wire m @ rest) []) (Some ''p'')],
                 origin := [wire (subscribe_msg chs), wire m @ rest]\<rparr>"
  let ?c = "PublishOne (fst m) (snd m) (demo_stream rest []) ''p''"
  let ?b4 = "?b3\<lparr>conns := [?sub, ?c], shared := print (PublisherUp ''p'') ?s1\<rparr>"
  have h: "consumers ?r ! 0 = 0" using register_new by (simp add: MAX_CONSUMERS_def)
  have 0: "bus_reach ?b0" by (rule bus_reach.start [OF bus_start_eq])
  have 1: "bus_reach ?b1"
    using bus_reach.step [OF 0 accept [of "demo_stream (wire (subscribe_msg chs)) []" ?b0 "Some ''s''"]]
    by (simp add: demo_stream_def)
  have 2: "bus_reach ?b2"
    using bus_reach.step [OF 1 handshake [of 0 ?b1 "demo_stream (wire (subscribe_msg chs)) []" "Some ''s''" ?sub ?s1]]
      relay_subscribed [OF chs] h
    by (simp add: set_conn_def handed_def)
  have 3: "bus_reach ?b3"
    using bus_reach.step [OF 2 accept [of "demo_stream (wire m @ rest) []" ?b2 "Some ''p''"]]
    by (simp add: demo_stream_def)
  have "bus_reach ?b4"
    using bus_reach.step [OF 3 handshake [of 1 ?b3 "demo_stream (wire m @ rest) []" "Some ''p''" ?c
          "print (PublisherUp ''p'') ?s1"]] relay_published [OF m]
    by (simp add: set_conn_def)
  then have "relay_at chs (wire m @ rest) [] ?c ?b4"
    using h by (simp add: relay_at_def relayed_def relay_lines_def handed_def print_def)
  then show ?thesis ..
qed

lemma bus_relays:
  assumes "length chs \<le> 256" and "list_all (\<lambda>(_, m). acceptable m) (d # ps)" and "msg_type (fst (snd d)) \<noteq> 0"
    and "length (d # ps) < 2 ^ 64 - 1"
  shows "\<exists>b. relay_at chs (concat (map (wire \<circ> snd) (d # ps)) @ rest) (d # ps) (RunPublisher (demo_stream rest []) ''p'') b"
proof -
  let ?bytes = "concat (map (wire \<circ> snd) (d # ps)) @ rest" and ?left = "concat (map (wire \<circ> snd) ps) @ rest"
  obtain clk m where d: "d = (clk, m)" by (cases d)
  have m: "acceptable m" "length (snd m) \<le> PAYLOAD_CAP" using assms(2) d by (simp_all add: acceptable_def)
  obtain b where "relay_at chs ?bytes [] (PublishOne (fst m) (snd m) (demo_stream ?left []) ''p'') b"
    using relay_start [OF assms(1) m(1), of ?left] assms(3) d by auto
  from relay_one [OF this m(2), of clk] obtain b1 where
    "relay_at chs ?bytes [d] (RunPublisher (demo_stream ?left []) ''p'') b1" by (auto simp: d)
  from relay_rest [OF this] assms(2,4) show ?thesis by auto
qed

text \<open>
  C9: nothing stands in the way of a delivery. For every subscription of at most 256 channels and every non-empty
  sequence of publications of at most 1024 bytes (the first not of type 0), the bus has a run from its start in which the
  subscriber connects, the publisher sends them, every one is accepted and dispatched in
  order, and the subscriber's socket carries exactly the frames that match, all of them, with no line
  about a slow subscriber.
\<close>

theorem bus_delivers_everything:
  assumes "length chs \<le> 256" and "list_all (\<lambda>(_, m). framed m \<and> length (snd m) \<le> 1024) ps" and "ps \<noteq> []"
    and "msg_type (fst (snd (hd ps))) \<noteq> 0" and "length ps < 2 ^ 64 - 1"
  shows "\<exists>b st. bus_reach b \<and> conns b ! 0 = SubscriberIo st 0 0 ''s'' \<and>
    origin b = [wire (subscribe_msg chs), concat (map (\<lambda>(_, m). wire m) ps)] \<and>
    map snd (accepted b) = map (\<lambda>(clk, h, p). stamped clk (channel_id h) (msg_type h) p) ps \<and>
    dispatched b = map snd (accepted b) \<and>
    outgoing st = concat (map frame_of (filter (\<lambda>m. chs = [] \<or> m_channel_id m \<in> set chs) (dispatched b))) \<and>
    (\<forall>sid a ch. SubscriberSlow sid a ch \<notin> set (printed (shared b)))"
proof -
  obtain d ds where ps: "ps = d # ds" using assms(3) by (cases ps) auto
  have "list_all (\<lambda>(_, m). acceptable m) (d # ds)" using assms(2) ps by (simp add: acceptable_def PAYLOAD_CAP_def case_prod_beta)
  from bus_relays [OF assms(1) this, of "[]"] assms(4,5) ps obtain b where
    b: "relay_at chs (concat (map (wire \<circ> snd) ps)) ps (RunPublisher (demo_stream [] []) ''p'') b"
    by auto
  have t: "map taken ps = map (\<lambda>(clk, h, p). stamped clk (channel_id h) (msg_type h) p) ps"
    "map (wire \<circ> snd) ps = map (\<lambda>(_, m). wire m) ps" by (auto simp: taken_def)
  have acc: "map snd (accepted b) = map taken ps" "handed b = length ps" using b by (auto simp: relay_at_def comp_def)
  then have d: "dispatched b = map taken ps" by (simp add: dispatched_def)
  show ?thesis
    unfolding t(1) [symmetric] t(2) [symmetric]
    using b acc d by (intro exI [of _ b] exI [of _ "demo_stream [] (relayed chs ps)"])
      (simp add: relay_at_def demo_stream_def relayed_def selects_def [abs_def] relay_lines_def)
qed

theorem bus_delivers_everything_witness:
  "\<exists>b st. bus_reach b \<and> conns b ! 0 = SubscriberIo st 0 0 ''s'' \<and>
     origin b = [wire (subscribe_msg [7]), wire demo_pub @ wire demo_pub] \<and>
     outgoing st = frame_of demo_msg @ frame_of demo_msg"
proof -
  let ?ps = "[(None, demo_pub), (None, demo_pub)]"
  have ok: "list_all (\<lambda>(_, m). framed m \<and> length (snd m) \<le> 1024) ?ps" "msg_type (fst (snd (hd ?ps))) \<noteq> 0"
    using demo_pub_framed by (simp_all add: PAYLOAD_CAP_def) (simp add: demo_pub_def)
  have t: "map (\<lambda>(clk, h, p). stamped clk (channel_id h) (msg_type h) p) ?ps = [demo_msg, demo_msg]"
    by (simp add: demo_pub_def demo_msg_def)
  have m: "m_channel_id demo_msg = 7" by (simp add: demo_msg_def stamped_def)
  have l: "length [7 :: u32] \<le> 256" "length ?ps < 2 ^ 64 - 1" "?ps \<noteq> []" by simp_all
  from bus_delivers_everything [OF l(1) ok(1) l(3) ok(2) l(2)]
  obtain b st where "bus_reach b" "conns b ! 0 = SubscriberIo st 0 0 ''s''"
    "origin b = [wire (subscribe_msg [7]), concat (map (\<lambda>(_, m). wire m) ?ps)]"
    "map snd (accepted b) = [demo_msg, demo_msg]" "dispatched b = map snd (accepted b)"
    "outgoing st = concat (map frame_of (filter (\<lambda>m. m_channel_id m = 7) (dispatched b)))"
    unfolding t by auto
  with m show ?thesis by (intro exI [of _ b] exI [of _ st]) simp
qed

end
