(* ===== verification/Market_Pipeline.thy ===== *)
theory Market_Pipeline
  imports Bus_Relay Market_Producer
begin

text \<open>
  Producer, bus and client together: what the market data producer writes to its socket is read by
  the bus, and a client that subscribes to an instrument's channel reads its price ticks.
\<close>

section \<open>The messages of the producer\<close>

lemma market_stream_parts:
  "market_stream n h ms \<Longrightarrow> m \<in> set ms \<Longrightarrow> (\<exists>k. is_tick_of k m) \<or> (\<exists>k. is_heartbeat_of k m)"
  by (induction rule: market_stream.induct) auto

lemma market_stream_length: "market_stream n h ms \<Longrightarrow> length ms = n + h"
  by (induction rule: market_stream.induct) auto

lemma market_acceptable:
  assumes "market_stream n h ms" and "list_all framed ms"
  shows "list_all (\<lambda>m. acceptable m \<and> msg_type (fst m) \<noteq> 0) ms"
proof -
  have "length (snd m) \<le> PAYLOAD_CAP \<and> msg_type (fst m) \<noteq> 0" if "m \<in> set ms" for m
    using market_stream_parts [OF assms(1) that] by (auto simp: is_tick_of_def is_heartbeat_of_def PAYLOAD_CAP_def)
  with assms(2) show ?thesis by (simp add: list_all_iff acceptable_def)
qed

text \<open>A message with an instrument's channel is one of its ticks.\<close>

definition price_tick_for :: "u32 \<Rightarrow> MsgHeader \<times> u8 list \<Rightarrow> bool" where
  "price_tick_for ch m \<longleftrightarrow> msg_type (fst m) = 1 \<and>
     (\<exists>t. price_tick_decode (snd m) = Ret (Some t) \<and> instrument_id t = ch \<and> 50 \<le> unat (volume t) \<and>
        unat (volume t) \<le> 549 \<and> is_finite (f64_from_bits (last_price t)) \<and> 0 \<le> f64_val (f64_from_bits (last_price t)))"

lemma market_tick:
  assumes "market_stream n h ms" and "m \<in> set ms" and "channel_id (fst m) = 1001 + word_of_nat k" and "k < 4"
  shows "price_tick_for (1001 + word_of_nat k) m"
proof -
  have "k = 0 \<or> k = 1 \<or> k = 2 \<or> k = 3" using assms(4) by auto
  then have "(1001 + word_of_nat k :: u32) \<noteq> 9000" by auto
  with market_stream_parts [OF assms(1,2)] assms(3) show ?thesis
    by (auto simp: is_heartbeat_of_def is_tick_of_def price_tick_for_def)
qed

section \<open>End to end\<close>

text \<open>What the bus makes of one publisher's frames.\<close>

lemma relayed_cores:
  assumes inv: "bus_inv b" and k: "k < length (conns b)" and only: "\<forall>(j, m)\<in>set (accepted b). j = k"
    and bytes: "concat (map wire ms) = origin b ! k @ unsent" and framed: "list_all framed ms"
    and sub: "subseq ds (filter (\<lambda>m. m_channel_id m = ch) (map snd (accepted b)))"
  shows "subseq (map core ds) (map core_of (filter (\<lambda>m. channel_id (fst m) = ch) ms))"
proof -
  obtain fs where "prefix fs ms" and fs: "map core (map snd (accepted b)) = map core_of fs"
    by (rule only_publisher [OF inv k only bytes framed])
  then have pre: "subseq fs ms" by (intro prefix_imp_subseq)
  have "map core (filter (\<lambda>m. m_channel_id m = ch) (map snd (accepted b))) =
      filter (\<lambda>c. fst c = ch) (map core (map snd (accepted b)))"
    by (simp only: filter_map comp_def core_def fst_conv)
  also have "\<dots> = map core_of (filter (\<lambda>m. channel_id (fst m) = ch) fs)"
    by (simp only: fs filter_map comp_def core_of_def fst_conv)
  finally show ?thesis
    using subseq_map [OF sub, of core] subseq_map [OF subseq_filter [OF pre], of core_of]
    by (simp only:) (rule subseq_order.trans)
qed

text \<open>
  C3: the market data arrives. When the producer's run has written its bytes to a connection of the bus,
  whole or in part, and nobody else publishes, a client subscribed to the channel of one of the four instruments
  decodes, with \<open>run\<close>, messages that are in order among the ticks the producer sent for that
  instrument; each decodes to a price tick of it with a volume from 50 to 549 and a finite price that is not
  negative, and no heartbeat and no other instrument's tick is among them.
\<close>

theorem client_reads_market_data:
  assumes "producer_start env dial nodelay now ts th = Inr (interval, p0)"
    and "\<And>addr s. dial addr = Inr s \<Longrightarrow> outgoing s = [] \<and> send_room s = None"
    and "list_all (\<lambda>r. pub_now r \<noteq> None \<and> heartbeat_now r \<noteq> None) rs" and "length rs \<le> 2 ^ 50"
    and "producer_run checks interval rs p0 = Ret (ev, p)"
    and "bus_reach b" and "bus_small b" and "k < length (conns b)"
    and "outgoing (stream (bus_pub p)) = origin b ! k @ unsent" and "\<forall>(j, m)\<in>set (accepted b). j = k"
    and "i < length (conns b)" and "conns b ! i = SubscriberIo st rx sid peer"
    and "origin b ! i = wire (subscribe_msg [1001 + word_of_nat n]) @ later" and "n < 4"
  shows "\<exists>ms got. outgoing (stream (bus_pub p)) = concat (map wire ms) \<and>
    market_stream (length rs) (unat (heartbeat_seq p)) ms \<and>
    run (\<lambda>h p e. Ret (True, e @ [(h, p)])) [] \<lparr>reader = \<lparr>incoming = outgoing st, outgoing = [], send_room = None\<rparr>\<rparr> =
      Ret (Inl UnexpectedEof, got, \<lparr>reader = \<lparr>incoming = [], outgoing = [], send_room = None\<rparr>\<rparr>) \<and>
    subseq (map core_of got) (map core_of (filter (\<lambda>m. channel_id (fst m) = 1001 + word_of_nat n) ms)) \<and>
    list_all (price_tick_for (1001 + word_of_nat n)) got"
proof -
  let ?ch = "1001 + word_of_nat n :: u32"
  note inv = bus_reach_inv [OF assms(6,7)]
  have "producer_inv 0 [] p0" using assms(1,2) by (rule producer_start_inv)
  from producer_runs [OF this, where rs = rs and checks = checks and interval = interval] assms(3-5)
  obtain ms where "producer_inv (length rs) ms p" by auto
  then have ms: "outgoing (stream (bus_pub p)) = concat (map wire ms)" "list_all framed ms"
    "market_stream (length rs) (unat (heartbeat_seq p)) ms" by (simp_all add: producer_inv_def)
  obtain e ds where e: "map_of (registry (shared b)) sid = Some e"
    and out: "outgoing st = concat (map wire (map (\<lambda>m. (msg_header m, m_payload m)) ds))"
    and framed: "list_all framed (map (\<lambda>m. (msg_header m, m_payload m)) ds)"
    and sub: "subseq ds (filter (\<lambda>m. matches e (m_channel_id m)) (map snd (accepted b)))"
    by (rule subscriber_stream [OF assms(6,7,11,12)])
  have "asked (origin b ! i) [?ch]" "conn_sid (conns b ! i) = Some sid" using assms(12,13) by (auto simp: asked_def)
  with subscriptions_reach [OF assms(6,7)] assms(11) e have "entry_for [?ch] e"
    by (fastforce simp: subscriptions_ok_def)
  then have "matches e ch \<longleftrightarrow> ch = ?ch" for ch by (auto simp: entry_for_def matches_def)
  with sub have "subseq ds (filter (\<lambda>m. m_channel_id m = ?ch) (map snd (accepted b)))" by simp
  from relayed_cores [OF inv assms(8,10) _ ms(2) this] assms(9) ms(1)
  have cores: "subseq (map core ds) (map core_of (filter (\<lambda>m. channel_id (fst m) = ?ch) ms))" by simp
  let ?got = "map (\<lambda>m. (msg_header m, m_payload m)) ds"
  have "price_tick_for ?ch g" if "g \<in> set ?got" for g
  proof -
    have "core_of g \<in> set (map core_of ?got)" using that by (simp only: set_map [of core_of]) (rule imageI)
    then have "core_of g \<in> set (map core ds)" by (simp only: core_of_message)
    then have "core_of g \<in> set (map core_of (filter (\<lambda>m. channel_id (fst m) = ?ch) ms))"
      using list_emb_set [OF cores] by blast
    then obtain m where m: "m \<in> set ms" "channel_id (fst m) = ?ch" "core_of g = core_of m" by auto
    with market_tick [OF ms(3) m(1,2) assms(14)] show ?thesis by (simp add: price_tick_for_def core_of_def)
  qed
  then have "list_all (price_tick_for ?ch) ?got" by (simp only: list_all_iff) blast
  with run_collects [OF framed, of "\<lparr>incoming = outgoing st, outgoing = [], send_room = None\<rparr>"] out cores ms show ?thesis
    by (intro exI [of _ ms] exI [of _ ?got]) (simp only: core_of_message, simp)
qed

text \<open>Two turns of the producer, relayed to a subscriber of the first instrument.\<close>

lemma market_relayed:
  assumes "producer_inv n ms p" and "ms \<noteq> []" and "length ms < 2 ^ 64 - 1"
  obtains b where "relay_at [1001] (outgoing (stream (bus_pub p))) (map (Pair None) ms) (RunPublisher (demo_stream [] []) ''p'') b"
proof -
  have ms: "outgoing (stream (bus_pub p)) = concat (map wire ms)"
    "list_all (\<lambda>m. acceptable m \<and> msg_type (fst m) \<noteq> 0) ms"
    using assms(1) market_acceptable [of n "unat (heartbeat_seq p)" ms] by (simp_all add: producer_inv_def)
  obtain m ms' where cons: "ms = m # ms'" using assms(2) by (cases ms) auto
  have "list_all (\<lambda>(_, m). acceptable m) ((None :: clock, m) # map (Pair None) ms')"
    using ms(2) cons by (auto simp: list_all_iff)
  from bus_relays [OF _ this, of "[1001]" "[]"] assms(3) ms cons show thesis
    by (auto simp: comp_def intro: that)
qed

theorem client_reads_market_data_witness:
  "\<exists>b p0 ev p st got. bus_reach b \<and>
     producer_start (\<lambda>_. None) (\<lambda>_. Inr \<lparr>incoming = [], outgoing = [], send_room = None\<rparr>) (\<lambda>_. Inr ())
       (Some 5) 0 0 = Inr (10000000, p0) \<and>
     producer_run True 10000000 [demo_reading, demo_reading] p0 = Ret (ev, p) \<and>
     origin b = [wire (subscribe_msg [1001]), outgoing (stream (bus_pub p))] \<and> 2 \<le> length (accepted b) \<and>
     conns b ! 0 = SubscriberIo st 0 0 ''s'' \<and>
     run (\<lambda>h p e. Ret (True, e @ [(h, p)])) [] \<lparr>reader = \<lparr>incoming = outgoing st, outgoing = [], send_room = None\<rparr>\<rparr> =
       Ret (Inl UnexpectedEof, got, \<lparr>reader = \<lparr>incoming = [], outgoing = [], send_room = None\<rparr>\<rparr>) \<and>
     list_all (price_tick_for 1001) got"
proof -
  let ?dial = "\<lambda>_. Inr \<lparr>incoming = [], outgoing = [], send_room = None\<rparr>" and ?rs = "[demo_reading, demo_reading]"
  obtain p0 where p0: "producer_start (\<lambda>_. None) ?dial (\<lambda>_. Inr ()) (Some 5) 0 0 = Inr (10000000, p0)"
    by (rule demo_start)
  have dial: "\<And>addr s. ?dial addr = Inr s \<Longrightarrow> outgoing s = [] \<and> send_room s = None" by auto
  have rs: "list_all (\<lambda>r. pub_now r \<noteq> None \<and> heartbeat_now r \<noteq> None) ?rs" "length ?rs \<le> 2 ^ 50" "length ?rs = 2"
    by (simp_all add: demo_reading_def)
  have "producer_inv 0 [] p0" using p0 dial by (rule producer_start_inv)
  moreover have "0 + length ?rs \<le> 2 ^ 50" by simp
  ultimately obtain ev ms p where run: "producer_run True 10000000 ?rs p0 = Ret (ev, p)"
    and "producer_inv (0 + length ?rs) ms p"
    using producer_runs [OF _ _ rs(1), of 0 "[]" p0 True 10000000] by blast
  then have inv: "producer_inv 2 ms p" by (simp add: numeral_2_eq_2)
  have "length ms = 2 + unat (heartbeat_seq p)" "unat (heartbeat_seq p) \<le> 2"
    using inv market_stream_length [of 2 _ ms] by (simp_all add: producer_inv_def)
  then have ms: "ms \<noteq> []" "length ms < 2 ^ 64 - 1" "2 \<le> length ms" by auto
  from market_relayed [OF inv ms(1,2)] obtain b where
    b: "relay_at [1001] (outgoing (stream (bus_pub p))) (map (Pair None) ms) (RunPublisher (demo_stream [] []) ''p'') b"
    by blast
  let ?st = "demo_stream [] (relayed [1001] (map (Pair None) ms))"
  have b': "bus_reach b" "1 < length (conns b)" "0 < length (conns b)" "conns b ! 0 = SubscriberIo ?st 0 0 ''s''"
    "origin b = [wire (subscribe_msg [1001]), outgoing (stream (bus_pub p))]" "\<forall>(j, m)\<in>set (accepted b). j = 1"
    "2 \<le> length (accepted b)"
    using b ms(3) by (auto simp: relay_at_def)
  have "bus_small b" using relay_inv(1) [OF b] ms(2) by simp
  have o: "outgoing (stream (bus_pub p)) = origin b ! 1 @ []"
    "origin b ! 0 = wire (subscribe_msg [1001 + word_of_nat 0]) @ []" using b'(5) by simp_all
  from client_reads_market_data [OF p0 dial rs(1,2) run b'(1) \<open>bus_small b\<close> b'(2) o(1) b'(6) b'(3,4) o(2)]
  obtain got where "run (\<lambda>h p e. Ret (True, e @ [(h, p)])) [] \<lparr>reader = \<lparr>incoming = outgoing ?st, outgoing = [], send_room = None\<rparr>\<rparr> =
       Ret (Inl UnexpectedEof, got, \<lparr>reader = \<lparr>incoming = [], outgoing = [], send_room = None\<rparr>\<rparr>)"
    "list_all (price_tick_for 1001) got" by auto
  with p0 run b' show ?thesis by blast
qed

end
