(* ===== verification/Bus_Fine.thy ===== *)
theory Bus_Fine
  imports Bus_Props Ring_Weak_Safety
begin

text \<open>
  The bus with its threads interleaved inside the ring's methods: \<open>publish\<close> under the publish lock and the
  dispatcher's \<open>consume_one\<close> take the single accesses of \<open>Ring_Weak\<close>, under release/acquire, and
  everything else may happen in between. What it does, \<open>Bus_System\<close>, with one turn of a loop a step, does as
  well; so the properties of every reachable state of \<open>Bus_System\<close> hold of it.
\<close>

section \<open>State and steps\<close>

text \<open>
  The shared memory with the place of the publication and of the dispatcher in it; the connection whose thread holds the publish
  lock; and the rest of the bus as before. The dispatcher is consumer 0.
\<close>

record FineBus =
  mem :: Weak
  holder :: "nat option"
  f_shared :: Shared
  f_conns :: "Conn list"
  f_accepted :: "(nat \<times> Msg) list"
  f_joined :: "nat list"
  f_origin :: "u8 list list"

definition fine_start :: "FineBus outcome" where
  "fine_start =
     (case register_consumer ring_new of
        (Inl _, r) \<Rightarrow> Panic
      | (Inr _, r) \<Rightarrow>
          Ret \<lparr>mem = weak_init log_new r, holder = None, f_shared = \<lparr>registry = [], chans = [], sub_id = 0, printed = []\<rparr>,
               f_conns = [], f_accepted = [], f_joined = [], f_origin = []\<rparr>)"

inductive fine_step :: "FineBus \<Rightarrow> FineBus \<Rightarrow> bool" where
  f_accept: "outgoing st = [] \<Longrightarrow>
    fine_step f (f\<lparr>f_conns := f_conns f @ [Handshake st peer], f_origin := f_origin f @ [incoming st]\<rparr>)"
| f_handshake: "i < length (f_conns f) \<Longrightarrow> f_conns f ! i = Handshake st peer \<Longrightarrow>
    handle_connection st peer (f_shared f) = Ret (c, s) \<Longrightarrow>
    fine_step f (f\<lparr>f_shared := s, f_conns := (f_conns f)[i := c],
      f_joined := f_joined f @ replicate (length (chans s) - length (chans (f_shared f))) (length (got (mem f) 0))\<rparr>)"
| f_read: "i < length (f_conns f) \<Longrightarrow> f_conns f ! i = RunPublisher st peer \<Longrightarrow>
    publisher_read st peer (f_shared f) = Ret (c, s) \<Longrightarrow>
    fine_step f (f\<lparr>f_shared := s, f_conns := (f_conns f)[i := c]\<rparr>)"
| f_send: "i < length (f_conns f) \<Longrightarrow> f_conns f ! i = SubscriberIo st rx sid peer \<Longrightarrow>
    subscriber_io_iter st rx sid peer (f_shared f) = Some (c, s) \<Longrightarrow>
    fine_step f (f\<lparr>f_shared := s, f_conns := (f_conns f)[i := c]\<rparr>)"
| f_leave: "i < length (f_conns f) \<Longrightarrow> f_conns f ! i = SubscriberLeaving st sid peer \<Longrightarrow>
    fine_step f (f\<lparr>f_shared := subscriber_leave sid (f_shared f), f_conns := (f_conns f)[i := Closed st]\<rparr>)"
| f_too_large: "holder f = None \<Longrightarrow> i < length (f_conns f) \<Longrightarrow> f_conns f ! i = PublishOne h p st peer \<Longrightarrow>
    length p > PAYLOAD_CAP \<Longrightarrow>
    fine_step f (f\<lparr>f_shared := print (PublishTooLarge peer) (f_shared f), f_conns := (f_conns f)[i := RunPublisher st peer]\<rparr>)"
| f_lock: "holder f = None \<Longrightarrow> i < length (f_conns f) \<Longrightarrow> f_conns f ! i = PublishOne h p st peer \<Longrightarrow>
    weak_step (mem f) w \<Longrightarrow> ppc (mem f) = PIdle \<Longrightarrow>
    ppc w = PScan (producer_seq (ring (mem f))) 0 U64_MAX (pub_args clk (channel_id h) (msg_type h) p) \<Longrightarrow>
    fine_step f (f\<lparr>mem := w, holder := Some i\<rparr>)"
| f_inside: "weak_step (mem f) w \<Longrightarrow> committed w = committed (mem f) \<Longrightarrow> got w = got (mem f) \<Longrightarrow>
    (\<forall>c. c \<noteq> 0 \<longrightarrow> cpcs w c = cpcs (mem f) c) \<Longrightarrow> (ppc w = PIdle \<longleftrightarrow> ppc (mem f) = PIdle) \<Longrightarrow>
    (cpcs w 0 = CIdle \<longrightarrow> cpcs (mem f) 0 = CIdle \<or> (\<exists>x. cpcs (mem f) 0 = CDone x)) \<Longrightarrow>
    fine_step f (f\<lparr>mem := w\<rparr>)"
| f_commit: "weak_step (mem f) w \<Longrightarrow> ppc (mem f) = PWrite x q [] \<Longrightarrow> ppc w = PHead x \<Longrightarrow> holder f = Some i \<Longrightarrow>
    fine_step f (f\<lparr>mem := w, f_accepted := f_accepted f @ [(i, args_msg q)]\<rparr>)"
| f_return: "weak_step (mem f) w \<Longrightarrow> ppc (mem f) = PHead x \<Longrightarrow> ppc w = PIdle \<Longrightarrow> holder f = Some i \<Longrightarrow>
    f_conns f ! i = PublishOne h p st peer \<Longrightarrow>
    fine_step f (f\<lparr>mem := w, holder := None, f_conns := (f_conns f)[i := RunPublisher st peer]\<rparr>)"
| f_refused: "weak_step (mem f) w \<Longrightarrow> ppc (mem f) = PScan x k m q \<Longrightarrow> ppc w = PIdle \<Longrightarrow>
    fine_step f (f\<lparr>mem := w, holder := None\<rparr>)"
| f_callback: "weak_step (mem f) w \<Longrightarrow> cpcs (mem f) 0 = CReading x [] d \<Longrightarrow> cpcs w 0 = CDone x \<Longrightarrow>
    dispatch_msg d (f_shared f) = Ret s \<Longrightarrow>
    fine_step f (f\<lparr>mem := w, f_shared := s\<rparr>)"
| f_fell: "cpcs (mem f) 0 = CFell \<Longrightarrow>
    fine_step f (f\<lparr>mem := (mem f)\<lparr>cpcs := (cpcs (mem f))(0 := CIdle)\<rparr>, f_shared := print DispatchFellBehind (f_shared f)\<rparr>)"

inductive fine_reach :: "FineBus \<Rightarrow> bool" where
  f_start: "fine_start = Ret f \<Longrightarrow> fine_reach f"
| f_step: "fine_reach f \<Longrightarrow> fine_step f f' \<Longrightarrow> fine_reach f'"

definition fine_small :: "FineBus \<Rightarrow> bool" where
  "fine_small f \<longleftrightarrow> length (f_accepted f) < 2 ^ 64 - 1 \<and> length (chans (f_shared f)) < 2 ^ 64"

section \<open>The bus it refines\<close>

text \<open>
  A publication takes effect at the Release store of the stamp: a thread past it, which still holds the lock,
  counts as returned. A consumption takes effect when the callback runs.
\<close>

definition settled_conns :: "FineBus \<Rightarrow> Conn list" where
  "settled_conns f =
     (case (ppc (mem f), holder f) of
        (PHead _, Some i) \<Rightarrow>
          (case f_conns f ! i of
             PublishOne h p st peer \<Rightarrow> (f_conns f)[i := RunPublisher st peer]
           | _ \<Rightarrow> f_conns f)
      | _ \<Rightarrow> f_conns f)"

definition coarse :: "FineBus \<Rightarrow> Ring \<Rightarrow> Bus" where
  "coarse f r = \<lparr>bus_ring = r, shared = f_shared f, dispatcher = 0, conns = settled_conns f,
     accepted = f_accepted f, joined = f_joined f, origin = f_origin f\<rparr>"

fun args_of :: "ProdPc \<Rightarrow> PubArgs option" where
  "args_of PIdle = None"
| "args_of (PScan x i m q) = Some q"
| "args_of (PWrite x q todo) = Some q"
| "args_of (PHead x) = None"

text \<open>The lock is held exactly during a publication, by a thread that publishes its message.\<close>

definition holds :: "FineBus \<Rightarrow> bool" where
  "holds f \<longleftrightarrow> (\<exists>i h p st peer clk. holder f = Some i \<and> i < length (f_conns f) \<and> f_conns f ! i = PublishOne h p st peer \<and>
     (\<forall>q. args_of (ppc (mem f)) = Some q \<longrightarrow> q = pub_args clk (channel_id h) (msg_type h) p))"

definition lock_ok :: "FineBus \<Rightarrow> bool" where
  "lock_ok f \<longleftrightarrow> (if ppc (mem f) = PIdle then holder f = None else holds f)"

definition fine_starts :: "nat \<Rightarrow> nat" where
  "fine_starts = start_positions (snd (register_consumer ring_new))"

definition fine_sim :: "FineBus \<Rightarrow> Ring \<Rightarrow> bool" where
  "fine_sim f r \<longleftrightarrow> weak_inv fine_starts (mem f) \<and> consumers (ring (mem f)) ! 0 \<noteq> CONSUMER_FREE \<and> lock_ok f \<and>
     map snd (f_accepted f) = committed (mem f) \<and>
     bus_reach (coarse f r) \<and> handed (coarse f r) = length (got (mem f) 0)"

lemma fine_simD:
  assumes "fine_sim f r"
  shows "weak_inv fine_starts (mem f)" "consumers (ring (mem f)) ! 0 \<noteq> CONSUMER_FREE" "lock_ok f"
    "map snd (f_accepted f) = committed (mem f)" "bus_reach (coarse f r)" "handed (coarse f r) = length (got (mem f) 0)"
  using assms by (simp_all add: fine_sim_def)

lemma fine_committed: "fine_sim f r \<Longrightarrow> length (committed (mem f)) = length (f_accepted f)"
  using arg_cong [OF fine_simD(4), of f r length] by simp

lemma coarse_simps [simp]:
  "bus_ring (coarse f r) = r" "shared (coarse f r) = f_shared f" "dispatcher (coarse f r) = 0"
  "conns (coarse f r) = settled_conns f" "accepted (coarse f r) = f_accepted f"
  "joined (coarse f r) = f_joined f" "origin (coarse f r) = f_origin f"
  by (simp_all add: coarse_def)

text \<open>Connections that are not the holder's are as they are; and so are all before the stamp is stored.\<close>

lemma settled_length [simp]: "length (settled_conns f) = length (f_conns f)"
  by (simp add: settled_conns_def split: ProdPc.splits option.splits Conn.splits)

lemma settled_cong:
  "ppc (mem f') = ppc (mem f) \<Longrightarrow> holder f' = holder f \<Longrightarrow> f_conns f' = f_conns f \<Longrightarrow> settled_conns f' = settled_conns f"
  unfolding settled_conns_def by (simp only:)

lemma lock_cong:
  "ppc (mem f') = ppc (mem f) \<Longrightarrow> holder f' = holder f \<Longrightarrow> f_conns f' = f_conns f \<Longrightarrow> lock_ok f' = lock_ok f"
  unfolding lock_ok_def holds_def by (simp only:)

lemma settled_before: "ppc (mem f) = PIdle \<or> args_of (ppc (mem f)) \<noteq> None \<Longrightarrow> settled_conns f = f_conns f"
  by (cases "ppc (mem f)") (simp_all add: settled_conns_def)

lemma settled_after:
  "ppc (mem f) = PHead x \<Longrightarrow> holder f = Some i \<Longrightarrow> f_conns f ! i = PublishOne h p st peer \<Longrightarrow>
   settled_conns f = (f_conns f)[i := RunPublisher st peer]"
  by (simp add: settled_conns_def)

lemma lock_cases:
  assumes "lock_ok f"
  obtains (free) "ppc (mem f) = PIdle" "holder f = None" "settled_conns f = f_conns f"
  | (before) i h p st peer clk q where "holder f = Some i" "i < length (f_conns f)" "f_conns f ! i = PublishOne h p st peer"
      "args_of (ppc (mem f)) = Some q" "q = pub_args clk (channel_id h) (msg_type h) p" "settled_conns f = f_conns f"
  | (after) i h p st peer x where "holder f = Some i" "i < length (f_conns f)" "f_conns f ! i = PublishOne h p st peer"
      "ppc (mem f) = PHead x" "settled_conns f = (f_conns f)[i := RunPublisher st peer]"
proof (cases "ppc (mem f)")
  case PIdle
  with assms settled_before free show thesis by (simp add: lock_ok_def)
next
  case (PHead x)
  with assms settled_after after show thesis by (fastforce simp: lock_ok_def holds_def)
qed (use assms settled_before before in \<open>fastforce simp: lock_ok_def holds_def\<close>)+

section \<open>Steps inside the ring\<close>

lemma fine_starts_0: "fine_starts 0 = 0"
  using register_new by (simp add: fine_starts_def start_positions_def MAX_CONSUMERS_def)

text \<open>The dispatcher's callback has been given as many messages as its cursor says.\<close>

lemma got_length:
  assumes "weak_inv fine_starts w" and "consumers (ring w) ! 0 \<noteq> CONSUMER_FREE"
  shows "length (got w 0) = seen (consumers (ring w) ! 0) (cpcs w 0)" and "length (got w 0) \<le> length (committed w)"
proof -
  note inv = weak_invD(1) [OF assms(1)]
  have z: "0 < MAX_CONSUMERS" by (simp add: MAX_CONSUMERS_def)
  have same: "seen c (sc_cpc pc) = seen c pc" for c pc by (cases pc) simp_all
  have "got_ok (committed w) 0 (seen (consumers (ring w) ! 0) (cpcs w 0)) (got w 0)"
    using conc_invD(7) [OF inv z] assms(2) by (simp add: same fine_starts_0)
  moreover have "seen (consumers (ring w) ! 0) (cpcs w 0) \<le> length (committed w)"
    using seen_le [OF inv z] assms(2) by (simp add: same)
  ultimately show "length (got w 0) = seen (consumers (ring w) ! 0) (cpcs w 0)" "length (got w 0) \<le> length (committed w)"
    by (simp_all add: got_ok_def)
qed

text \<open>A registered consumer stays registered.\<close>

lemma weak_registered:
  assumes "weak_step w w'" and inv: "weak_inv st w" and n: "length (committed w) < 2 ^ 64 - 1"
    and "consumers (ring w) ! c \<noteq> CONSUMER_FREE"
  shows "consumers (ring w') ! c \<noteq> CONSUMER_FREE"
  using assms(1)
proof cases
  case (a_store cid x)
  have "unat x < length (committed w)"
    using conc_invD(6) [OF weak_invD(1) [OF inv], of cid] a_store(2) by simp
  with n have "unat (x + 1) < 2 ^ 64 - 1" by (simp add: u64_add_one)
  then have "x + 1 \<noteq> CONSUMER_FREE" unfolding CONSUMER_FREE_def using unat_U64_MAX by (metis less_irrefl)
  with a_store(1) assms(4) show ?thesis
    by (cases "cid < length (consumers (ring w))"; cases "c = cid") (simp_all add: access_defs list_update_beyond)
qed (use assms(4) in \<open>simp_all add: access_defs\<close>)

text \<open>The steps inside a call keep its arguments; the stamp is stored by a commit alone.\<close>

lemma inside_args:
  assumes "weak_step w w'" and "committed w' = committed w" and "ppc w' = PIdle \<longleftrightarrow> ppc w = PIdle"
  shows "args_of (ppc w') = args_of (ppc w)" and "ppc w' = PHead x \<longleftrightarrow> ppc w = PHead x"
  using assms by (cases; auto simp: access_defs)+

lemma inside_settled:
  assumes "\<And>x. ppc w = PHead x \<longleftrightarrow> ppc (mem f) = PHead x"
  shows "settled_conns (f\<lparr>mem := w\<rparr>) = settled_conns f"
  using assms by (cases "ppc (mem f)"; cases "ppc w") (auto simp: settled_conns_def split: option.splits Conn.splits)

lemma commit_effect:
  assumes "weak_step w w'" and "ppc w = PWrite x q []" and "ppc w' = PHead x"
  shows "committed w' = committed w @ [args_msg q]" and "got w' = got w"
  using assms by (cases; auto simp: access_defs)+

lemma callback_effect:
  assumes "weak_step w w'" and "cpcs w 0 = CReading x [] d" and "cpcs w' 0 = CDone x"
  shows "committed w' = committed w" and "got w' = (got w)(0 := got w 0 @ [msg_of_data d])" and "ppc w' = ppc w"
proof -
  have "committed w' = committed w \<and> got w' = (got w)(0 := got w 0 @ [msg_of_data d]) \<and> ppc w' = ppc w"
    using assms(1)
  proof cases
    case (a_call cid y acc)
    moreover from this have "cid = 0" using assms(2,3) by (cases "cid = 0") simp_all
    ultimately show ?thesis using assms(2) by simp
  qed (use assms(2,3) in \<open>auto simp: access_defs fun_upd_apply split: if_splits\<close>)
  then show "committed w' = committed w" "got w' = (got w)(0 := got w 0 @ [msg_of_data d])" "ppc w' = ppc w" by simp_all
qed

lemma leave_effect:
  assumes "weak_step w w'" and "ppc w' = PIdle" and "ppc w \<noteq> PIdle"
  shows "committed w' = committed w" and "got w' = got w"
  using assms by (cases; auto simp: access_defs)+

lemma enter_effect:
  assumes "weak_step w w'" and "ppc w = PIdle" and "ppc w' = PScan x 0 m q"
  shows "committed w' = committed w" and "got w' = got w"
  using assms by (cases; auto simp: access_defs)+

section \<open>The simulation\<close>

text \<open>Steps in the memory that the coarse bus does not see.\<close>

lemma sim_mem:
  assumes sim: "fine_sim f r" and w: "weak_step (mem f) w" and n: "length (committed w) < 2 ^ 64 - 1"
    and "lock_ok f'" and "mem f' = w" and "f_accepted f' = f_accepted f" and "coarse f' r = coarse f r"
    and "committed w = committed (mem f)" and "got w = got (mem f)"
  shows "fine_sim f' r"
  using fine_simD [OF sim] assms(3-) weak_step_inv [OF w] weak_registered [OF w] by (simp add: fine_sim_def)

text \<open>A step of the coarse bus that leaves the memory.\<close>

lemma sim_bus:
  assumes sim: "fine_sim f r" and "bus_step (coarse f r) (coarse f' r)"
    and "lock_ok f'" and "mem f' = mem f" and "f_accepted f' = f_accepted f"
  shows "fine_sim f' r"
proof -
  have "handed (coarse f' r) = handed (coarse f r)" by (simp add: handed_def)
  with fine_simD [OF sim] assms(2-) bus_reach.step [OF _ assms(2)] show ?thesis by (simp add: fine_sim_def)
qed

text \<open>A connection other than the holder's takes a step.\<close>

lemma other_conn:
  assumes "lock_ok f" and i: "i < length (f_conns f)" and not: "\<And>h p st peer. f_conns f ! i \<noteq> PublishOne h p st peer"
    and f': "mem f' = mem f" "holder f' = holder f" "f_conns f' = (f_conns f)[i := c]"
  shows "lock_ok f'" and "settled_conns f ! i = f_conns f ! i" and "settled_conns f' = (settled_conns f)[i := c]"
proof -
  have "lock_ok f' \<and> settled_conns f ! i = f_conns f ! i \<and> settled_conns f' = (settled_conns f)[i := c]"
    using assms(1)
  proof (cases rule: lock_cases)
    case free
    then show ?thesis using f' settled_before [of f'] by (simp add: lock_ok_def)
  next
    case (before j h p st peer clk q)
    then have "j \<noteq> i" using not by auto
    with before f' i settled_before [of f'] show ?thesis by (cases "ppc (mem f)") (auto simp: lock_ok_def holds_def)
  next
    case (after j h p st peer x)
    then have ij: "j \<noteq> i" using not by auto
    then have "settled_conns f' = (f_conns f')[j := RunPublisher st peer]"
      using after f' settled_after [of f' x j h p st peer] by simp
    with after f' i ij show ?thesis by (auto simp: lock_ok_def holds_def list_update_swap)
  qed
  then show "lock_ok f'" "settled_conns f ! i = f_conns f ! i" "settled_conns f' = (settled_conns f)[i := c]" by simp_all
qed

lemma settled_other:
  assumes "fine_sim f r" and "i < length (f_conns f)" and "\<And>h p st peer. f_conns f ! i \<noteq> PublishOne h p st peer"
  shows "settled_conns f ! i = f_conns f ! i"
  by (rule other_conn(2) [OF fine_simD(3) [OF assms(1)] assms(2,3), where f' = "f\<lparr>f_conns := (f_conns f)[i := c]\<rparr>" for c])
    simp_all

lemma sim_accept_conn:
  assumes sim: "fine_sim f r" and "outgoing st = []"
  shows "fine_sim (f\<lparr>f_conns := f_conns f @ [Handshake st peer], f_origin := f_origin f @ [incoming st]\<rparr>) r"
    (is "fine_sim ?f r")
proof (rule sim_bus [OF sim])
  have "lock_ok ?f \<and> settled_conns ?f = settled_conns f @ [Handshake st peer]"
    using fine_simD(3) [OF sim]
  proof (cases rule: lock_cases)
    case free
    then show ?thesis using settled_before [of ?f] by (simp add: lock_ok_def)
  next
    case (before j h p st' peer' clk q)
    then show ?thesis
      using settled_before [of ?f] by (cases "ppc (mem f)") (auto simp: lock_ok_def holds_def nth_append)
  next
    case (after j h p st' peer' x)
    then show ?thesis
      using settled_after [of ?f x j h p st' peer'] by (auto simp: lock_ok_def holds_def nth_append list_update_append)
  qed
  then show "lock_ok ?f" and "bus_step (coarse f r) (coarse ?f r)"
    using bus_step.accept [OF assms(2), of "coarse f r" peer] by (simp_all add: coarse_def)
qed simp_all

lemma fine_inv:
  assumes "fine_sim f r" and "fine_small f"
  shows "bus_inv (coarse f r)" and "length (committed (mem f)) < 2 ^ 64 - 1"
  using bus_reach_inv [OF fine_simD(5) [OF assms(1)]] assms(2) fine_committed [OF assms(1)]
  by (simp_all add: fine_small_def bus_small_def)

text \<open>The Release store of the stamp is the publication of the coarse bus.\<close>

lemma sim_commit:
  assumes sim: "fine_sim f r" and small: "fine_small (f\<lparr>mem := w, f_accepted := f_accepted f @ [(i, args_msg q)]\<rparr>)"
    and w: "weak_step (mem f) w" and pc: "ppc (mem f) = PWrite x q []" "ppc w = PHead x" and i: "holder f = Some i"
  shows "\<exists>r'. fine_sim (f\<lparr>mem := w, f_accepted := f_accepted f @ [(i, args_msg q)]\<rparr>) r'" (is "\<exists>r'. fine_sim ?f r'")
proof -
  let ?b = "coarse f r"
  note d = fine_simD [OF sim]
  have n: "fine_small f" "Suc (length (f_accepted f)) < 2 ^ 64 - 1" using small by (simp_all add: fine_small_def)
  note inv = fine_inv [OF sim n(1)]
  obtain h p st peer clk where c: "i < length (f_conns f)" "f_conns f ! i = PublishOne h p st peer"
    "q = pub_args clk (channel_id h) (msg_type h) p"
    using d(3) pc(1) i by (auto simp: lock_ok_def holds_def)
  let ?m = "stamped clk (channel_id h) (msg_type h) p"
  have m: "args_msg q = ?m" by (simp add: c(3) args_msg_def pub_args_def)
  have k: "length p \<le> PAYLOAD_CAP" "room (length (f_accepted f)) (consumers (ring (mem f)))"
    using conc_invD(5) [OF weak_invD(1) [OF d(1)]] pc(1) c(3) fine_committed [OF sim] by (simp_all add: pub_args_def)
  have "0 < length (consumers (ring (mem f)))" using weak_shape(2) [OF d(1)] by (simp add: MAX_CONSUMERS_def)
  with k(2) d(2) have "length (f_accepted f) < unat (consumers (ring (mem f)) ! 0) + RING_SIZE" by (auto simp: room_def)
  also have "\<dots> \<le> handed ?b + RING_SIZE" using got_length(1) [OF d(1,2)] d(6) by (simp add: seen_def)
  finally have "\<not> lagging (bus_log ?b)" by (auto simp: lagging_iff bus_log_def in_set_conv_nth nth_list_update split: if_splits)
  then have pub: "log_publish (bus_log ?b) ?m = (Inr (), (bus_log ?b)\<lparr>msgs := msgs (bus_log ?b) @ [?m]\<rparr>)"
    using k(1) by (simp add: log_publish_def stamped_def)
  have rel: "ring_rel (bus_log ?b) r" using bus_invD(1) [OF inv(1)] by (simp add: ring_ok_def)
  obtain r' where r': "publish r clk (channel_id h) (msg_type h) p = (Inr (), r')"
    using publish_sim [OF rel, of clk "channel_id h" "msg_type h" p] pub n(2)
    by (cases "publish r clk (channel_id h) (msg_type h) p") (auto simp: bus_log_def)
  have before: "settled_conns f = f_conns f" using pc(1) settled_before by simp
  have after: "settled_conns ?f = (f_conns f)[i := RunPublisher st peer]"
    using settled_after [of ?f x i h p st peer] pc(2) i c(2) by simp
  have "bus_step ?b (coarse ?f r')"
    using bus_step.publish [of i ?b h p st peer clk "RunPublisher st peer" r' "f_shared f"] c(1,2) before after r'
    by (simp add: publish_attempt_def coarse_def set_conn_def m)
  then have reach: "bus_reach (coarse ?f r')" by (rule bus_reach.step [OF d(5)])
  have "handed (coarse ?f r') = handed ?b"
    using publish_consumers [of r clk "channel_id h" "msg_type h" p] r' by (simp add: handed_def)
  moreover have "holds ?f" using c(1,2) i pc(2) by (auto simp: holds_def)
  moreover have "weak_inv fine_starts w"
    by (rule weak_step_inv [OF w d(1)]) (use commit_effect(1) [OF w pc] fine_committed [OF sim] n(2) in simp)
  ultimately show ?thesis
    using d reach commit_effect [OF w pc] weak_registered [OF w d(1) inv(2) d(2)] pc(2)
    by (intro exI [of _ r']) (simp add: fine_sim_def lock_ok_def)
qed

text \<open>The run of the callback is the turn of its dispatch loop.\<close>

lemma sim_callback:
  assumes sim: "fine_sim f r" and small: "fine_small f"
    and w: "weak_step (mem f) w" and pc: "cpcs (mem f) 0 = CReading x [] d" "cpcs w 0 = CDone x"
    and s: "dispatch_msg d (f_shared f) = Ret s"
  shows "\<exists>r'. fine_sim (f\<lparr>mem := w, f_shared := s\<rparr>) r'" (is "\<exists>r'. fine_sim ?f r'")
proof -
  let ?b = "coarse f r" and ?k = "length (got (mem f) 0)"
  note D = fine_simD [OF sim] and eff = callback_effect [OF w pc] and inv = fine_inv [OF sim small]
  note sc = weak_invD(1) [OF D(1)]
  have x: "consumers (ring (mem f)) ! 0 = x" "unat x < length (committed (mem f))"
    "\<forall>g. field_eq g (data (slots (ring (mem f)) ! (unat x mod RING_SIZE))) d"
    using conc_invD(6) [OF sc, of 0] pc(1) by (simp_all add: reading_ok_def)
  have k: "?k = unat x" using got_length(1) [OF D(1,2)] x(1) pc(1) by simp
  have "d = data (slots (ring (mem f)) ! (unat x mod RING_SIZE))" by (rule all_fields_eq [OF x(3)])
  then have d: "data_ok d" using ring_shapeD(3) [OF conc_invD(1) [OF sc]] by simp
  have m: "msg_of_data d = snd (f_accepted f ! ?k)"
    using inv_c_call(2) [OF sc, of 0 x d] pc(1) D(4) x(2) fine_committed [OF sim] k
    by (metis nth_map sc_cpc.simps(3) sc_view_simps(3,4))
  let ?m = "snd (f_accepted f ! ?k)"
  have sh: "shared_ok (f_shared f)" using bus_invD(2) [OF inv(1)] by simp
  have s': "s = offered (frame_of ?m) (m_channel_id ?m) (registry (f_shared f)) (f_shared f)"
    using s dispatch_msg_ok [OF d, of "f_shared f"] fold_fan_out [of "registry (f_shared f)" "f_shared f"]
      shared_ok_registry_ok [OF sh] by (auto simp: registry_ok_def list_all_iff m)
  have less: "handed ?b < length (accepted ?b)" using D(6) k x(2) fine_committed [OF sim] by simp
  have conns: "settled_conns ?f = settled_conns f" by (rule settled_cong) (simp_all add: eff(3))
  have "dispatch_iter (\<lambda>_. bus_ring ?b) (dispatcher ?b) (shared ?b) = Some (Ret (advance r 0, s))"
    using bus_dispatch_iter [OF bus_invD(1,2) [OF inv(1)]] less D(6) s' by (simp add: Let_def)
  then have "bus_step ?b (?b\<lparr>bus_ring := advance r 0, shared := s\<rparr>)" by (rule bus_step.dispatch)
  then have "bus_step ?b (coarse ?f (advance r 0))" by (simp add: coarse_def conns)
  then have reach: "bus_reach (coarse ?f (advance r 0))" by (rule bus_reach.step [OF D(5)])
  have "ring_ok (coarse ?f (advance r 0)) \<and> dispatched (coarse ?f (advance r 0)) = dispatched ?b @ [snd (accepted ?b ! handed ?b)]"
    by (rule ring_ok_dispatch [OF bus_invD(1) [OF inv(1)] less]) simp_all
  then have "length (dispatched (coarse ?f (advance r 0))) = Suc (length (dispatched ?b))" and
    "handed (coarse ?f (advance r 0)) \<le> length (f_accepted f)" using handed_le [of "coarse ?f (advance r 0)"] by simp_all
  then have "handed (coarse ?f (advance r 0)) = Suc (handed ?b)" using less by (simp add: dispatched_def min_def split: if_splits)
  moreover have "lock_ok ?f" using D(3) lock_cong [of ?f f] eff(3) by simp
  moreover have "weak_inv fine_starts w" by (rule weak_step_inv [OF w D(1)]) (use eff(1) inv(2) in simp)
  ultimately show ?thesis
    using D reach eff weak_registered [OF w D(1) inv(2) D(2)]
    by (intro exI [of _ "advance r 0"]) (simp add: fine_sim_def)
qed

lemma fine_grows:
  assumes "fine_step f f'"
  shows "length (f_accepted f) \<le> length (f_accepted f') \<and> length (chans (f_shared f)) \<le> length (chans (f_shared f'))"
  using assms
proof cases
  case (f_handshake i st peer c s)
  then show ?thesis by (auto elim!: handle_connection_cases)
next
  case (f_read i st peer c s)
  then show ?thesis by (cases rule: publisher_read_cases [of st peer "f_shared f"]) auto
next
  case (f_send i st rx sid peer c s)
  then show ?thesis
    by (auto simp: subscriber_io_iter_def elim!: recv_Received split: RecvResult.splits prod.splits sum.splits)
next
  case (f_callback w x d s)
  then show ?thesis by (simp add: length_dispatch_msg)
qed (simp_all add: subscriber_leave_def)

lemma fine_step_small: "fine_step f f' \<Longrightarrow> fine_small f' \<Longrightarrow> fine_small f"
  using fine_grows [of f f'] by (simp add: fine_small_def)

lemma sim_conn_steps:
  assumes sim: "fine_sim f r" and i: "i < length (f_conns f)" and not: "\<And>h p st peer. f_conns f ! i \<noteq> PublishOne h p st peer"
    and step: "bus_step (coarse f r) (set_conn i c ((coarse f r)\<lparr>shared := s, joined := jn\<rparr>))"
  shows "fine_sim (f\<lparr>f_shared := s, f_conns := (f_conns f)[i := c], f_joined := jn\<rparr>) r" (is "fine_sim ?f r")
proof -
  note o = other_conn [OF fine_simD(3) [OF sim] i not, of ?f c]
  have "coarse ?f r = set_conn i c ((coarse f r)\<lparr>shared := s, joined := jn\<rparr>)"
    using o(3) by (simp add: coarse_def set_conn_def)
  with step show ?thesis by (intro sim_bus [OF sim]) (simp_all add: o(1))
qed

lemma sim_too_large:
  assumes sim: "fine_sim f r" and i: "holder f = None" "i < length (f_conns f)" "f_conns f ! i = PublishOne h p st peer"
    and p: "length p > PAYLOAD_CAP"
  shows "fine_sim (f\<lparr>f_shared := print (PublishTooLarge peer) (f_shared f), f_conns := (f_conns f)[i := RunPublisher st peer]\<rparr>) r"
    (is "fine_sim ?f r")
proof -
  have idle: "ppc (mem f) = PIdle"
    using fine_simD(3) [OF sim] i(1) by (auto simp: lock_ok_def holds_def split: if_splits)
  then have "coarse ?f r = set_conn i (RunPublisher st peer)
      ((coarse f r)\<lparr>bus_ring := r, shared := print (PublishTooLarge peer) (f_shared f), accepted := f_accepted f @ []\<rparr>)"
    using settled_before [of f] settled_before [of ?f] by (simp add: coarse_def set_conn_def)
  with bus_step.publish [of i "coarse f r" h p st peer None "RunPublisher st peer" r "print (PublishTooLarge peer) (f_shared f)"]
  have "bus_step (coarse f r) (coarse ?f r)"
    using i p idle settled_before [of f] by (simp add: publish_attempt_def publish_def)
  then show ?thesis by (rule sim_bus [OF sim]) (use i(1) idle in \<open>simp_all add: lock_ok_def\<close>)
qed

lemma sim_lock:
  assumes sim: "fine_sim f r" and small: "fine_small f" and i: "i < length (f_conns f)" "f_conns f ! i = PublishOne h p st peer"
    and w: "weak_step (mem f) w" "ppc (mem f) = PIdle"
      "ppc w = PScan x 0 m (pub_args clk (channel_id h) (msg_type h) p)"
  shows "fine_sim (f\<lparr>mem := w, holder := Some i\<rparr>) r" (is "fine_sim ?f r")
proof (rule sim_mem [OF sim w(1)])
  show "length (committed w) < 2 ^ 64 - 1" using enter_effect(1) [OF w] fine_inv(2) [OF sim small] by simp
  show "coarse ?f r = coarse f r" using settled_before [of f] settled_before [of ?f] w by (simp add: coarse_def)
qed (use i w enter_effect [OF w] in \<open>auto simp: lock_ok_def holds_def\<close>)

lemma sim_inside:
  assumes sim: "fine_sim f r" and small: "fine_small f" and w: "weak_step (mem f) w"
    and same: "committed w = committed (mem f)" "got w = got (mem f)" and idle: "ppc w = PIdle \<longleftrightarrow> ppc (mem f) = PIdle"
  shows "fine_sim (f\<lparr>mem := w\<rparr>) r" (is "fine_sim ?f r")
proof -
  note args = inside_args [OF w same(1) idle]
  have "holds ?f = holds f" unfolding holds_def by (simp add: args(1))
  then have "lock_ok ?f" using fine_simD(3) [OF sim] idle by (simp add: lock_ok_def)
  moreover have "coarse ?f r = coarse f r" using inside_settled [of w f, OF args(2)] by (simp add: coarse_def)
  ultimately show ?thesis
    using sim_mem [OF sim w, of ?f] same fine_inv(2) [OF sim small] by simp
qed

text \<open>The end of a publication, accepted or refused.\<close>

lemma sim_unlock:
  assumes sim: "fine_sim f r" and small: "fine_small f" and w: "weak_step (mem f) w"
    and pc: "ppc w = PIdle" "ppc (mem f) \<noteq> PIdle" and cs: "settled_conns f = cs"
  shows "fine_sim (f\<lparr>mem := w, holder := None, f_conns := cs\<rparr>) r" (is "fine_sim ?f r")
proof -
  have "coarse ?f r = coarse f r" using settled_before [of ?f] pc(1) cs by (simp add: coarse_def)
  then show ?thesis
    using sim_mem [OF sim w, of ?f] pc(1) leave_effect [OF w pc] fine_inv(2) [OF sim small] by (simp add: lock_ok_def)
qed

lemma sim_step:
  assumes "fine_step f f'" and sim: "fine_sim f r" and small: "fine_small f'"
  shows "\<exists>r'. fine_sim f' r'"
proof -
  note before = fine_step_small [OF assms(1) small]
  from assms(1) show ?thesis
  proof cases
    case (f_accept st peer)
    then show ?thesis using sim_accept_conn [OF sim] by blast
  next
    case (f_handshake i st peer c s)
    have "settled_conns f ! i = f_conns f ! i"
      using settled_other [OF sim f_handshake(2)] f_handshake(3) by simp
    with bus_step.handshake [of i "coarse f r" st peer c s] f_handshake fine_simD(6) [OF sim]
    have "bus_step (coarse f r) (set_conn i c ((coarse f r)\<lparr>shared := s,
        joined := f_joined f @ replicate (length (chans s) - length (chans (f_shared f))) (length (got (mem f) 0))\<rparr>))" by simp
    from sim_conn_steps [OF sim f_handshake(2) _ this] f_handshake(1,3) show ?thesis by auto
  next
    case (f_read i st peer c s)
    have "settled_conns f ! i = f_conns f ! i"
      using settled_other [OF sim f_read(2)] f_read(3) by simp
    with bus_step.read [of i "coarse f r" st peer c s] f_read
    have "bus_step (coarse f r) (set_conn i c ((coarse f r)\<lparr>shared := s, joined := f_joined f\<rparr>))" by (simp add: coarse_def)
    from sim_conn_steps [OF sim f_read(2) _ this] f_read(1,3) show ?thesis by auto
  next
    case (f_send i st rx sid peer c s)
    have "settled_conns f ! i = f_conns f ! i"
      using settled_other [OF sim f_send(2)] f_send(3) by simp
    with bus_step.send [of i "coarse f r" st rx sid peer c s] f_send
    have "bus_step (coarse f r) (set_conn i c ((coarse f r)\<lparr>shared := s, joined := f_joined f\<rparr>))" by (simp add: coarse_def)
    from sim_conn_steps [OF sim f_send(2) _ this] f_send(1,3) show ?thesis by auto
  next
    case (f_leave i st sid peer)
    have "settled_conns f ! i = f_conns f ! i"
      using settled_other [OF sim f_leave(2)] f_leave(3) by simp
    with bus_step.leave [of i "coarse f r" st sid peer] f_leave
    have "bus_step (coarse f r) (set_conn i (Closed st) ((coarse f r)\<lparr>shared := subscriber_leave sid (f_shared f), joined := f_joined f\<rparr>))"
      by (simp add: coarse_def)
    from sim_conn_steps [OF sim f_leave(2) _ this] f_leave(1,3) show ?thesis by auto
  next
    case (f_commit w x q i)
    then show ?thesis using sim_commit [OF sim] small by blast
  next
    case (f_callback w x d s)
    then show ?thesis using sim_callback [OF sim before] by blast
  next
    case f_fell
    then show ?thesis using conc_invD(6) [OF weak_invD(1) [OF fine_simD(1) [OF sim]], of 0] by simp
  next
    case (f_too_large i h p st peer)
    then show ?thesis using sim_too_large [OF sim] by blast
  next
    case (f_lock i h p st peer w clk)
    then show ?thesis using sim_lock [OF sim before] by blast
  next
    case (f_inside w)
    then show ?thesis using sim_inside [OF sim before] by blast
  next
    case (f_return w x i h p st peer)
    then show ?thesis using sim_unlock [OF sim before f_return(2,4) _ settled_after [OF f_return(3,5,6)]] by auto
  next
    case (f_refused w x k m q)
    then have "settled_conns f = f_conns f" using settled_before by simp
    from sim_unlock [OF sim before f_refused(2,4) _ this] f_refused show ?thesis by auto
  qed
qed

section \<open>Reachable states\<close>

lemma register_ring_new: "register_consumer ring_new = (Inr 0, snd (register_consumer ring_new))"
  using bus_start_eq by (cases "register_consumer ring_new") (auto simp: bus_start_def split: sum.splits)

lemma fine_start_sim:
  assumes "fine_start = Ret f"
  shows "fine_sim f (snd (register_consumer ring_new))" (is "fine_sim f ?r")
proof -
  have f: "f = \<lparr>mem = weak_init log_new ?r, holder = None, f_shared = \<lparr>registry = [], chans = [], sub_id = 0, printed = []\<rparr>,
      f_conns = [], f_accepted = [], f_joined = [], f_origin = []\<rparr>"
    using assms unfolding fine_start_def by (subst (asm) register_ring_new) simp
  have "coarse f ?r = \<lparr>bus_ring = ?r, shared = \<lparr>registry = [], chans = [], sub_id = 0, printed = []\<rparr>,
     dispatcher = 0, conns = [], accepted = [], joined = [], origin = []\<rparr>"
    by (simp add: coarse_def f settled_conns_def weak_init_def)
  then have b: "bus_reach (coarse f ?r)" by (simp only: bus_reach.start [OF bus_start_eq])
  let ?a = "snd (log_register log_new)"
  have "ring_rel ?a ?r" using register_sim [OF ring_rel_new] by simp
  moreover have "weak_init ?a ?r = weak_init log_new ?r" by (simp add: weak_init_def log_eval)
  ultimately have "weak_inv fine_starts (mem f)" using weak_init_inv [of ?a ?r] by (simp add: f fine_starts_def)
  moreover have "consumers ?r ! 0 = 0" using register_new by (simp add: MAX_CONSUMERS_def)
  ultimately show ?thesis
    using b by (simp add: fine_sim_def f lock_ok_def handed_def weak_init_def log_new_def CONSUMER_FREE_def)
qed

lemma fine_reach_sim: "fine_reach f \<Longrightarrow> fine_small f \<Longrightarrow> \<exists>r. fine_sim f r"
proof (induction rule: fine_reach.induct)
  case (f_start f)
  then show ?case using fine_start_sim by blast
next
  case (f_step f f')
  then obtain r where "fine_sim f r" using fine_step_small by blast
  with f_step show ?case using sim_step by blast
qed

text \<open>
  C38: a turn of a thread's loop may be taken as one step. With the publishers, the dispatcher and the connections
  interleaved at every access of the ring, under release/acquire, whatever the bus does the bus of \<open>Bus_System\<close> does: in
  every reachable state there is a reachable state of that bus with the same registry, queues, lines printed,
  accepted messages and connections, except that a publisher which has stored the stamp and not yet
  unlocked counts as returned; there is no data race, and the dispatcher has not fallen behind. A handshake, the
  reading of a frame, a send and the callback of the dispatcher are single steps in both.
\<close>

theorem bus_turns_atomic:
  assumes "fine_reach f" and "fine_small f"
  shows "\<exists>b. bus_reach b \<and> shared b = f_shared f \<and> accepted b = f_accepted f \<and> joined b = f_joined f \<and>
    origin b = f_origin f \<and> handed b = length (got (mem f) 0) \<and> length (conns b) = length (f_conns f) \<and>
    (\<forall>i<length (f_conns f). conns b ! i = f_conns f ! i \<or>
       holder f = Some i \<and> (\<exists>h p st peer. f_conns f ! i = PublishOne h p st peer \<and> conns b ! i = RunPublisher st peer)) \<and>
    map snd (accepted b) = committed (mem f) \<and> \<not> weak_race (mem f) \<and> cpcs (mem f) 0 \<noteq> CFell"
proof -
  obtain r where sim: "fine_sim f r" using fine_reach_sim [OF assms] by blast
  note d = fine_simD [OF sim]
  have "settled_conns f ! i = f_conns f ! i \<or>
      holder f = Some i \<and> (\<exists>h p st peer. f_conns f ! i = PublishOne h p st peer \<and> settled_conns f ! i = RunPublisher st peer)"
    if "i < length (f_conns f)" for i
    using d(3) by (cases rule: lock_cases) (use that in \<open>auto simp: nth_list_update\<close>)
  moreover have "\<not> weak_race (mem f)" by (rule weak_inv_no_race [OF d(1) fine_inv(2) [OF sim assms(2)]])
  moreover have "cpcs (mem f) 0 \<noteq> CFell" using conc_invD(6) [OF weak_invD(1) [OF d(1)], of 0] by auto
  ultimately show ?thesis using d(4-6) by (intro exI [of _ "coarse f r"]) simp
qed

section \<open>A run\<close>

text \<open>A publication of the interleaved ring, the other threads idle, is one of the bus.\<close>

lemma publication_runs:
  assumes "conc_within c0 c" and "fine_reach f0" and "Conc.truncate (mem f0) = c0" and "newest (mem f0)"
    and "holder f0 = Some i" and "f_conns f0 ! i = PublishOne h p st peer" and "cpcs c0 = (\<lambda>_. CIdle)"
    and "map snd (f_accepted f0) = committed c0" and "chans (f_shared f0) = []"
  shows "\<exists>f. fine_reach f \<and> Conc.truncate (mem f) = c \<and> newest (mem f) \<and> cpcs c = (\<lambda>_. CIdle) \<and>
    map snd (f_accepted f) = committed c \<and> chans (f_shared f) = [] \<and>
    (ppc c \<noteq> PIdle \<longrightarrow> holder f = Some i \<and> f_conns f ! i = PublishOne h p st peer)"
  using assms(1)
proof (induction rule: conc_within.induct)
  case w_start
  then show ?case using assms(2-) by blast
next
  case (w_step c l d)
  from w_step.IH obtain f where f: "fine_reach f" "Conc.truncate (mem f) = c" "newest (mem f)" "cpcs c = (\<lambda>_. CIdle)"
    "map snd (f_accepted f) = committed c" "chans (f_shared f) = []"
    "ppc c \<noteq> PIdle \<longrightarrow> holder f = Some i \<and> f_conns f ! i = PublishOne h p st peer" by blast
  obtain w where w: "weak_step (mem f) w" "Conc.truncate w = d" using sc_step_weak [of "mem f" l d] f(2,3) w_step(2) by blast
  have c: "committed (mem f) = committed c" "got (mem f) = got c" "ppc (mem f) = ppc c" "cpcs (mem f) = cpcs c" using f(2) by auto
  have d: "committed w = committed d" "got w = got d" "ppc w = ppc d" "cpcs w = cpcs d" using w(2) by auto
  note nw = newest_step [OF w(1) f(3)]
  have idle: "cpcs d = (\<lambda>_. CIdle)" using w_step(3) f(4) by (auto simp: inside_calls_def)
  have inside: ?case if "committed d = committed c" "got d = got c" "ppc d \<noteq> PIdle" "ppc c \<noteq> PIdle"
  proof -
    have "fine_step f (f\<lparr>mem := w\<rparr>)" by (rule f_inside [OF w(1)]) (use that c d f(4) idle in simp_all)
    with f w(2) nw that idle show ?case by (intro exI [of _ "f\<lparr>mem := w\<rparr>"]) (auto intro: f_step)
  qed
  from w_step(2) show ?case
  proof cases
    case (p_reject x k m q)
    then have "fine_step f (f\<lparr>mem := w, holder := None\<rparr>)" using f_refused [OF w(1)] c d by simp
    with f w(2) nw idle p_reject show ?thesis by (intro exI [of _ "f\<lparr>mem := w, holder := None\<rparr>"]) (auto intro: f_step)
  next
    case (p_commit x q)
    let ?f = "f\<lparr>mem := w, f_accepted := f_accepted f @ [(i, args_msg q)]\<rparr>"
    have "fine_step f ?f" using f_commit [OF w(1), of x q i] c d p_commit f(7) by simp
    with f w(2) nw idle p_commit show ?thesis by (intro exI [of _ ?f]) (auto intro: f_step)
  next
    case (p_head x)
    let ?f = "f\<lparr>mem := w, holder := None, f_conns := (f_conns f)[i := RunPublisher st peer]\<rparr>"
    have "fine_step f ?f" using f_return [OF w(1), of x i h p st peer] c d p_head f(7) by simp
    with f w(2) nw idle p_head show ?thesis by (intro exI [of _ ?f]) (auto intro: f_step)
  next
    case (c_load cid x)
    moreover have "cpcs d cid = CIdle" using idle by simp
    ultimately show ?thesis by simp
  qed (use inside w_step(3) f(4) idle in \<open>auto simp: inside_calls_def\<close>)
qed

lemma fine_published:
  "\<exists>f. fine_reach f \<and> fine_small f \<and> map snd (f_accepted f) = [demo_msg]"
proof -
  let ?r = "snd (register_consumer ring_new)"
  let ?s0 = "\<lparr>registry = [], chans = [], sub_id = 0, printed = []\<rparr>"
  let ?st = "demo_stream (wire demo_pub) []" and ?pub = "PublishOne (fst demo_pub) [9] (demo_stream [] []) ''p''"
  let ?f0 = "\<lparr>mem = weak_init log_new ?r, holder = None, f_shared = ?s0, f_conns = [], f_accepted = [], f_joined = [], f_origin = []\<rparr>"
  let ?f1 = "?f0\<lparr>f_conns := [Handshake ?st (Some ''p'')], f_origin := [wire demo_pub]\<rparr>"
  let ?f2 = "?f1\<lparr>f_conns := [?pub], f_shared := print (PublisherUp ''p'') ?s0\<rparr>"
  let ?q = "pub_args None 7 1 [9]" and ?c = "conc_init log_new ?r"
  have 0: "fine_reach ?f0" by (rule f_start) (unfold fine_start_def, subst register_ring_new, simp)
  have 1: "fine_reach ?f1" using f_step [OF 0 f_accept [of ?st ?f0 "Some ''p''"]] by (simp add: demo_stream_def)
  have 2: "fine_reach ?f2"
    using f_step [OF 1 f_handshake [of 0 ?f1 ?st "Some ''p''" ?pub "print (PublisherUp ''p'') ?s0"]] handshake_pub
    by (simp add: print_def)
  let ?w = "(mem ?f2)\<lparr>ppc := PScan (producer_seq ?r) 0 U64_MAX ?q\<rparr>" and ?f3 = "?f2\<lparr>mem := mem ?f2\<lparr>ppc := PScan (producer_seq ?r) 0 U64_MAX ?q\<rparr>, holder := Some 0\<rparr>"
  have w: "weak_step (mem ?f2) ?w"
    using a_start [of "mem ?f2" ?q] by (simp add: weak_init_def pub_args_def PAYLOAD_CAP_def)
  have "fine_step ?f2 ?f3"
    by (rule f_lock [OF _ _ _ w, of 0 "fst demo_pub" "[9]" "demo_stream [] []" "''p''" None])
      (simp_all add: weak_init_def demo_pub_def)
  with 2 have 3: "fine_reach ?f3" by (rule f_step)
  have rel: "ring_rel (snd (log_register log_new)) ?r" using register_sim [OF ring_rel_new] by simp
  have "\<not> lagging (snd (log_register log_new))" by (simp add: log_eval)
  with publish_sim [OF rel, of None 7 1 "[9]"] have "fst (publish ?r None 7 1 [9]) = Inr ()"
    by (simp add: log_publish_def PAYLOAD_CAP_def) (simp add: log_eval)
  then obtain r' where "publish (ring ?c) None 7 1 [9] = (Inr (), r')"
    by (cases "publish ?r None 7 1 [9]") (auto simp: conc_init_def)
  from publish_within [OF _ _ this] ring_relD(1) [OF rel]
  have run: "conc_within (?c\<lparr>ppc := PScan (producer_seq (ring ?c)) 0 U64_MAX ?q\<rparr>)
      (?c\<lparr>ring := r', committed := committed ?c @ [demo_msg]\<rparr>)" by (simp add: conc_init_def demo_msg_def)
  have "newest (mem ?f2)" using newest_init [OF ring_relD(1) [OF rel], of log_new] by simp
  from newest_step [OF w this] have "newest (mem ?f3)" by simp
  note pr = publication_runs [OF run 3 _ this, of 0 "fst demo_pub" "[9]" "demo_stream [] []" "''p''"]
  have "Conc.truncate (mem ?f3) = ?c\<lparr>ppc := PScan (producer_seq (ring ?c)) 0 U64_MAX ?q\<rparr>"
    by (simp add: Conc.truncate_def weak_init_def conc_init_def)
  note pr = pr [OF this]
  have "holder ?f3 = Some 0" by simp
  note pr = pr [OF this]
  have "f_conns ?f3 ! 0 = ?pub" by simp
  note pr = pr [OF this]
  have "cpcs (?c\<lparr>ppc := PScan (producer_seq (ring ?c)) 0 U64_MAX ?q\<rparr>) = (\<lambda>_. CIdle)" by (simp add: conc_init_def)
  note pr = pr [OF this]
  have "map snd (f_accepted ?f3) = committed (?c\<lparr>ppc := PScan (producer_seq (ring ?c)) 0 U64_MAX ?q\<rparr>)"
    by (simp add: conc_init_def log_new_def)
  note pr = pr [OF this]
  have "chans (f_shared ?f3) = []" by (simp add: print_def)
  from pr [OF this] have "\<exists>f. fine_reach f \<and> map snd (f_accepted f) = committed ?c @ [demo_msg] \<and> chans (f_shared f) = []"
  proof (elim exE conjE)
    fix f assume f: "fine_reach f" "map snd (f_accepted f) = committed (?c\<lparr>ring := r', committed := committed ?c @ [demo_msg]\<rparr>)"
      "chans (f_shared f) = []"
    from f(2) have "map snd (f_accepted f) = committed ?c @ [demo_msg]" by simp
    with f(1,3) show ?thesis by (intro exI [of _ f] conjI)
  qed
  then obtain f where f: "fine_reach f" "map snd (f_accepted f) = [demo_msg]" "chans (f_shared f) = []"
    by (auto simp: conc_init_def log_new_def)
  have "fine_small f" using arg_cong [OF f(2), of length] f(3) by (simp add: fine_small_def)
  with f(1,2) show ?thesis by (intro exI [of _ f] conjI)
qed

theorem bus_turns_atomic_witness:
  "\<exists>f b. fine_reach f \<and> map snd (f_accepted f) = [demo_msg] \<and> bus_reach b \<and> shared b = f_shared f \<and>
     accepted b = f_accepted f \<and> \<not> weak_race (mem f)"
proof -
  obtain f where f: "fine_reach f" "fine_small f" "map snd (f_accepted f) = [demo_msg]"
    using fine_published by (elim exE conjE that)
  from bus_turns_atomic [OF f(1,2)] show ?thesis
  proof (elim exE conjE)
    fix b assume "bus_reach b" "shared b = f_shared f" "accepted b = f_accepted f" "\<not> weak_race (mem f)"
    with f(1,3) show ?thesis by (intro exI [of _ f] exI [of _ b] conjI)
  qed
qed

end
