(* ===== verification/Latency_Args.thy ===== *)
theory Latency_Args
  imports Bench_Prelude
begin

text \<open>
  The command line of the latency benchmark (\<open>Args::parse\<close> in \<open>bench/src/bin/latency.rs\<close>): the
  loop over the arguments by index, with the panics of a missing or malformed value.
\<close>

record Args =
  bus_addr :: string
  redis_addr :: string
  n_msgs :: u64
  n_warmup :: u64
  rate_hz :: u64
  no_hist :: bool
  no_redis :: bool
  no_bus :: bool
  subscribers :: u64

definition default_args :: Args where
  "default_args =
     \<lparr>bus_addr = ''127.0.0.1:8000'', redis_addr = ''127.0.0.1:6379'', n_msgs = 100000, n_warmup = 10000,
      rate_hz = 100000, no_hist = False, no_redis = False, no_bus = False, subscribers = 0\<rparr>"

text \<open>\<open>argv[i+1].parse().unwrap()\<close>.\<close>

definition num_value :: "string list \<Rightarrow> nat \<Rightarrow> u64 outcome" where
  "num_value argv i =
     obind (index argv i) (\<lambda>v. case parse_uint v of None \<Rightarrow> Panic | Some n \<Rightarrow> Ret n)"

text \<open>The second component collects the arguments reported as unknown.\<close>

function parse_loop :: "string list \<Rightarrow> nat \<Rightarrow> Args \<Rightarrow> string list \<Rightarrow> (Args \<times> string list) outcome" where
  "parse_loop argv i a unknown =
     (if i < length argv then
        let arg = argv ! i in
        if arg = ''--bus-addr'' then
          obind (index argv (i + 1)) (\<lambda>v. parse_loop argv (i + 2) (a\<lparr>bus_addr := v\<rparr>) unknown)
        else if arg = ''--redis-addr'' then
          obind (index argv (i + 1)) (\<lambda>v. parse_loop argv (i + 2) (a\<lparr>redis_addr := v\<rparr>) unknown)
        else if arg = ''--count'' then
          obind (num_value argv (i + 1)) (\<lambda>n. parse_loop argv (i + 2) (a\<lparr>n_msgs := n\<rparr>) unknown)
        else if arg = ''--warmup'' then
          obind (num_value argv (i + 1)) (\<lambda>n. parse_loop argv (i + 2) (a\<lparr>n_warmup := n\<rparr>) unknown)
        else if arg = ''--rate'' then
          obind (num_value argv (i + 1)) (\<lambda>n. parse_loop argv (i + 2) (a\<lparr>rate_hz := n\<rparr>) unknown)
        else if arg = ''--subscribers'' then
          obind (num_value argv (i + 1)) (\<lambda>n. parse_loop argv (i + 2) (a\<lparr>subscribers := n\<rparr>) unknown)
        else if arg = ''--no-hist'' then parse_loop argv (i + 1) (a\<lparr>no_hist := True\<rparr>) unknown
        else if arg = ''--no-redis'' then parse_loop argv (i + 1) (a\<lparr>no_redis := True\<rparr>) unknown
        else if arg = ''--no-bus'' then parse_loop argv (i + 1) (a\<lparr>no_bus := True\<rparr>) unknown
        else parse_loop argv (i + 1) a (unknown @ [arg])
      else Ret (a, unknown))"
  by pat_completeness auto
termination
  by (relation "measure (\<lambda>(argv, i, _, _). length argv - i)") auto

declare parse_loop.simps [simp del]

definition parse_args :: "string list \<Rightarrow> (Args \<times> string list) outcome" where
  "parse_args argv = parse_loop argv 0 default_args []"

text \<open>The arguments reported as unknown when the loop ends, or before it panics.\<close>

fun reported :: "string list \<Rightarrow> string list" where
  "reported [] = []"
| "reported (arg # rest) =
     (if arg \<in> {''--bus-addr'', ''--redis-addr''} then (case rest of [] \<Rightarrow> [] | v # rest' \<Rightarrow> reported rest')
      else if arg \<in> {''--count'', ''--warmup'', ''--rate'', ''--subscribers''} then
        (case rest of [] \<Rightarrow> [] | v # rest' \<Rightarrow> if (parse_uint v :: u64 option) = None then [] else reported rest')
      else if arg \<in> {''--no-hist'', ''--no-redis'', ''--no-bus''} then reported rest
      else arg # reported rest)"

section \<open>The loop as a recursion on the rest of the arguments\<close>

text \<open>What one option with a value, or one flag, does to the arguments.\<close>

definition set_addr :: "string \<Rightarrow> string \<Rightarrow> Args \<Rightarrow> Args" where
  "set_addr opt v a = (if opt = ''--bus-addr'' then a\<lparr>bus_addr := v\<rparr> else a\<lparr>redis_addr := v\<rparr>)"

definition set_num :: "string \<Rightarrow> u64 \<Rightarrow> Args \<Rightarrow> Args" where
  "set_num opt n a =
     (if opt = ''--count'' then a\<lparr>n_msgs := n\<rparr> else if opt = ''--warmup'' then a\<lparr>n_warmup := n\<rparr>
      else if opt = ''--rate'' then a\<lparr>rate_hz := n\<rparr> else a\<lparr>subscribers := n\<rparr>)"

definition set_flag :: "string \<Rightarrow> Args \<Rightarrow> Args" where
  "set_flag opt a =
     (if opt = ''--no-hist'' then a\<lparr>no_hist := True\<rparr> else if opt = ''--no-redis'' then a\<lparr>no_redis := True\<rparr>
      else a\<lparr>no_bus := True\<rparr>)"

definition addr_opts :: "string list" where
  "addr_opts = [''--bus-addr'', ''--redis-addr'']"

definition num_opts :: "string list" where
  "num_opts = [''--count'', ''--warmup'', ''--rate'', ''--subscribers'']"

definition flags :: "string list" where
  "flags = [''--no-hist'', ''--no-redis'', ''--no-bus'']"

fun parse_rest :: "string list \<Rightarrow> Args \<Rightarrow> string list \<Rightarrow> (Args \<times> string list) outcome" where
  "parse_rest [] a unknown = Ret (a, unknown)"
| "parse_rest (arg # rest) a unknown =
     (if arg \<in> set addr_opts then
        (case rest of [] \<Rightarrow> Panic | v # rest' \<Rightarrow> parse_rest rest' (set_addr arg v a) unknown)
      else if arg \<in> set num_opts then
        (case rest of [] \<Rightarrow> Panic
         | v # rest' \<Rightarrow> (case parse_uint v of None \<Rightarrow> Panic | Some n \<Rightarrow> parse_rest rest' (set_num arg n a) unknown))
      else if arg \<in> set flags then parse_rest rest (set_flag arg a) unknown
      else parse_rest rest a (unknown @ [arg]))"

lemma index_drop: "index xs (n + i) = index (drop n xs) i"
  by (auto simp: index_def)

lemma num_value_drop: "num_value xs (n + i) = num_value (drop n xs) i"
  by (simp add: num_value_def index_drop)

lemma parse_loop_step:
  assumes "i < length argv"
  shows "parse_loop argv i a unknown =
    (let arg = argv ! i in
     if arg \<in> set addr_opts then
       obind (index argv (i + 1)) (\<lambda>v. parse_loop argv (i + 2) (set_addr arg v a) unknown)
     else if arg \<in> set num_opts then
       obind (num_value argv (i + 1)) (\<lambda>n. parse_loop argv (i + 2) (set_num arg n a) unknown)
     else if arg \<in> set flags then parse_loop argv (i + 1) (set_flag arg a) unknown
     else parse_loop argv (i + 1) a (unknown @ [arg]))"
  using assms
  by (subst parse_loop.simps)
    (simp add: addr_opts_def num_opts_def flags_def set_addr_def set_num_def set_flag_def Let_def)

lemma parse_loop_rest: "parse_loop argv i a unknown = parse_rest (drop i argv) a unknown"
proof (induction "length argv - i" arbitrary: i a unknown rule: less_induct)
  case less
  show ?case
  proof (cases "i < length argv")
    case False
    then show ?thesis by (simp add: parse_loop.simps [of argv i])
  next
    case True
    have ih: "parse_loop argv (i + 1) a unknown = parse_rest (drop (i + 1) argv) a unknown"
      "parse_loop argv (i + 2) a unknown = parse_rest (drop (i + 2) argv) a unknown" for a unknown
      using less True by simp_all
    have d: "drop i argv = argv ! i # drop (i + 1) argv" using True by (simp add: Cons_nth_drop_Suc)
    show ?thesis
    proof (cases "drop (i + 1) argv")
      case Nil
      then have "index argv (i + 1) = Panic" by (simp add: index_def)
      then show ?thesis
        unfolding parse_loop_step [OF True] ih d Nil by (simp add: num_value_def Let_def)
    next
      case (Cons v rest)
      then have len: "i + 1 < length argv" by (metis drop_all list.distinct(1) not_le)
      with Cons have "argv ! (i + 1) = v" "drop (i + 2) argv = rest"
        using Cons_nth_drop_Suc [OF len] by simp_all
      then have "index argv (i + 1) = Ret v" using len by simp
      then show ?thesis
        unfolding parse_loop_step [OF True] ih d Cons \<open>drop (i + 2) argv = rest\<close>
        by (simp add: num_value_def Let_def split: option.split)
    qed
  qed
qed

section \<open>Properties\<close>

text \<open>The argument lists that parse: every option with a value has one, and the numbers are numbers.\<close>

fun opts_ok :: "string list \<Rightarrow> bool" where
  "opts_ok [] = True"
| "opts_ok (arg # rest) =
     (if arg \<in> set addr_opts \<or> arg \<in> set num_opts then
        (case rest of [] \<Rightarrow> False
         | v # rest' \<Rightarrow> (arg \<in> set num_opts \<longrightarrow> (parse_uint v :: u64 option) \<noteq> None) \<and> opts_ok rest')
      else opts_ok rest)"

text \<open>
  When parsing panics. The loop always ends, and the program panics exactly when an option that takes a value is
  the last argument or a numeric option's value is not a number that fits 64 bits; unknown arguments
  are never an error.
\<close>

lemma parse_args_panics:
  "(parse_args argv = Panic) = (\<not> opts_ok argv)"
proof -
  have "(parse_rest argv a unknown = Panic) = (\<not> opts_ok argv)" for a unknown
  proof (induction argv a unknown rule: parse_rest.induct)
    case (2 arg rest a unknown)
    have disj: "arg \<in> set num_opts \<Longrightarrow> arg \<notin> set addr_opts" by (auto simp: num_opts_def addr_opts_def)
    show ?case using 2 disj by (cases rest) (auto split: option.split)
  qed simp
  then show ?thesis by (simp add: parse_args_def parse_loop_rest)
qed

lemma reported_Cons:
  "reported (arg # rest) =
     (if arg \<in> set addr_opts then (case rest of [] \<Rightarrow> [] | v # rest' \<Rightarrow> reported rest')
      else if arg \<in> set num_opts then
        (case rest of [] \<Rightarrow> [] | v # rest' \<Rightarrow> if (parse_uint v :: u64 option) = None then [] else reported rest')
      else if arg \<in> set flags then reported rest
      else arg # reported rest)"
  by (simp add: addr_opts_def num_opts_def flags_def)

lemma reported_parsed:
  assumes "parse_args argv = Ret (a, unknown)"
  shows "reported argv = unknown"
proof -
  have "parse_rest argv a0 before = Ret (a, unknown) \<Longrightarrow> unknown = before @ reported argv" for a0 before
  proof (induction argv a0 before rule: parse_rest.induct)
    case (2 arg rest a0 before)
    consider (addr) "arg \<in> set addr_opts" | (num) "arg \<notin> set addr_opts" "arg \<in> set num_opts"
      | (flag) "arg \<notin> set addr_opts" "arg \<notin> set num_opts" "arg \<in> set flags"
      | (other) "arg \<notin> set addr_opts" "arg \<notin> set num_opts" "arg \<notin> set flags" by blast
    then show ?case
    proof cases
      case addr
      with 2(1,5) show ?thesis unfolding reported_Cons by (cases rest) simp_all
    next
      case num
      with 2(2,5) show ?thesis unfolding reported_Cons by (cases rest) (simp_all split: option.splits)
    next
      case flag
      with 2(3,5) show ?thesis unfolding reported_Cons by simp
    next
      case other
      with 2(4,5) show ?thesis unfolding reported_Cons by simp
    qed
  qed simp
  from this [of default_args "[]"] assms show ?thesis
    by (simp add: parse_args_def parse_loop_rest)
qed

text \<open>The command line that asks for given arguments.\<close>

definition unparse :: "Args \<Rightarrow> string list" where
  "unparse a =
     [''--bus-addr'', bus_addr a, ''--redis-addr'', redis_addr a, ''--count'', show_nat (unat (n_msgs a)),
      ''--warmup'', show_nat (unat (n_warmup a)), ''--rate'', show_nat (unat (rate_hz a)),
      ''--subscribers'', show_nat (unat (subscribers a))] @
     (if no_hist a then [''--no-hist''] else []) @ (if no_redis a then [''--no-redis''] else []) @
     (if no_bus a then [''--no-bus''] else [])"

text \<open>
  The command line round trip. Every set of arguments can be asked for: parsing the command line that spells
  it out gives it back, whatever the defaults and the addresses are, and nothing is reported as unknown.
\<close>

lemma args_roundtrip: "parse_args (unparse a) = Ret (a, [])"
proof -
  have "parse_rest (unparse a) b [] = Ret (a, [])" if "\<not> no_hist b" "\<not> no_redis b" "\<not> no_bus b" for b
    using that
    by (cases a; cases b)
      (simp add: unparse_def addr_opts_def num_opts_def flags_def set_addr_def set_num_def set_flag_def)
  then show ?thesis by (simp add: parse_args_def parse_loop_rest default_args_def)
qed

end
