(* ===== verification/Latency_Stats.thy ===== *)
theory Latency_Stats
  imports Bench_Prelude
begin

text \<open>
  The statistics of the latency benchmark (\<open>percentile\<close>, \<open>mean\<close>, \<open>stdev\<close>, \<open>histogram\<close>,
  \<open>print_stats\<close> and \<open>print_comparison\<close> in \<open>bench/src/bin/latency.rs\<close>). What is printed is
  returned, as the strings and numbers the formats are given.
\<close>

section \<open>Definitions\<close>

abbreviation f64_of_u64 :: "u64 \<Rightarrow> F64" where
  "f64_of_u64 w \<equiv> f64_of_nat (unat w)"

definition rank_of :: "nat \<Rightarrow> F64 \<Rightarrow> F64" where
  "rank_of n p = f64_div (f64_mul (f64_sub (f64_of_nat n) (f64_lit 1)) p) (f64_lit 100)"

definition percentile :: "bool \<Rightarrow> u64 list \<Rightarrow> F64 \<Rightarrow> F64 outcome" where
  "percentile checks xs p =
     (if xs = [] then Ret (f64_lit 0)
      else let k = rank_of (length xs) p; lo = f64_to_uint k in
        obind (add_u checks lo 1) (\<lambda>next_lo.
        let hi = min (unat next_lo) (length xs - 1) in
        obind (index xs (unat lo)) (\<lambda>a. obind (index xs hi) (\<lambda>b.
          Ret (f64_add (f64_of_u64 a) (f64_mul (f64_sub (f64_of_u64 b) (f64_of_u64 a)) (f64_sub k (f64_of_u64 lo))))))))"

fun sum_u :: "bool \<Rightarrow> u64 \<Rightarrow> u64 list \<Rightarrow> u64 outcome" where
  "sum_u checks acc [] = Ret acc"
| "sum_u checks acc (x # xs) = obind (add_u checks acc x) (\<lambda>acc. sum_u checks acc xs)"

definition mean :: "bool \<Rightarrow> u64 list \<Rightarrow> F64 outcome" where
  "mean checks d = obind (sum_u checks 0 d) (\<lambda>s. Ret (f64_div (f64_of_u64 s) (f64_of_nat (length d))))"

text \<open>
  \<open>powi\<close> has no specified precision, so \<open>powi(2)\<close> is the argument \<open>square\<close>; a sum of floats
  starts at \<open>-0.0\<close>.
\<close>

definition stdev :: "bool \<Rightarrow> (F64 \<Rightarrow> F64) \<Rightarrow> u64 list \<Rightarrow> F64 outcome" where
  "stdev checks square d =
     obind (mean checks d) (\<lambda>m.
       Ret (f64_sqrt (f64_div (foldl f64_add (Finite True 0) (map (\<lambda>x. square (f64_sub (f64_of_u64 x) m)) d))
                              (f64_of_nat (length d)))))"

definition boundaries :: "u64 list" where
  "boundaries = [250, 500, 1000, 2000, 4000, 8000, 16000,
                 32000, 64000, 128000, 256000, 512000, 1000000, 2000000]"

text \<open>The micro sign is two bytes.\<close>

definition micro :: string where
  "micro = [CHR 0xC2, CHR 0xB5]"

definition hist_labels :: "string list" where
  "hist_labels =
    [''<250ns'', ''250-500ns'', ''500ns-1'' @ micro @ ''s'', ''1-2'' @ micro @ ''s'', ''2-4'' @ micro @ ''s'',
     ''4-8'' @ micro @ ''s'', ''8-16'' @ micro @ ''s'', ''16-32'' @ micro @ ''s'', ''32-64'' @ micro @ ''s'',
     ''64-128'' @ micro @ ''s'', ''128-256'' @ micro @ ''s'', ''256-512'' @ micro @ ''s'',
     ''512'' @ micro @ ''s-1ms'', ''1-2ms'', ''>2ms'']"

text \<open>\<open>slice::partition_point\<close> on a slice that the predicate partitions.\<close>

definition partition_point :: "('a \<Rightarrow> bool) \<Rightarrow> 'a list \<Rightarrow> nat" where
  "partition_point P xs = length (takeWhile P xs)"

definition bucket :: "u64 \<Rightarrow> nat" where
  "bucket v = partition_point (\<lambda>b. b \<le> v) boundaries"

fun count_buckets :: "u64 list \<Rightarrow> nat list \<Rightarrow> nat list outcome" where
  "count_buckets [] counts = Ret counts"
| "count_buckets (v # vs) counts =
     obind (index counts (bucket v)) (\<lambda>c.
     obind (index_set counts (bucket v) (c + 1)) (\<lambda>counts. count_buckets vs counts))"

definition BAR_W :: nat where
  "BAR_W = 40"

record HistRow =
  row_label :: string
  row_bar :: nat
  row_count :: nat
  row_pct :: F64

fun hist_rows :: "nat \<Rightarrow> nat \<Rightarrow> nat \<Rightarrow> nat list \<Rightarrow> HistRow list outcome" where
  "hist_rows n_all peak i [] = Ret []"
| "hist_rows n_all peak i (c # cs) =
     (if c = 0 then hist_rows n_all peak (i + 1) cs
      else obind (index hist_labels i) (\<lambda>l.
           obind (hist_rows n_all peak (i + 1) cs) (\<lambda>rows.
             Ret (\<lparr>row_label = l, row_bar = c * BAR_W div peak, row_count = c,
                   row_pct = f64_div (f64_mul (f64_of_nat c) (f64_lit 100)) (f64_of_nat n_all)\<rparr> # rows))))"

definition histogram :: "u64 list \<Rightarrow> HistRow list outcome" where
  "histogram xs =
     obind (count_buckets xs (replicate (length hist_labels) 0)) (\<lambda>counts.
       hist_rows (length xs) (max (foldr max counts 0) 1) 0 counts)"

definition us :: "F64 \<Rightarrow> F64" where
  "us ns = f64_div ns (f64_lit 1000)"

record Summary =
  samples :: nat
  stat_min :: F64
  stat_p50 :: F64
  stat_p95 :: F64
  stat_p99 :: F64
  stat_p999 :: F64
  stat_max :: F64
  stat_mean :: F64
  stat_stdev :: F64
  stat_hist :: "HistRow list"

definition print_stats :: "bool \<Rightarrow> (F64 \<Rightarrow> F64) \<Rightarrow> u64 list \<Rightarrow> bool \<Rightarrow> Summary outcome" where
  "print_stats checks square lats show_hist =
     (let s = sort lats in
      obind (index s 0) (\<lambda>lo.
      obind (percentile checks s (f64_lit 50)) (\<lambda>p50. obind (percentile checks s (f64_lit 95)) (\<lambda>p95.
      obind (percentile checks s (f64_lit 99)) (\<lambda>p99. obind (percentile checks s (f64_lit (999 / 10))) (\<lambda>p999.
      obind (if s = [] then Panic else Ret (last s)) (\<lambda>hi.
      obind (mean checks s) (\<lambda>m. obind (stdev checks square s) (\<lambda>sd.
      obind (if show_hist then histogram s else Ret []) (\<lambda>h.
        Ret \<lparr>samples = length s, stat_min = us (f64_of_u64 lo), stat_p50 = us p50, stat_p95 = us p95,
             stat_p99 = us p99, stat_p999 = us p999, stat_max = us (f64_of_u64 hi), stat_mean = us m,
             stat_stdev = us sd, stat_hist = h\<rparr>))))))))))"

text \<open>
  The values of \<open>print_stats\<close> in the order of its lines, below the label and the number of
  samples: a line whose value panics is not printed, nor is any after it.
\<close>

definition stats_values :: "bool \<Rightarrow> (F64 \<Rightarrow> F64) \<Rightarrow> u64 list \<Rightarrow> (string \<times> F64 outcome) list" where
  "stats_values checks square lats =
     (let s = sort lats; in_us = (\<lambda>x. obind x (\<lambda>v. Ret (us v))) in
      [(''min'', obind (index s 0) (\<lambda>lo. Ret (us (f64_of_u64 lo)))),
       (''p50'', in_us (percentile checks s (f64_lit 50))), (''p95'', in_us (percentile checks s (f64_lit 95))),
       (''p99'', in_us (percentile checks s (f64_lit 99))), (''p99.9'', in_us (percentile checks s (f64_lit (999 / 10)))),
       (''max'', obind (if s = [] then Panic else Ret (last s)) (\<lambda>hi. Ret (us (f64_of_u64 hi)))),
       (''mean'', in_us (mean checks s)), (''stdev'', in_us (stdev checks square s))])"

fun until_panic :: "('l \<times> 'a outcome) list \<Rightarrow> ('l \<times> 'a) list" where
  "until_panic [] = []"
| "until_panic ((l, Panic) # rest) = []"
| "until_panic ((l, Ret x) # rest) = (l, x) # until_panic rest"

lemma stats_values_complete:
  "print_stats checks square lats show_hist = Ret S \<Longrightarrow>
   until_panic (stats_values checks square lats) =
     [(''min'', stat_min S), (''p50'', stat_p50 S), (''p95'', stat_p95 S), (''p99'', stat_p99 S),
      (''p99.9'', stat_p999 S), (''max'', stat_max S), (''mean'', stat_mean S), (''stdev'', stat_stdev S)]"
  by (auto simp: print_stats_def stats_values_def Let_def obind_eq_Ret_iff split: if_splits)

record CompareRow =
  cmp_label :: string
  cmp_bus :: F64
  cmp_redis :: F64
  cmp_ratio :: F64
  cmp_bar :: nat

definition compare_row :: "bool \<Rightarrow> u64 list \<Rightarrow> u64 list \<Rightarrow> string \<times> F64 \<Rightarrow> CompareRow outcome" where
  "compare_row checks b r lp =
     obind (percentile checks b (snd lp)) (\<lambda>bv. obind (percentile checks r (snd lp)) (\<lambda>rv.
       let ratio = (if f64_less (f64_lit 0) bv then f64_div rv bv else Infinity False);
           bar = unat (f64_to_uint (f64_min (f64_mul ratio (f64_lit 6)) (f64_lit 48)) :: u64) in
       Ret \<lparr>cmp_label = fst lp, cmp_bus = us bv, cmp_redis = us rv, cmp_ratio = ratio, cmp_bar = bar\<rparr>))"

fun each :: "('a \<Rightarrow> 'b outcome) \<Rightarrow> 'a list \<Rightarrow> 'b list outcome" where
  "each f [] = Ret []"
| "each f (x # xs) = obind (f x) (\<lambda>y. obind (each f xs) (\<lambda>ys. Ret (y # ys)))"

definition compare_points :: "(string \<times> F64) list" where
  "compare_points =
     [(''p50'', f64_lit 50), (''p95'', f64_lit 95), (''p99'', f64_lit 99), (''p99.9'', f64_lit (999 / 10)),
      (''max'', f64_lit 100)]"

definition print_comparison :: "bool \<Rightarrow> u64 list \<Rightarrow> u64 list \<Rightarrow> (CompareRow list \<times> F64 \<times> F64) outcome" where
  "print_comparison checks bus redis =
     (let b = sort bus; r = sort redis in
      obind (each (compare_row checks b r) compare_points) (\<lambda>rows.
      obind (percentile checks r (f64_lit 50)) (\<lambda>r50. obind (percentile checks b (f64_lit 50)) (\<lambda>b50.
      obind (percentile checks r (f64_lit 99)) (\<lambda>r99. obind (percentile checks b (f64_lit 99)) (\<lambda>b99.
        Ret (rows, f64_div r50 (f64_max b50 (f64_lit 1)), f64_div r99 (f64_max b99 (f64_lit 1)))))))))"

section \<open>Percentiles\<close>

text \<open>A percentage, and a number of samples that its rank can be computed for without rounding at 100.\<close>

definition percentage :: "F64 \<Rightarrow> bool" where
  "percentage p \<longleftrightarrow> is_finite p \<and> 0 \<le> f64_val p \<and> f64_val p \<le> 100"

lemma moderate_nonneg: "0 \<le> r \<Longrightarrow> r \<le> 2 ^ 1000 \<Longrightarrow> moderate r"
  by (simp add: moderate_def)

lemma moderate_le: "0 \<le> r \<Longrightarrow> r \<le> b \<Longrightarrow> b \<le> 2 ^ 100 \<Longrightarrow> moderate r"
  unfolding moderate_def by (simp only: abs_of_nonneg) (erule order_trans, erule order_trans, intro power_increasing; simp)

lemma moderate_nat:
  assumes "0 \<le> r" "r \<le> of_nat n" "n \<le> 2 ^ 64"
  shows "moderate r"
proof (rule moderate_le [OF assms(1)])
  have "(of_nat n :: rat) \<le> of_nat (2 ^ 64)" using assms(3) by (simp only: of_nat_le_iff)
  with assms(2) show "r \<le> of_nat (2 ^ 64)" by (rule order_trans)
qed simp

lemma lit_exact: 
  "is_finite (f64_lit 1)" "f64_val (f64_lit 1) = 1" "is_finite (f64_lit 100)" "f64_val (f64_lit 100) = 100"
  using f64_lit_exact [of 1] f64_lit_exact [of 100] moderate_le [of 1 1] moderate_le [of 100 100] by simp_all

lemma exact_nat_times: "n \<le> 2 ^ 46 \<Longrightarrow> exact (of_nat n * 100)"
  using exact_of_nat [of "n * 100"] by simp

lemma rank_of_val:
  assumes n: "0 < n" "n \<le> 2 ^ 46" and p: "percentage p"
  shows "is_finite (rank_of n p)" "wf_f64 (rank_of n p)"
    "f64_val (rank_of n p) = rnd (rnd (of_nat (n - 1) * f64_val p) / 100)"
    "0 \<le> f64_val (rank_of n p)" "f64_val (rank_of n p) \<le> of_nat (n - 1)"
proof -
  let ?m = "of_nat (n - 1) :: rat"
  have nf: "is_finite (f64_of_nat n)" "f64_val (f64_of_nat n) = of_nat n"
    using f64_of_nat_exact [of n] n by simp_all
  have n1: "n - 1 \<le> 2 ^ 64" "(n - 1) * 100 \<le> 2 ^ 64" using n(2) by simp_all
  have m: "0 \<le> ?m" by (rule of_nat_0_le_iff)
  have m1: "of_nat n - 1 = ?m" using n(1) by (simp add: of_nat_diff)
  have "moderate ?m" by (rule moderate_nat [OF m order_refl n1(1)])
  moreover have "rnd ?m = ?m" using exact_of_nat [of "n - 1"] n by (simp add: exact_def)
  ultimately have s: "is_finite (f64_sub (f64_of_nat n) (f64_lit 1))"
    "f64_val (f64_sub (f64_of_nat n) (f64_lit 1)) = ?m"
    using f64_sub_val [OF nf(1) lit_exact(1)] unfolding nf lit_exact m1 by simp_all
  have mp: "0 \<le> ?m * f64_val p" "?m * f64_val p \<le> ?m * 100"
    using m p by (auto simp: percentage_def intro: mult_left_mono)
  have "moderate (?m * f64_val p)"
    by (rule moderate_nat [OF mp(1) _ n1(2)]) (use mp(2) in simp)
  with f64_mul_val [OF s(1), of p] p
  have x: "is_finite (f64_mul (f64_sub (f64_of_nat n) (f64_lit 1)) p)"
    "f64_val (f64_mul (f64_sub (f64_of_nat n) (f64_lit 1)) p) = rnd (?m * f64_val p)"
    unfolding s(2) percentage_def by blast+
  have e: "exact (?m * 100)" using n by (intro exact_nat_times) simp
  have r: "0 \<le> rnd (?m * f64_val p)" "rnd (?m * f64_val p) \<le> ?m * 100"
    using rnd_ge [OF mp(1)] rnd_le [OF mp(2) e] by simp_all
  then have d: "0 \<le> rnd (?m * f64_val p) / 100" "rnd (?m * f64_val p) / 100 \<le> ?m"
    by simp_all
  have "moderate (rnd (?m * f64_val p) / 100)" by (rule moderate_nat [OF d n1(1)])
  with f64_div_val [OF x(1) lit_exact(3)]
  show k: "is_finite (rank_of n p)" "f64_val (rank_of n p) = rnd (rnd (?m * f64_val p) / 100)"
    unfolding x(2) lit_exact(4) rank_of_def by simp_all
  show "wf_f64 (rank_of n p)"
    unfolding rank_of_def using x(1) lit_exact(3,4) by (intro wf_f64_div_finite) simp_all
  show "0 \<le> f64_val (rank_of n p)" "f64_val (rank_of n p) \<le> ?m"
    unfolding k using rnd_ge [OF d(1)] rnd_le [OF d(2)] exact_of_nat [of "n - 1"] n by simp_all
qed

text \<open>Interpolating between two samples below \<open>2 ^ 53\<close> stays between them.\<close>

definition interpolate :: "nat \<Rightarrow> nat \<Rightarrow> F64 \<Rightarrow> F64" where
  "interpolate a b f = f64_add (f64_of_nat a) (f64_mul (f64_sub (f64_of_nat b) (f64_of_nat a)) f)"

lemma interpolate_val:
  assumes ab: "a \<le> b" "b \<le> 2 ^ 53" and f: "is_finite f" "0 \<le> f64_val f" "f64_val f \<le> 1"
  shows "is_finite (interpolate a b f)"
    "f64_val (interpolate a b f) = rnd (of_nat a + rnd (of_nat (b - a) * f64_val f))"
    "of_nat a \<le> f64_val (interpolate a b f)" "f64_val (interpolate a b f) \<le> of_nat b"
proof -
  let ?d = "of_nat (b - a) :: rat"
  have av: "is_finite (f64_of_nat a)" "f64_val (f64_of_nat a) = of_nat a"
    and bv: "is_finite (f64_of_nat b)" "f64_val (f64_of_nat b) = of_nat b"
    using f64_of_nat_exact [of a] f64_of_nat_exact [of b] ab by simp_all
  have d: "(of_nat b - of_nat a :: rat) = ?d" using ab by (simp add: of_nat_diff)
  have b64: "b - a \<le> 2 ^ 64" "b \<le> 2 ^ 64" using ab(2) by simp_all
  have "moderate ?d" by (rule moderate_nat [OF of_nat_0_le_iff order_refl b64(1)])
  moreover have e: "exact ?d" "exact (of_nat a)" "exact (of_nat b)"
    using exact_of_nat [of "b - a"] exact_of_nat [of a] exact_of_nat [of b] ab by (simp_all del: of_nat_diff)
  ultimately have s: "is_finite (f64_sub (f64_of_nat b) (f64_of_nat a))"
    "f64_val (f64_sub (f64_of_nat b) (f64_of_nat a)) = ?d"
    using f64_sub_val [OF bv(1) av(1)] unfolding av bv d by (simp_all add: exact_def)
  have df: "0 \<le> ?d * f64_val f" "?d * f64_val f \<le> ?d"
    using f mult_left_mono [OF f(3), of ?d] by simp_all
  have "moderate (?d * f64_val f)" by (rule moderate_nat [OF df b64(1)])
  from f64_mul_val [OF s(1) f(1), unfolded s(2), OF this]
  have m: "is_finite (f64_mul (f64_sub (f64_of_nat b) (f64_of_nat a)) f)"
    "f64_val (f64_mul (f64_sub (f64_of_nat b) (f64_of_nat a)) f) = rnd (?d * f64_val f)" by simp_all
  have r: "0 \<le> rnd (?d * f64_val f)" "rnd (?d * f64_val f) \<le> ?d"
    using rnd_ge [OF df(1)] rnd_le [OF df(2) e(1)] by simp_all
  then have ar: "of_nat a \<le> of_nat a + rnd (?d * f64_val f)" "of_nat a + rnd (?d * f64_val f) \<le> of_nat b"
    using d by linarith+
  have "0 \<le> of_nat a + rnd (?d * f64_val f)" using r(1) by simp
  then have "moderate (of_nat a + rnd (?d * f64_val f))" by (rule moderate_nat [OF _ ar(2) b64(2)])
  from f64_add_val [OF av(1) m(1), unfolded av(2) m(2), OF this]
  show v: "is_finite (interpolate a b f)"
    "f64_val (interpolate a b f) = rnd (of_nat a + rnd (?d * f64_val f))"
    unfolding interpolate_def by simp_all
  show "of_nat a \<le> f64_val (interpolate a b f)" unfolding v by (rule rnd_ge [OF ar(1) e(2)])
  show "f64_val (interpolate a b f) \<le> of_nat b" unfolding v by (rule rnd_le [OF ar(2) e(3)])
qed

lemma interpolate_mono:
  assumes "a \<le> b" "b \<le> 2 ^ 53" "is_finite f" "is_finite g" "0 \<le> f64_val f" "f64_val f \<le> f64_val g" "f64_val g \<le> 1"
  shows "f64_val (interpolate a b f) \<le> f64_val (interpolate a b g)"
proof -
  have "0 \<le> f64_val g" "f64_val f \<le> 1" using assms by linarith+
  then show ?thesis
    using assms interpolate_val(2) [of a b f] interpolate_val(2) [of a b g]
    by (simp only:) (intro rnd_mono add_left_mono mult_left_mono; simp)
qed

text \<open>The position a percentage falls on, and what \<open>percentile\<close> computes from it.\<close>

definition lo_of :: "nat \<Rightarrow> F64 \<Rightarrow> nat" where
  "lo_of n p = nat \<lfloor>f64_val (rank_of n p)\<rfloor>"

lemma lo_of_bounds:
  assumes "0 < n" "n \<le> 2 ^ 46" "percentage p"
  shows "lo_of n p \<le> n - 1" "of_nat (lo_of n p) \<le> f64_val (rank_of n p)"
    "f64_val (rank_of n p) - of_nat (lo_of n p) < 1"
proof -
  note k = rank_of_val(4,5) [OF assms]
  have lo: "of_nat (lo_of n p) = (of_int \<lfloor>f64_val (rank_of n p)\<rfloor> :: rat)"
    using k(1) by (simp add: lo_of_def)
  show "of_nat (lo_of n p) \<le> f64_val (rank_of n p)" "f64_val (rank_of n p) - of_nat (lo_of n p) < 1"
    unfolding lo using floor_correct [of "f64_val (rank_of n p)"] by linarith+
  from order_trans [OF this(1) k(2)] show "lo_of n p \<le> n - 1" by (simp only: of_nat_le_iff)
qed

definition fraction_of :: "nat \<Rightarrow> F64 \<Rightarrow> F64" where
  "fraction_of n p = f64_sub (rank_of n p) (f64_of_nat (lo_of n p))"

lemma fraction_of_val:
  assumes "0 < n" "n \<le> 2 ^ 46" "percentage p"
  shows "is_finite (fraction_of n p)"
    "f64_val (fraction_of n p) = rnd (f64_val (rank_of n p) - of_nat (lo_of n p))"
    "0 \<le> f64_val (fraction_of n p)" "f64_val (fraction_of n p) \<le> 1"
proof -
  note k = rank_of_val [OF assms] and lo = lo_of_bounds [OF assms]
  have l: "is_finite (f64_of_nat (lo_of n p))" "f64_val (f64_of_nat (lo_of n p)) = of_nat (lo_of n p)"
    using f64_of_nat_exact [of "lo_of n p"] lo(1) assms(2) by simp_all
  let ?f = "f64_val (rank_of n p) - of_nat (lo_of n p)"
  have f: "0 \<le> ?f" "?f \<le> of_nat 1" using lo by simp_all
  have "moderate ?f" by (rule moderate_nat [OF f]) simp
  from f64_sub_val [OF k(1) l(1), unfolded l(2), OF this]
  show v: "is_finite (fraction_of n p)" "f64_val (fraction_of n p) = rnd ?f"
    by (simp_all only: fraction_of_def)
  show "0 \<le> f64_val (fraction_of n p)" "f64_val (fraction_of n p) \<le> 1"
    unfolding v using rnd_ge [OF f(1)] rnd_le [of ?f 1] f(2) by simp_all
qed

lemma percentile_eq:
  assumes xs: "xs \<noteq> []" "length xs \<le> 2 ^ 46" and p: "percentage p"
  defines "lo \<equiv> lo_of (length xs) p"
  shows "percentile checks xs p =
    Ret (interpolate (unat (xs ! lo)) (unat (xs ! min (lo + 1) (length xs - 1))) (fraction_of (length xs) p))"
proof -
  let ?n = "length xs" and ?k = "rank_of (length xs) p"
  have n: "0 < ?n" using xs by simp
  note k = rank_of_val [OF n xs(2) p] and b = lo_of_bounds [OF n xs(2) p, folded lo_def]
  have lo: "lo < ?n" using b(1) n by linarith
  with xs(2) have lo1: "lo + 1 < 2 ^ 64" by simp
  have "?n - 1 < 2 ^ 64" using xs(2) by simp
  then have "(of_nat (?n - 1) :: rat) < of_nat (2 ^ 64)" by (simp only: of_nat_less_iff)
  with k(5) have "f64_val ?k < 2 ^ LENGTH(64)" by (simp del: of_nat_diff)
  from f64_to_uint_val [OF k(1,4,2) this] have u: "unat (f64_to_uint ?k :: u64) = lo"
    by (simp add: lo_def lo_of_def)
  have "add_u checks (f64_to_uint ?k) (1 :: u64) = Ret (f64_to_uint ?k + 1)"
    using u lo1 by (intro add_u_Ret) simp
  moreover have "unat ((f64_to_uint ?k :: u64) + 1) = lo + 1"
    using u lo1 by (simp add: u64_add_one)
  ultimately show ?thesis
    using xs lo n by (simp add: percentile_def Let_def u interpolate_def fraction_of_def lo_def)
qed

text \<open>Percentiles grow with the percentage, and lie between the samples around their rank.\<close>

lemma rank_of_mono:
  assumes "0 < n" "n \<le> 2 ^ 46" "percentage p" "percentage q" "f64_val p \<le> f64_val q"
  shows "f64_val (rank_of n p) \<le> f64_val (rank_of n q)"
  unfolding rank_of_val(3) [OF assms(1-3)] rank_of_val(3) [OF assms(1,2,4)]
  using assms(5) by (intro rnd_mono divide_right_mono mult_left_mono) (simp_all del: of_nat_diff)

lemma hi_bounds: "lo \<le> n - 1 \<Longrightarrow> 0 < n \<Longrightarrow> lo < n \<and> lo \<le> min (lo + 1) (n - 1) \<and> min (lo + 1) (n - 1) < n" for n :: nat
  by auto

definition small_samples :: "u64 list \<Rightarrow> bool" where
  "small_samples xs \<longleftrightarrow> xs \<noteq> [] \<and> length xs \<le> 2 ^ 46 \<and> (\<forall>x \<in> set xs. unat x \<le> 2 ^ 53)"

lemma percentile_between:
  assumes xs: "small_samples xs" "sorted xs" and p: "percentage p"
  defines "lo \<equiv> lo_of (length xs) p"
  defines "hi \<equiv> min (lo + 1) (length xs - 1)"
  obtains r where "percentile checks xs p = Ret r" "is_finite r"
    "r = interpolate (unat (xs ! lo)) (unat (xs ! hi)) (fraction_of (length xs) p)"
    "of_nat (unat (xs ! lo)) \<le> f64_val r" "f64_val r \<le> of_nat (unat (xs ! hi))"
proof -
  have n: "xs \<noteq> []" "length xs \<le> 2 ^ 46" "0 < length xs" using xs by (auto simp: small_samples_def)
  have lo: "lo \<le> length xs - 1" using lo_of_bounds(1) [OF n(3,2) p] by (simp add: lo_def)
  then have lohi: "lo \<le> hi" "hi < length xs" unfolding hi_def using hi_bounds n(3) by blast+
  have ab: "unat (xs ! lo) \<le> unat (xs ! hi)" "unat (xs ! hi) \<le> 2 ^ 53"
    using sorted_nth_mono [OF xs(2) lohi] lohi(2) xs(1)
    by (simp_all add: word_le_nat_alt small_samples_def)
  note f = fraction_of_val(1,3,4) [OF n(3,2) p]
  show thesis
    using that [OF percentile_eq [OF n(1,2) p, folded lo_def, folded hi_def]]
      interpolate_val(1,3,4) [OF ab f] by blast
qed

lemma percentile_mono:
  assumes xs: "small_samples xs" "sorted xs" and pq: "percentage p" "percentage q" "f64_val p \<le> f64_val q"
    and r: "percentile checks xs p = Ret r" "percentile checks xs q = Ret s"
  shows "f64_val r \<le> f64_val s"
proof -
  let ?n = "length xs" and ?l = "lo_of (length xs)"
  have n: "xs \<noteq> []" "?n \<le> 2 ^ 46" "0 < ?n" using xs by (auto simp: small_samples_def)
  let ?hi = "\<lambda>lo. min (lo + 1) (?n - 1)"
  have rp: "r = interpolate (unat (xs ! ?l p)) (unat (xs ! ?hi (?l p))) (fraction_of ?n p)"
    "f64_val r \<le> of_nat (unat (xs ! ?hi (?l p)))"
    using percentile_between [OF xs pq(1), of checks] r(1) by (metis outcome.inject)+
  have sq: "s = interpolate (unat (xs ! ?l q)) (unat (xs ! ?hi (?l q))) (fraction_of ?n q)"
    "of_nat (unat (xs ! ?l q)) \<le> f64_val s"
    using percentile_between [OF xs pq(2), of checks] r(2) by (metis outcome.inject)+
  note lop = lo_of_bounds [OF n(3,2) pq(1)] and loq = lo_of_bounds [OF n(3,2) pq(2)]
  have k: "f64_val (rank_of ?n p) \<le> f64_val (rank_of ?n q)" by (rule rank_of_mono [OF n(3,2) pq])
  then have "?l p \<le> ?l q" by (simp add: lo_of_def floor_mono nat_mono)
  then consider (same) "?l p = ?l q" | (less) "?l p < ?l q" by linarith
  then show ?thesis
  proof cases
    case same
    have "?l q \<le> ?hi (?l q)" "?hi (?l q) < ?n" using hi_bounds [OF loq(1) n(3)] by blast+
    then have ab: "unat (xs ! ?l q) \<le> unat (xs ! ?hi (?l q))" "unat (xs ! ?hi (?l q)) \<le> 2 ^ 53"
      using sorted_nth_mono [OF xs(2)] xs(1) by (simp_all add: word_le_nat_alt small_samples_def)
    note fp = fraction_of_val [OF n(3,2) pq(1)] and fq = fraction_of_val [OF n(3,2) pq(2)]
    have "f64_val (fraction_of ?n p) \<le> f64_val (fraction_of ?n q)"
      unfolding fp(2) fq(2) same using k by (intro rnd_mono) simp
    from interpolate_mono [OF ab fp(1) fq(1) fp(3) this fq(4)] show ?thesis
      unfolding rp(1) sq(1) same .
  next
    case less
    then have "?hi (?l p) \<le> ?l q" by simp
    moreover have "?l q < ?n" using hi_bounds [OF loq(1) n(3)] by blast
    ultimately
    have "(of_nat (unat (xs ! ?hi (?l p))) :: rat) \<le> of_nat (unat (xs ! ?l q))"
      using sorted_nth_mono [OF xs(2)] by (simp only: of_nat_le_iff word_le_nat_alt)
    with rp(2) sq(2) show ?thesis by linarith
  qed
qed

text \<open>The percentages the program asks for.\<close>

lemma percentage_lit:
  assumes "0 \<le> r" "r \<le> 100"
  shows "percentage (f64_lit r)"
proof -
  have "moderate r" using assms by (intro moderate_nat [of r 100]) simp_all
  from f64_of_rat_val [OF this, of False] show ?thesis
    using rnd_ge [OF assms(1)] rnd_le [OF assms(2)] by (simp add: percentage_def)
qed

lemma f64_lit_mono:
  assumes "0 \<le> r" "r \<le> s" "s \<le> 100"
  shows "f64_val (f64_lit r) \<le> f64_val (f64_lit s)"
proof -
  have "moderate r" "moderate s" using assms by (auto intro!: moderate_nat [of _ 100])
  with f64_of_rat_val(2) assms(2) show ?thesis by (simp add: rnd_mono)
qed

lemma percentile_100:
  assumes "small_samples xs" "sorted xs"
  obtains r where "percentile checks xs (f64_lit 100) = Ret r" "is_finite r" "f64_val r = of_nat (unat (last xs))"
proof -
  let ?n = "length xs"
  have n: "0 < ?n" "?n \<le> 2 ^ 46" "xs \<noteq> []" using assms by (auto simp: small_samples_def)
  have p: "percentage (f64_lit 100)" by (rule percentage_lit) simp_all
  have e: "exact (of_nat (?n - 1) * 100)" "exact (of_nat (?n - 1))"
    using n exact_nat_times [of "?n - 1"] exact_of_nat [of "?n - 1"] by (simp_all del: of_nat_diff)
  have "f64_val (rank_of ?n (f64_lit 100)) = of_nat (?n - 1)"
    unfolding rank_of_val(3) [OF n(1,2) p] lit_exact(4) using e by (simp add: exact_def del: of_nat_diff)
  then have lo: "lo_of ?n (f64_lit 100) = ?n - 1" by (simp add: lo_of_def del: of_nat_diff)
  obtain r where r: "percentile checks xs (f64_lit 100) = Ret r" "is_finite r"
    "of_nat (unat (xs ! (?n - 1))) \<le> f64_val r" "f64_val r \<le> of_nat (unat (xs ! (?n - 1)))"
    using percentile_between [OF assms p, of checks] unfolding lo by auto
  then show thesis using that [OF r(1,2)] n(3) by (simp add: last_conv_nth)
qed

lemma percentile_in_range:
  assumes "small_samples xs" "sorted xs" "percentage p"
  obtains r where "percentile checks xs p = Ret r" "is_finite r"
    "of_nat (unat (hd xs)) \<le> f64_val r" "f64_val r \<le> of_nat (unat (last xs))"
proof -
  have n: "0 < length xs" "length xs \<le> 2 ^ 46" "xs \<noteq> []" using assms(1) by (auto simp: small_samples_def)
  have low: "of_nat (unat (hd xs)) \<le> (of_nat (unat (xs ! i)) :: rat)" if "i < length xs" for i
  proof -
    have "hd xs \<le> xs ! i" using sorted_nth_mono [OF assms(2), of 0 i] that n(3) by (simp add: hd_conv_nth)
    then show ?thesis by (simp only: of_nat_le_iff word_le_nat_alt)
  qed
  have high: "(of_nat (unat (xs ! i)) :: rat) \<le> of_nat (unat (last xs))" if "i < length xs" for i
  proof -
    have "i \<le> length xs - 1" using that by simp
    then have "xs ! i \<le> last xs" using sorted_nth_mono [OF assms(2), of i "length xs - 1"] n(3) by (simp add: last_conv_nth)
    then show ?thesis by (simp only: of_nat_le_iff word_le_nat_alt)
  qed
  note hi = hi_bounds [OF lo_of_bounds(1) [OF n(1,2) assms(3)] n(1)]
  obtain r where r: "percentile checks xs p = Ret r" "is_finite r"
    "of_nat (unat (xs ! lo_of (length xs) p)) \<le> f64_val r"
    "f64_val r \<le> of_nat (unat (xs ! min (lo_of (length xs) p + 1) (length xs - 1)))"
    by (rule percentile_between [OF assms])
  have "of_nat (unat (hd xs)) \<le> f64_val r" using low [of "lo_of (length xs) p"] hi r(3) by (blast intro: order_trans)
  moreover have "f64_val r \<le> of_nat (unat (last xs))" using high hi r(4) by (blast intro: order_trans)
  ultimately show thesis using that r(1,2) by blast
qed

text \<open>
  C28: the percentiles. For at most \<open>2 ^ 46\<close> sorted samples below \<open>2 ^ 53\<close> no index is out of range and
  nothing overflows or rounds out of order: each percentile is a finite number between the least and the
  greatest sample, a greater percentage never gives a smaller one, and the hundredth is
  the maximum.
\<close>

theorem percentiles_ordered:
  assumes "small_samples xs" "sorted xs" "percentage p" "percentage q" "f64_val p \<le> f64_val q"
  shows "\<exists>r s. percentile checks xs p = Ret r \<and> percentile checks xs q = Ret s \<and> is_finite r \<and> is_finite s \<and>
    of_nat (unat (hd xs)) \<le> f64_val r \<and> f64_val r \<le> f64_val s \<and> f64_val s \<le> of_nat (unat (last xs)) \<and>
    (f64_val q = 100 \<longrightarrow> f64_val s = of_nat (unat (last xs)))"
proof -
  obtain r where r: "percentile checks xs p = Ret r" "is_finite r" "of_nat (unat (hd xs)) \<le> f64_val r"
    by (rule percentile_in_range [OF assms(1-3)])
  obtain s where s: "percentile checks xs q = Ret s" "is_finite s" "f64_val s \<le> of_nat (unat (last xs))"
    by (rule percentile_in_range [OF assms(1,2,4)])
  have "f64_val s = of_nat (unat (last xs))" if q: "f64_val q = 100"
  proof (rule percentile_100 [OF assms(1,2), of checks])
    fix t assume t: "percentile checks xs (f64_lit 100) = Ret t" "f64_val t = of_nat (unat (last xs))"
    have p100: "percentage (f64_lit 100)" by (rule percentage_lit) simp_all
    have "f64_val t \<le> f64_val s"
      using percentile_mono [OF assms(1,2) p100 assms(4) _ t(1) s(1)] q by (simp add: lit_exact)
    with t(2) s(3) show ?thesis by simp
  qed
  then show ?thesis
    using r s percentile_mono [OF assms r(1) s(1)] by blast
qed

theorem percentiles_ordered_witness:
  "\<exists>r s. percentile True [1000, 1500, 90000] (f64_lit 50) = Ret r \<and>
     percentile True [1000, 1500, 90000] (f64_lit 100) = Ret s \<and>
     1000 \<le> f64_val r \<and> f64_val r \<le> f64_val s \<and> f64_val s = 90000"
proof -
  have s: "small_samples [1000, 1500, 90000]" "sorted [1000, 1500, 90000 :: u64]"
    by (simp_all add: small_samples_def word_le_nat_alt)
  have p: "percentage (f64_lit 50)" "percentage (f64_lit 100)" "f64_val (f64_lit 50) \<le> f64_val (f64_lit 100)"
    using percentage_lit f64_lit_mono by simp_all
  from percentiles_ordered [OF s p, of True] show ?thesis
    using lit_exact(4) by auto
qed

end
