(* ===== verification/Latency_Report.thy ===== *)
theory Latency_Report
  imports Latency_Stats "HOL-Library.Multiset"
begin

text \<open>
  What the benchmark prints: the histogram counts every sample once in its bucket, the summary is
  ordered and exists exactly when there are samples, and the comparison bars are bounded.
\<close>

section \<open>The histogram\<close>

lemma partition_point_iff:
  assumes "sorted bs"
  shows "partition_point (\<lambda>b. b \<le> v) bs = i \<longleftrightarrow>
    i \<le> length bs \<and> (i = 0 \<or> bs ! (i - 1) \<le> v) \<and> (i = length bs \<or> v < bs ! i)"
proof
  assume i: "partition_point (\<lambda>b. b \<le> v) bs = i"
  then have l: "i = length (takeWhile (\<lambda>b. b \<le> v) bs)" by (simp add: partition_point_def)
  have "bs ! (i - 1) \<le> v" if "i \<noteq> 0"
  proof -
    have less: "i - 1 < length (takeWhile (\<lambda>b. b \<le> v) bs)" using that l by simp
    then have "bs ! (i - 1) \<in> set (takeWhile (\<lambda>b. b \<le> v) bs)" using nth_mem takeWhile_nth by metis
    then show ?thesis by (blast dest: set_takeWhileD)
  qed
  moreover have "v < bs ! i" if "i \<noteq> length bs"
    using nth_length_takeWhile [of "\<lambda>b. b \<le> v" bs] that length_takeWhile_le [of "\<lambda>b. b \<le> v" bs] by (simp add: l)
  ultimately show "i \<le> length bs \<and> (i = 0 \<or> bs ! (i - 1) \<le> v) \<and> (i = length bs \<or> v < bs ! i)"
    using l length_takeWhile_le [of "\<lambda>b. b \<le> v" bs] by auto
next
  assume r: "i \<le> length bs \<and> (i = 0 \<or> bs ! (i - 1) \<le> v) \<and> (i = length bs \<or> v < bs ! i)"
  have "takeWhile (\<lambda>b. b \<le> v) bs = take i bs"
  proof (rule takeWhile_eq_take_P_nth)
    fix j assume "j < i" "j < length bs"
    then have "bs ! j \<le> bs ! (i - 1)" using r by (intro sorted_nth_mono [OF assms]) auto
    with r \<open>j < i\<close> show "bs ! j \<le> v" by auto
  qed (use r in auto)
  with r show "partition_point (\<lambda>b. b \<le> v) bs = i" by (simp add: partition_point_def)
qed

lemma sorted_boundaries: "sorted boundaries"
  by (simp add: boundaries_def word_le_nat_alt)

text \<open>The number of buckets, one more than boundaries.\<close>

definition n_buckets :: nat where
  "n_buckets = length hist_labels"

lemma length_boundaries: "length boundaries = 14" "length hist_labels = n_buckets" "n_buckets = 15"
  by (simp_all add: boundaries_def hist_labels_def n_buckets_def)

definition in_bucket :: "nat \<Rightarrow> u64 \<Rightarrow> bool" where
  "in_bucket i v \<longleftrightarrow> (i = 0 \<or> boundaries ! (i - 1) \<le> v) \<and> (i = 14 \<or> v < boundaries ! i)"

lemma bucket_iff: "bucket v = i \<longleftrightarrow> i \<le> 14 \<and> in_bucket i v"
  unfolding bucket_def partition_point_iff [OF sorted_boundaries]
  by (simp add: length_boundaries in_bucket_def)

definition bucket_count :: "u64 list \<Rightarrow> nat \<Rightarrow> nat" where
  "bucket_count xs i = length (filter (in_bucket i) xs)"

lemma bucket_count_Cons: "i \<le> 14 \<Longrightarrow> bucket_count (v # vs) i = (if bucket v = i then 1 else 0) + bucket_count vs i"
  by (simp add: bucket_count_def bucket_iff)

lemma bucket_less: "bucket v < n_buckets"
  using bucket_iff [of v "bucket v"] by (simp add: length_boundaries(3))

lemma count_buckets_eq:
  "length counts = n_buckets \<Longrightarrow>
   count_buckets vs counts = Ret (map (\<lambda>i. counts ! i + bucket_count vs i) [0..<n_buckets])"
proof (induction vs arbitrary: counts)
  case Nil
  then show ?case using map_nth [of counts] by (simp add: bucket_count_def)
next
  case (Cons v vs)
  have "map (\<lambda>i. counts[bucket v := counts ! bucket v + 1] ! i + bucket_count vs i) [0..<n_buckets] =
      map (\<lambda>i. counts ! i + bucket_count (v # vs) i) [0..<n_buckets]"
    using bucket_less [of v] Cons.prems
    by (intro map_cong) (auto simp: bucket_count_Cons length_boundaries(3) nth_list_update)
  with Cons bucket_less [of v] show ?case by simp
qed

lemma sum_indicator: "(k :: nat) < n \<Longrightarrow> (\<Sum>i<n. if k = i then 1 else 0 :: nat) = 1"
  by (simp only: sum.delta' finite_lessThan lessThan_iff if_True)

lemma bucket_count_sum: "(\<Sum>i<n_buckets. bucket_count xs i) = length xs"
proof (induction xs)
  case (Cons v vs)
  have "(\<Sum>i<n_buckets. bucket_count (v # vs) i) = (\<Sum>i<n_buckets. (if bucket v = i then 1 else 0) + bucket_count vs i)"
    by (intro sum.cong) (simp_all add: bucket_count_Cons length_boundaries(3))
  with Cons sum_indicator [OF bucket_less] show ?case by (simp add: sum.distrib)
qed (simp add: bucket_count_def)

definition hist_row :: "nat \<Rightarrow> nat \<Rightarrow> (nat \<Rightarrow> nat) \<Rightarrow> nat \<Rightarrow> HistRow" where
  "hist_row n_all peak c i =
     \<lparr>row_label = hist_labels ! i, row_bar = c i * BAR_W div peak, row_count = c i,
      row_pct = f64_div (f64_mul (f64_of_nat (c i)) (f64_lit 100)) (f64_of_nat n_all)\<rparr>"

lemma hist_rows_eq:
  "i \<le> k \<Longrightarrow> k \<le> n_buckets \<Longrightarrow>
   hist_rows n_all peak i (map c [i..<k]) = Ret (map (hist_row n_all peak c) (filter (\<lambda>i. c i \<noteq> 0) [i..<k]))"
proof (induction "k - i" arbitrary: i)
  case (Suc d)
  then have i: "i < k" by simp
  then have "[i..<k] = i # [Suc i..<k]" by (simp add: upt_conv_Cons)
  with Suc i show ?case by (simp add: hist_row_def length_boundaries)
qed simp

lemma foldr_max_ge: "x \<in> set xs \<Longrightarrow> x \<le> foldr max xs (0 :: nat)"
  by (induction xs) auto

lemma foldr_max_in: "foldr max xs (0 :: nat) = 0 \<or> foldr max xs 0 \<in> set xs"
  by (induction xs) (auto simp: max_def)

lemma sum_list_filter_nonzero: "sum_list (map f (filter (\<lambda>i. f i \<noteq> 0) xs)) = sum_list (map f xs)" for f :: "'a \<Rightarrow> nat"
  by (induction xs) simp_all

lemma bar_bound: "c \<le> peak \<Longrightarrow> c * n div peak \<le> n" for c peak n :: nat
  using div_le_mono [of "c * n" "peak * n" peak] by (cases "peak = 0") simp_all

lemma histogram_eq:
  "histogram xs = Ret (map (hist_row (length xs) (max (foldr max (map (bucket_count xs) [0..<n_buckets]) 0) 1) (bucket_count xs))
     (filter (\<lambda>i. bucket_count xs i \<noteq> 0) [0..<n_buckets]))"
proof -
  have "count_buckets xs (replicate n_buckets 0) = Ret (map (bucket_count xs) [0..<n_buckets])"
    by (simp add: count_buckets_eq cong: map_cong)
  then show ?thesis
    using hist_rows_eq [of 0 n_buckets "length xs" _ "bucket_count xs"]
    by (simp add: histogram_def length_boundaries(2))
qed

text \<open>
  C37: the histogram is exact. It never panics; it has one row for each bucket that holds a sample, in
  order, with the number of samples between the bucket's boundaries, so that the rows count
  every sample once; no bar is longer than 40 and that of the fullest bucket is 40.
\<close>

theorem histogram_exact:
  "\<exists>rows. histogram xs = Ret rows \<and>
    map row_label rows = map (\<lambda>i. hist_labels ! i) (filter (\<lambda>i. bucket_count xs i \<noteq> 0) [0..<n_buckets]) \<and>
    map row_count rows = map (bucket_count xs) (filter (\<lambda>i. bucket_count xs i \<noteq> 0) [0..<n_buckets]) \<and>
    sum_list (map row_count rows) = length xs \<and>
    (\<forall>row \<in> set rows. row_bar row \<le> 40) \<and> (xs \<noteq> [] \<longrightarrow> (\<exists>row \<in> set rows. row_bar row = 40))"
proof -
  let ?c = "bucket_count xs" and ?cs = "map (bucket_count xs) [0..<n_buckets]"
  let ?is = "filter (\<lambda>i. ?c i \<noteq> 0) [0..<n_buckets]"
  define peak where "peak = max (foldr max ?cs 0) 1"
  let ?rows = "map (hist_row (length xs) peak ?c) ?is"
  have h: "histogram xs = Ret ?rows" by (simp add: histogram_eq peak_def)
  have le: "?c i \<le> peak" if "i < n_buckets" for i
    using foldr_max_ge [of "?c i" ?cs] that by (simp add: peak_def)
  have "0 < peak" by (simp add: peak_def)
  then have bars: "\<forall>row \<in> set ?rows. row_bar row \<le> 40"
    using le by (auto simp: hist_row_def BAR_W_def less_mult_imp_div_less div_le_mono intro!: bar_bound)
  have "sum_list (map ?c ?is) = length xs"
    unfolding sum_list_filter_nonzero
    using bucket_count_sum [of xs] by (simp add: interv_sum_list_conv_sum_set_nat atLeast0LessThan)
  moreover have "\<exists>row \<in> set ?rows. row_bar row = 40" if "xs \<noteq> []"
  proof -
    from that bucket_count_sum [of xs] obtain i where i: "i < n_buckets" "?c i \<noteq> 0"
      by (metis (no_types, lifting) length_0_conv lessThan_iff sum.neutral)
    then have "1 \<le> foldr max ?cs 0" using foldr_max_ge [of "?c i" ?cs] by fastforce
    with foldr_max_in [of ?cs] obtain j where "j < n_buckets" "?c j = peak" by (auto simp: peak_def)
    with \<open>0 < peak\<close> show ?thesis by (auto simp: hist_row_def BAR_W_def intro!: bexI [of _ j])
  qed
  ultimately show ?thesis
    using h bars by (intro exI [of _ ?rows]) (simp add: hist_row_def comp_def)
qed

theorem histogram_exact_witness:
  "\<exists>rows. histogram [100, 300, 400, 5000000] = Ret rows \<and> map row_count rows = [1, 2, 1] \<and>
     map row_label rows = [''<250ns'', ''250-500ns'', ''>2ms''] \<and>
     (\<forall>row \<in> set rows. row_bar row \<le> 40) \<and> (\<exists>row \<in> set rows. row_bar row = 40)"
proof -
  have "map (bucket_count [100, 300, 400, 5000000]) (filter (\<lambda>i. bucket_count [100, 300, 400, 5000000] i \<noteq> 0) [0..<n_buckets]) = [1, 2, 1]"
    "map (\<lambda>i. hist_labels ! i) (filter (\<lambda>i. bucket_count [100, 300, 400, 5000000] i \<noteq> 0) [0..<n_buckets]) =
       [''<250ns'', ''250-500ns'', ''>2ms'']"
    by code_simp+
  with histogram_exact [of "[100, 300, 400, 5000000]"] show ?thesis by auto
qed

section \<open>The mean\<close>

lemma sum_u_eq:
  "unat acc + sum_list (map unat d) < 2 ^ 64 \<Longrightarrow>
   \<exists>s. sum_u checks acc d = Ret s \<and> unat s = unat acc + sum_list (map unat d)"
proof (induction d arbitrary: acc)
  case (Cons x d)
  then have less: "unat acc + unat x < 2 ^ 64" by simp
  then have "unat (acc + x) = unat acc + unat x" by (simp add: unat_plus_if')
  moreover have "add_u checks acc x = Ret (acc + x)" using less by (intro add_u_Ret) simp
  ultimately show ?case using Cons.IH [of "acc + x"] Cons.prems by (simp add: add.assoc)
qed simp

lemma sum_list_between:
  "(\<And>x. x \<in> set d \<Longrightarrow> a \<le> unat x \<and> unat x \<le> b) \<Longrightarrow>
   a * length d \<le> sum_list (map unat d) \<and> sum_list (map unat d) \<le> b * length d"
  by (induction d) (auto simp: add_le_mono)

lemma mean_between:
  assumes d: "d \<noteq> []" "length d \<le> 2 ^ 46" and sum: "sum_list (map unat d) \<le> 2 ^ 53"
    and ab: "\<And>x. x \<in> set d \<Longrightarrow> a \<le> unat x \<and> unat x \<le> b" "b \<le> 2 ^ 53" "a \<le> b"
  obtains m where "mean checks d = Ret m" "is_finite m" "of_nat a \<le> f64_val m" "f64_val m \<le> of_nat b"
proof -
  let ?n = "length d" and ?s = "sum_list (map unat d)"
  obtain s where s: "sum_u checks 0 d = Ret s" "unat s = ?s"
    using sum_u_eq [of 0 d checks] sum by auto
  have sv: "is_finite (f64_of_u64 s)" "f64_val (f64_of_u64 s) = of_nat ?s"
    unfolding s(2) using f64_of_nat_exact [OF sum] by blast+
  have nv: "is_finite (f64_of_nat ?n)" "f64_val (f64_of_nat ?n) = of_nat ?n"
    using f64_of_nat_exact [of ?n] d(2) by simp_all
  have pos: "(0 :: rat) < of_nat ?n" using d(1) by simp
  have "of_nat (a * ?n) \<le> (of_nat ?s :: rat)" "of_nat ?s \<le> (of_nat (b * ?n) :: rat)"
    using sum_list_between [of d a b] ab(1) by (simp_all only: of_nat_le_iff)
  then have q: "of_nat a \<le> (of_nat ?s / of_nat ?n :: rat)" "of_nat ?s / of_nat ?n \<le> (of_nat b :: rat)"
    using pos by (simp_all only: of_nat_mult pos_le_divide_eq pos_divide_le_eq)
  have b64: "b \<le> 2 ^ 64" using ab(2) by simp
  have "0 \<le> (of_nat ?s / of_nat ?n :: rat)" by simp
  from moderate_nat [OF this q(2) b64] have "moderate (f64_val (f64_of_u64 s) / f64_val (f64_of_nat ?n))"
    unfolding sv nv .
  from f64_div_val [OF sv(1) nv(1) _ this] pos
  have m: "is_finite (f64_div (f64_of_u64 s) (f64_of_nat ?n))"
    "f64_val (f64_div (f64_of_u64 s) (f64_of_nat ?n)) = rnd (of_nat ?s / of_nat ?n)"
    unfolding sv(2) nv(2) by simp_all
  have "of_nat a \<le> f64_val (f64_div (f64_of_u64 s) (f64_of_nat ?n))"
    unfolding m using q(1) ab by (intro rnd_ge exact_of_nat) simp_all
  moreover have "f64_val (f64_div (f64_of_u64 s) (f64_of_nat ?n)) \<le> of_nat b"
    unfolding m using q(2) ab by (intro rnd_le exact_of_nat)
  ultimately show thesis using that m(1) by (simp add: mean_def s(1))
qed

section \<open>The summary\<close>

lemma us_val:
  assumes "is_finite x" "0 \<le> f64_val x" "f64_val x \<le> 2 ^ 53"
  shows "is_finite (us x)" "f64_val (us x) = rnd (f64_val x / 1000)"
proof -
  have l: "is_finite (f64_lit 1000)" "f64_val (f64_lit 1000) = 1000"
    using f64_lit_exact [of 1000] moderate_nat [of 1000 1000] by simp_all
  have "moderate (f64_val x / 1000)" by (rule moderate_nat [of _ "2 ^ 53"]) (use assms in simp_all)
  with f64_div_val [OF assms(1) l(1)] show "is_finite (us x)" "f64_val (us x) = rnd (f64_val x / 1000)"
    by (simp_all add: us_def l(2))
qed

lemma us_mono:
  assumes "is_finite x" "is_finite y" "0 \<le> f64_val x" "f64_val x \<le> f64_val y" "f64_val y \<le> 2 ^ 53"
  shows "f64_val (us x) \<le> f64_val (us y)"
proof -
  have "0 \<le> f64_val y" "f64_val x \<le> 2 ^ 53" using assms by linarith+
  with assms us_val(2) [of x] us_val(2) [of y] show ?thesis
    by (simp add: rnd_mono divide_right_mono)
qed

lemma sort_samples:
  assumes "lats \<noteq> []" "length lats \<le> 2 ^ 46" "sum_list (map unat lats) \<le> 2 ^ 53"
  shows "small_samples (sort lats)" "sum_list (map unat (sort lats)) = sum_list (map unat lats)"
    "\<And>x. x \<in> set (sort lats) \<Longrightarrow> unat (hd (sort lats)) \<le> unat x \<and> unat x \<le> unat (last (sort lats))"
    "unat (last (sort lats)) \<le> 2 ^ 53"
proof -
  let ?s = "sort lats"
  have ne: "?s \<noteq> []" using assms(1) by (metis set_empty set_sort)
  have "mset (map unat ?s) = mset (map unat lats)" by simp
  then show sum: "sum_list (map unat ?s) = sum_list (map unat lats)" by (metis sum_mset_sum_list)
  have le: "unat x \<le> 2 ^ 53" if "x \<in> set ?s" for x
  proof -
    have "unat x \<le> sum_list (map unat ?s)" using that by (intro member_le_sum_list) auto
    also have "\<dots> \<le> 2 ^ 53" using assms(3) unfolding sum .
    finally show ?thesis .
  qed
  then show "small_samples ?s" using assms ne by (simp add: small_samples_def)
  show "unat (last ?s) \<le> 2 ^ 53" using le last_in_set [OF ne] by blast
  fix x assume "x \<in> set ?s"
  then obtain i where i: "i < length ?s" "x = ?s ! i" by (metis in_set_conv_nth)
  then have "?s ! 0 \<le> x" "x \<le> ?s ! (length ?s - 1)"
    using sorted_nth_mono [of ?s 0 i] sorted_nth_mono [of ?s i "length ?s - 1"] by auto
  then show "unat (hd ?s) \<le> unat x \<and> unat x \<le> unat (last ?s)"
    using ne by (simp add: hd_conv_nth last_conv_nth word_le_nat_alt)
qed

lemma stdev_Ret: "mean checks d = Ret m \<Longrightarrow> \<exists>sd. stdev checks square d = Ret sd"
  by (simp add: stdev_def)

text \<open>The four percentiles of the summary, in order between the extremes.\<close>

lemma four_percentiles:
  assumes "small_samples xs" "sorted xs"
  obtains r1 r2 r3 r4 where "percentile checks xs (f64_lit 50) = Ret r1" "percentile checks xs (f64_lit 95) = Ret r2"
    "percentile checks xs (f64_lit 99) = Ret r3" "percentile checks xs (f64_lit (999 / 10)) = Ret r4"
    "is_finite r1 \<and> is_finite r2 \<and> is_finite r3 \<and> is_finite r4"
    "of_nat (unat (hd xs)) \<le> f64_val r1" "f64_val r1 \<le> f64_val r2" "f64_val r2 \<le> f64_val r3"
    "f64_val r3 \<le> f64_val r4" "f64_val r4 \<le> of_nat (unat (last xs))"
proof -
  have pc: "percentage (f64_lit 50)" "percentage (f64_lit 95)" "percentage (f64_lit 99)" "percentage (f64_lit (999 / 10))"
    by (simp_all add: percentage_lit)
  note range = percentile_in_range [OF assms]
  obtain r1 where r1: "percentile checks xs (f64_lit 50) = Ret r1" "is_finite r1"
    "of_nat (unat (hd xs)) \<le> f64_val r1" by (rule range [OF pc(1)])
  obtain r2 where r2: "percentile checks xs (f64_lit 95) = Ret r2" "is_finite r2" by (rule range [OF pc(2)])
  obtain r3 where r3: "percentile checks xs (f64_lit 99) = Ret r3" "is_finite r3" by (rule range [OF pc(3)])
  obtain r4 where r4: "percentile checks xs (f64_lit (999 / 10)) = Ret r4" "is_finite r4"
    "f64_val r4 \<le> of_nat (unat (last xs))" by (rule range [OF pc(4)])
  have lits: "f64_val (f64_lit 50) \<le> f64_val (f64_lit 95)" "f64_val (f64_lit 95) \<le> f64_val (f64_lit 99)"
    "f64_val (f64_lit 99) \<le> f64_val (f64_lit (999 / 10))"
    by (rule f64_lit_mono; simp)+
  note mono = percentile_mono [OF assms]
  show thesis
    by (rule that [OF r1(1) r2(1) r3(1) r4(1) _ r1(3) mono [OF pc(1,2) lits(1) r1(1) r2(1)]
          mono [OF pc(2,3) lits(2) r2(1) r3(1)] mono [OF pc(3,4) lits(3) r3(1) r4(1)] r4(3)])
      (use r1 r2 r3 r4 in blast)
qed

lemma print_stats_ordered:
  assumes "lats \<noteq> []" "length lats \<le> 2 ^ 46" "sum_list (map unat lats) \<le> 2 ^ 53"
  shows "\<exists>S. print_stats checks square lats show_hist = Ret S \<and> samples S = length lats \<and>
       f64_val (stat_min S) \<le> f64_val (stat_p50 S) \<and> f64_val (stat_p50 S) \<le> f64_val (stat_p95 S) \<and>
       f64_val (stat_p95 S) \<le> f64_val (stat_p99 S) \<and> f64_val (stat_p99 S) \<le> f64_val (stat_p999 S) \<and>
       f64_val (stat_p999 S) \<le> f64_val (stat_max S) \<and>
       f64_val (stat_min S) \<le> f64_val (stat_mean S) \<and> f64_val (stat_mean S) \<le> f64_val (stat_max S)"
proof -
  let ?s = "sort lats"
  let ?lo = "f64_of_u64 (hd ?s)" and ?hi = "f64_of_u64 (last ?s)"
  note s = sort_samples [OF assms]
  have ne: "?s \<noteq> []" "length ?s \<le> 2 ^ 46" using s(1) by (simp_all add: small_samples_def)
  obtain r1 r2 r3 r4 where p: "percentile checks ?s (f64_lit 50) = Ret r1" "percentile checks ?s (f64_lit 95) = Ret r2"
    "percentile checks ?s (f64_lit 99) = Ret r3" "percentile checks ?s (f64_lit (999 / 10)) = Ret r4"
    and fin: "is_finite r1 \<and> is_finite r2 \<and> is_finite r3 \<and> is_finite r4"
    and ord: "of_nat (unat (hd ?s)) \<le> f64_val r1" "f64_val r1 \<le> f64_val r2" "f64_val r2 \<le> f64_val r3"
    "f64_val r3 \<le> f64_val r4" "f64_val r4 \<le> of_nat (unat (last ?s))"
    by (rule four_percentiles [OF s(1) sorted_sort])
  have hl: "unat (hd ?s) \<le> unat (last ?s)" using s(3) [OF hd_in_set [OF ne(1)]] by blast
  obtain m where m: "mean checks ?s = Ret m" "is_finite m"
    "of_nat (unat (hd ?s)) \<le> f64_val m" "f64_val m \<le> of_nat (unat (last ?s))"
    using mean_between [OF ne, where a = "unat (hd ?s)" and b = "unat (last ?s)" and checks = checks] s(2-4) hl assms(3)
    by metis
  obtain sd where sd: "stdev checks square ?s = Ret sd" using stdev_Ret [OF m(1)] by blast
  have lo: "is_finite ?lo" "f64_val ?lo = of_nat (unat (hd ?s))"
    and hi: "is_finite ?hi" "f64_val ?hi = of_nat (unat (last ?s))"
    using f64_of_nat_exact s(4) hl by (simp_all only: order_trans [OF hl s(4)])
  have "(of_nat (unat (last ?s)) :: rat) \<le> of_nat (2 ^ 53)" using s(4) by (simp only: of_nat_le_iff)
  then have "of_nat (unat (last ?s)) \<le> (2 ^ 53 :: rat)" by simp
  moreover have "(0 :: rat) \<le> of_nat (unat (hd ?s))" by (rule of_nat_0_le_iff)
  ultimately have "f64_val (us ?lo) \<le> f64_val (us r1) \<and> f64_val (us r1) \<le> f64_val (us r2) \<and>
    f64_val (us r2) \<le> f64_val (us r3) \<and> f64_val (us r3) \<le> f64_val (us r4) \<and> f64_val (us r4) \<le> f64_val (us ?hi) \<and>
    f64_val (us ?lo) \<le> f64_val (us m) \<and> f64_val (us m) \<le> f64_val (us ?hi)"
    using ord m(3,4) lo(2) hi(2) by (intro conjI us_mono lo(1) hi(1) m(2)) ((simp add: fin) | linarith)+
  moreover have "index ?s 0 = Ret (hd ?s)" using assms(1) ne by (simp add: hd_conv_nth)
  ultimately show ?thesis
    using assms(1) ne by (cases show_hist) (simp_all add: print_stats_def Let_def p m sd histogram_eq)
qed

text \<open>
  C27: the summary. With at most \<open>2 ^ 46\<close> samples that sum to at most \<open>2 ^ 53\<close>, printing
  the statistics panics exactly when there is no sample; otherwise the numbers printed are in
  order, from the minimum over the four percentiles to the maximum, and the mean is between the
  extremes, all in microseconds.
\<close>

theorem print_stats_outcome:
  assumes "length lats \<le> 2 ^ 46" "sum_list (map unat lats) \<le> 2 ^ 53"
  shows "(print_stats checks square lats show_hist = Panic \<longleftrightarrow> lats = []) \<and>
    (\<forall>S. print_stats checks square lats show_hist = Ret S \<longrightarrow> samples S = length lats \<and>
       f64_val (stat_min S) \<le> f64_val (stat_p50 S) \<and> f64_val (stat_p50 S) \<le> f64_val (stat_p95 S) \<and>
       f64_val (stat_p95 S) \<le> f64_val (stat_p99 S) \<and> f64_val (stat_p99 S) \<le> f64_val (stat_p999 S) \<and>
       f64_val (stat_p999 S) \<le> f64_val (stat_max S) \<and>
       f64_val (stat_min S) \<le> f64_val (stat_mean S) \<and> f64_val (stat_mean S) \<le> f64_val (stat_max S))"
proof (cases "lats = []")
  case True
  then show ?thesis by (simp add: print_stats_def index_def)
next
  case False
  from print_stats_ordered [OF this assms, of checks square show_hist] False show ?thesis by auto
qed

theorem print_stats_outcome_witness:
  "print_stats True (\<lambda>x. f64_mul x x) [] False = Panic \<and>
   (\<exists>S. print_stats True (\<lambda>x. f64_mul x x) [900, 100, 500] True = Ret S \<and> samples S = 3 \<and>
      f64_val (stat_p50 S) \<le> f64_val (stat_p99 S) \<and> f64_val (stat_mean S) \<le> f64_val (stat_max S))"
proof
  show "print_stats True (\<lambda>x. f64_mul x x) [] False = Panic"
    using print_stats_outcome [of "[]" True "\<lambda>x. f64_mul x x" False] by simp
  have "length [900, 100, 500 :: u64] \<le> 2 ^ 46" "sum_list (map unat [900, 100, 500 :: u64]) \<le> 2 ^ 53" by simp_all
  note stats = print_stats_outcome [OF this, of True "\<lambda>x. f64_mul x x" True]
  then obtain S where "print_stats True (\<lambda>x. f64_mul x x) [900, 100, 500] True = Ret S"
    by (cases "print_stats True (\<lambda>x. f64_mul x x) [900, 100, 500] True") simp_all
  with stats show "\<exists>S. print_stats True (\<lambda>x. f64_mul x x) [900, 100, 500] True = Ret S \<and> samples S = 3 \<and>
      f64_val (stat_p50 S) \<le> f64_val (stat_p99 S) \<and> f64_val (stat_mean S) \<le> f64_val (stat_max S)"
    by (auto intro: order_trans)
qed

section \<open>The comparison\<close>

lemma lit_48: "f64_lit 48 = Finite False 48"
proof -
  have "round_mag 48 = 48" using exact_round_mag [of 48] by simp
  moreover have "\<not> (2 :: rat) ^ 1024 \<le> 48"
  proof -
    have "(48 :: rat) < 2 ^ 6" by simp
    also have "\<dots> \<le> 2 ^ 1024" by (intro power_increasing) simp_all
    finally show ?thesis by simp
  qed
  ultimately show ?thesis by (simp only: f64_of_rat_def Let_def) simp
qed

lemma bar_bounded:
  assumes "wf_f64 x"
  shows "unat (f64_to_uint (f64_min x (f64_lit 48)) :: u64) \<le> 48"
proof -
  define y where "y = f64_min x (f64_lit 48)"
  have wf: "wf_f64 y" unfolding y_def using assms by simp
  have y: "y = Infinity True \<or> is_finite y \<and> f64_val y \<le> 48"
    by (cases x) (auto simp: y_def lit_48 f64_min_def)
  show ?thesis
  proof (cases "is_finite y \<and> 0 \<le> f64_val y")
    case True
    then have "f64_val y < 2 ^ LENGTH(64)" "\<lfloor>f64_val y\<rfloor> \<le> 48" using y by (auto simp: floor_le_iff)
    with f64_to_uint_val [of y, where 'a = 64] True wf show ?thesis
      by (simp add: y_def nat_le_iff)
  next
    case False
    with y wf have "f64_to_uint y = (0 :: u64)" by (cases y) (auto split: if_splits)
    then show ?thesis by (simp add: y_def)
  qed
qed

lemma compare_row_ok:
  assumes "small_samples b" "sorted b" "small_samples r" "sorted r" "percentage (snd lp)"
  shows "\<exists>row. compare_row checks b r lp = Ret row \<and> cmp_bar row \<le> 48"
proof -
  obtain rv where r: "percentile checks r (snd lp) = Ret rv"
    "rv = interpolate (unat (r ! lo_of (length r) (snd lp)))
      (unat (r ! min (lo_of (length r) (snd lp) + 1) (length r - 1))) (fraction_of (length r) (snd lp))"
    by (rule percentile_between [OF assms(3-5)])
  obtain bv where b: "percentile checks b (snd lp) = Ret bv"
    "bv = interpolate (unat (b ! lo_of (length b) (snd lp)))
      (unat (b ! min (lo_of (length b) (snd lp) + 1) (length b - 1))) (fraction_of (length b) (snd lp))"
    by (rule percentile_between [OF assms(1,2,5)])
  have n: "0 < length r" "length r \<le> 2 ^ 46" "0 < length b" "length b \<le> 2 ^ 46"
    using assms(1,3) by (auto simp: small_samples_def)
  have wf: "wf_f64 (fraction_of (length r) (snd lp))" "wf_f64 (fraction_of (length b) (snd lp))"
    unfolding fraction_of_def using rank_of_val(2) [OF n(1,2) assms(5)] rank_of_val(2) [OF n(3,4) assms(5)] by simp_all
  have "wf_f64 (interpolate x y f)" if "wf_f64 f" for x y f using that by (simp add: interpolate_def)
  with wf have "wf_f64 rv" "wf_f64 bv" unfolding r(2) b(2) by blast+
  then show ?thesis
    using bar_bounded by (simp add: compare_row_def b(1) r(1) Let_def)
qed

lemma each_Ret: "(\<And>x. x \<in> set xs \<Longrightarrow> \<exists>y. f x = Ret y \<and> P y) \<Longrightarrow> \<exists>ys. each f xs = Ret ys \<and> length ys = length xs \<and> list_all P ys"
proof (induction xs)
  case (Cons x xs)
  then obtain y ys where "f x = Ret y" "P y" "each f xs = Ret ys" "length ys = length xs" "list_all P ys" by force
  then show ?case by simp
qed simp

text \<open>
  For two nonempty sample sets of the sizes above it never panics, prints one row for each of the five
  percentages, and no bar is longer than 48, even where the ratio is infinite.
\<close>

lemma print_comparison_bars:
  assumes "bus \<noteq> []" "length bus \<le> 2 ^ 46" "sum_list (map unat bus) \<le> 2 ^ 53"
    and "redis \<noteq> []" "length redis \<le> 2 ^ 46" "sum_list (map unat redis) \<le> 2 ^ 53"
  shows "\<exists>rows a b. print_comparison checks bus redis = Ret (rows, a, b) \<and> length rows = 5 \<and>
    list_all (\<lambda>row. cmp_bar row \<le> 48) rows"
proof -
  note b = sort_samples(1) [OF assms(1-3)] and r = sort_samples(1) [OF assms(4-6)]
  let ?lps = "[(''p50'', f64_lit 50), (''p95'', f64_lit 95), (''p99'', f64_lit 99), (''p99.9'', f64_lit (999 / 10)),
         (''max'', f64_lit 100)]"
  have "\<exists>row. compare_row checks (sort bus) (sort redis) lp = Ret row \<and> cmp_bar row \<le> 48" if "lp \<in> set ?lps" for lp
    by (rule compare_row_ok [OF b sorted_sort r sorted_sort]) (use that in \<open>auto simp: percentage_lit\<close>)
  then have "\<exists>rows. each (compare_row checks (sort bus) (sort redis)) ?lps = Ret rows \<and> length rows = length ?lps \<and>
      list_all (\<lambda>row. cmp_bar row \<le> 48) rows"
    by (rule each_Ret)
  then obtain rows where rows: "each (compare_row checks (sort bus) (sort redis)) ?lps = Ret rows"
    "length rows = 5" "list_all (\<lambda>row. cmp_bar row \<le> 48) rows"
    by (auto simp del: each.simps)
  obtain b1 b3 where "percentile checks (sort bus) (f64_lit 50) = Ret b1" "percentile checks (sort bus) (f64_lit 99) = Ret b3"
    by (rule four_percentiles [OF b sorted_sort])
  moreover obtain r1 r3 where "percentile checks (sort redis) (f64_lit 50) = Ret r1"
    "percentile checks (sort redis) (f64_lit 99) = Ret r3"
    by (rule four_percentiles [OF r sorted_sort])
  ultimately show ?thesis
    using rows by (simp only: print_comparison_def compare_points_def Let_def obind.simps) simp
qed

end
