(* ===== verification/Latency_Bench.thy ===== *)
theory Latency_Bench
  imports Publisher_Client Subscriber_Client Bench_Prelude
begin

text \<open>
  The measurements of the latency benchmark (\<open>wait_until\<close> and the four \<open>bench_\<close> functions of
  \<open>bench/src/bin/latency.rs\<close>). The monotonic clock of the publishing thread is the sequence of
  its readings, a position in it is the number of readings taken. What the subscribing threads
  receive is an argument; that the publisher waits for them is the subject of
  \<open>Latency_Rendezvous\<close>. The functions of the \<open>redis\<close> package are arguments.
\<close>

section \<open>Definitions\<close>

definition BENCH_CHANNEL :: u32 where
  "BENCH_CHANNEL = 9999"

definition BENCH_MSG_TYPE :: u8 where
  "BENCH_MSG_TYPE = 99"

definition REDIS_CHANNEL :: string where
  "REDIS_CHANNEL = ''alta_bus:bench''"

text \<open>\<open>now_ns\<close>: nanoseconds since the first call, which fixed \<open>t0\<close>.\<close>

definition since :: "Instant \<Rightarrow> Instant \<Rightarrow> u64" where
  "since t0 t = as_u64 (elapsed t t0)"

text \<open>\<open>wait_until\<close>: the number of readings taken when it returns, \<open>None\<close> when it never does.\<close>

partial_function (option) wait_until :: "(nat \<Rightarrow> Instant) \<Rightarrow> Instant \<Rightarrow> u64 \<Rightarrow> nat \<Rightarrow> nat option" where
  "wait_until clk start target t =
     (if target \<le> since start (clk t) then Some (Suc t) else wait_until clk start target (Suc t))"

definition interval_ns :: "u64 \<Rightarrow> u64" where
  "interval_ns rate_hz = (if 0 < rate_hz then 1000000000 div rate_hz else 0)"

text \<open>\<open>expect\<close> on a \<open>Result\<close>.\<close>

definition expect :: "'e + 'a \<Rightarrow> 'a outcome" where
  "expect r = (case r of Inl e \<Rightarrow> Panic | Inr x \<Rightarrow> Ret x)"

text \<open>The receiving loop, \<open>k\<close> messages from number \<open>i\<close> on; \<open>now i\<close> is the reading after message \<open>i\<close>.\<close>

definition record_latency :: "u64 \<Rightarrow> bool \<Rightarrow> u8 list \<Rightarrow> u64 list \<Rightarrow> u64 list outcome" where
  "record_latency recv_ns warm payload lats =
     (if 8 \<le> length payload then
        obind (slice 0 8 payload) (\<lambda>b.
        case le_array 8 b of
          None \<Rightarrow> Panic
        | Some send_ns \<Rightarrow> Ret (if warm then lats @ [saturating_sub recv_ns send_ns] else lats))
      else Ret lats)"

fun collect ::
  "('s \<Rightarrow> (u8 list \<times> 's) outcome) \<Rightarrow> (nat \<Rightarrow> u64) \<Rightarrow> nat \<Rightarrow> nat \<Rightarrow> nat \<Rightarrow> u64 list \<Rightarrow> 's \<Rightarrow> (u64 list \<times> 's) outcome" where
  "collect recv now n_warmup i 0 lats s = Ret (lats, s)"
| "collect recv now n_warmup i (Suc k) lats s =
     obind (recv s) (\<lambda>(payload, s).
     obind (record_latency (now i) (n_warmup \<le> i) payload lats) (\<lambda>lats.
       collect recv now n_warmup (Suc i) k lats s))"

definition bus_recv :: "Subscriber \<Rightarrow> (u8 list \<times> Subscriber) outcome" where
  "bus_recv sub = obind (next_raw sub) (\<lambda>(res, sub). obind (expect res) (\<lambda>(_, payload). Ret (payload, sub)))"

text \<open>The publishing loop, with busy-wait rate control.\<close>

fun publish_loop ::
  "bool \<Rightarrow> (nat \<Rightarrow> Instant) \<Rightarrow> Instant \<Rightarrow> Instant \<Rightarrow> u64 \<Rightarrow> (nat \<Rightarrow> u8 list \<Rightarrow> 'p \<Rightarrow> (('e + unit) \<times> 'p) outcome)
     \<Rightarrow> nat \<Rightarrow> nat \<Rightarrow> nat \<Rightarrow> 'p \<Rightarrow> (('e + unit) \<times> 'p) outcome option" where
  "publish_loop checks clk t0 run_start interval send i 0 t p = Some (Ret (Inr (), p))"
| "publish_loop checks clk t0 run_start interval send i (Suc k) t p =
     (case (if 0 < interval then
              (case mul_u checks (word_of_nat i) interval of
                 Panic \<Rightarrow> Some Panic
               | Ret target \<Rightarrow> map_option Ret (wait_until clk run_start target t))
            else Some (Ret t)) of
        None \<Rightarrow> None
      | Some Panic \<Rightarrow> Some Panic
      | Some (Ret t) \<Rightarrow>
         (case send i (to_le_bytes 8 (since t0 (clk t))) p of
            Panic \<Rightarrow> Some Panic
          | Ret (Inl e, p) \<Rightarrow> Some (Ret (Inl e, p))
          | Ret (Inr _, p) \<Rightarrow> publish_loop checks clk t0 run_start interval send (Suc i) k (Suc t) p))"

definition bus_send :: "(nat \<Rightarrow> clock) \<Rightarrow> nat \<Rightarrow> u8 list \<Rightarrow> Publisher \<Rightarrow> ((io_error + unit) \<times> Publisher) outcome" where
  "bus_send wall i bs p = publish_raw (wall i) p BENCH_CHANNEL BENCH_MSG_TYPE bs"

text \<open>Joining the subscriber threads: a panicked one makes \<open>expect\<close> panic.\<close>

fun join_all :: "u64 list outcome list \<Rightarrow> u64 list outcome" where
  "join_all [] = Ret []"
| "join_all (h # hs) = obind h (\<lambda>l. obind (join_all hs) (\<lambda>ls. Ret (l @ ls)))"

definition finish :: "(('e + unit) \<times> 'p) outcome option \<Rightarrow> u64 list outcome \<Rightarrow> ('e + u64 list) outcome option" where
  "finish published joined =
     (case published of
        None \<Rightarrow> None
      | Some Panic \<Rightarrow> Some Panic
      | Some (Ret (Inl e, _)) \<Rightarrow> Some (Ret (Inl e))
      | Some (Ret (Inr _, _)) \<Rightarrow> Some (obind joined (\<lambda>lats. Ret (Inr lats))))"

text \<open>
  The operating system for the benchmark of the bus: \<open>env_dial\<close> and \<open>env_nodelay\<close> as in the clients, the clock
  of the publishing thread, the wall clock of the headers, the clock readings of the
  subscribers, and the bytes that each of them receives.
\<close>

record BusEnv =
  env_dial :: "string \<Rightarrow> io_error + TcpStream"
  sub_dial :: "nat \<Rightarrow> string \<Rightarrow> io_error + TcpStream"
  env_nodelay :: "TcpStream \<Rightarrow> io_error + unit"
  env_clk :: "nat \<Rightarrow> Instant"
  t_zero :: Instant
  env_wall :: "nat \<Rightarrow> clock"
  recv_now :: "nat \<Rightarrow> nat \<Rightarrow> u64"
  env_inbox :: "nat \<Rightarrow> u8 list"

definition bus_subscriber :: "BusEnv \<Rightarrow> nat \<Rightarrow> nat \<Rightarrow> nat \<Rightarrow> Subscriber \<Rightarrow> u64 list outcome" where
  "bus_subscriber env j n_warmup n_total sub =
     obind (collect bus_recv (recv_now env j) n_warmup 0 n_total []
              (sub\<lparr>reader := (reader sub)\<lparr>incoming := env_inbox env j\<rparr>\<rparr>)) (\<lambda>(lats, _). Ret lats)"

text \<open>The connection of subscriber thread \<open>j\<close>; without one the thread panics.\<close>

definition sub_connect :: "BusEnv \<Rightarrow> string \<Rightarrow> nat \<Rightarrow> Subscriber option" where
  "sub_connect env addr j =
     (case connect_filtered (sub_dial env j) (env_nodelay env) addr [BENCH_CHANNEL] of
        Ret (Inr sub) \<Rightarrow> Some sub
      | _ \<Rightarrow> None)"

text \<open>
  \<open>bench_bus\<close>: when the subscriber cannot connect its thread panics before it reports that it is ready,
  and the wait for it never ends (\<open>None\<close>).
\<close>

definition bench_bus :: "bool \<Rightarrow> BusEnv \<Rightarrow> string \<Rightarrow> u64 \<Rightarrow> u64 \<Rightarrow> u64 \<Rightarrow> (io_error + u64 list) outcome option" where
  "bench_bus checks env addr n_warmup n_msgs rate_hz =
     (case add_u checks n_warmup n_msgs of
        Panic \<Rightarrow> Some Panic
      | Ret n_total \<Rightarrow>
         (case sub_connect env addr 0 of
            None \<Rightarrow> None
          | Some sub \<Rightarrow>
              (case connect (env_dial env) (env_nodelay env) addr of
                 Inl e \<Rightarrow> Some (Ret (Inl e))
               | Inr pb \<Rightarrow>
                   finish (publish_loop checks (env_clk env) (t_zero env) (env_clk env 0) (interval_ns rate_hz)
                             (bus_send (env_wall env)) 0 (unat n_total) 1 pb)
                          (bus_subscriber env 0 (unat n_warmup) (unat n_total) sub))))"

definition bench_bus_fanout ::
  "bool \<Rightarrow> BusEnv \<Rightarrow> string \<Rightarrow> u64 \<Rightarrow> u64 \<Rightarrow> u64 \<Rightarrow> nat \<Rightarrow> (io_error + u64 list) outcome option" where
  "bench_bus_fanout checks env addr n_warmup n_msgs rate_hz n_subs =
     (case add_u checks n_warmup n_msgs of
        Panic \<Rightarrow> Some Panic
      | Ret n_total \<Rightarrow>
         (case those (map (sub_connect env addr) [0..<n_subs]) of
            None \<Rightarrow> None
          | Some subs \<Rightarrow>
              (case connect (env_dial env) (env_nodelay env) addr of
                 Inl e \<Rightarrow> Some (Ret (Inl e))
               | Inr pb \<Rightarrow>
                   finish (publish_loop checks (env_clk env) (t_zero env) (env_clk env 0) (interval_ns rate_hz)
                             (bus_send (env_wall env)) 0 (unat n_total) 1 pb)
                          (join_all (map (\<lambda>(j, sub). bus_subscriber env j (unat n_warmup) (unat n_total) sub)
                             (enumerate 0 subs))))))"

text \<open>
  The \<open>redis\<close> package, as what the benchmark calls of it: \<open>redis 0\<close> for the publishing thread and
  \<open>redis (j + 1)\<close> for subscriber \<open>j\<close>.
\<close>

record ('e, 'cl, 'con, 'ps, 'm) Redis =
  open_client :: "string \<Rightarrow> 'e + 'cl"
  get_connection :: "'cl \<Rightarrow> 'e + 'con"
  subscribe :: "'con \<Rightarrow> string \<Rightarrow> 'e + 'ps"
  get_message :: "'ps \<Rightarrow> ('e + 'm) \<times> 'ps"
  get_payload :: "'m \<Rightarrow> 'e + u8 list"
  publish_cmd :: "string \<Rightarrow> u8 list \<Rightarrow> 'con \<Rightarrow> ('e + int) \<times> 'con"

definition redis_url :: "string \<Rightarrow> string" where
  "redis_url addr = ''redis://'' @ addr"

definition redis_recv :: "('e, 'cl, 'con, 'ps, 'm) Redis \<Rightarrow> 'ps \<Rightarrow> (u8 list \<times> 'ps) outcome" where
  "redis_recv redis ps =
     (let (res, ps) = get_message redis ps in
      obind (expect res) (\<lambda>m. obind (expect (get_payload redis m)) (\<lambda>payload. Ret (payload, ps))))"

definition redis_send :: "('e, 'cl, 'con, 'ps, 'm) Redis \<Rightarrow> nat \<Rightarrow> u8 list \<Rightarrow> 'con \<Rightarrow> (('e + unit) \<times> 'con) outcome" where
  "redis_send redis i bs con =
     (let (res, con) = publish_cmd redis REDIS_CHANNEL bs con in Ret (map_sum id (\<lambda>_. ()) res, con))"

definition redis_connect :: "('e, 'cl, 'con, 'ps, 'm) Redis \<Rightarrow> string \<Rightarrow> 'e + 'con" where
  "redis_connect redis url =
     (case open_client redis url of Inl e \<Rightarrow> Inl e | Inr client \<Rightarrow> get_connection redis client)"

definition redis_join :: "('e, 'cl, 'con, 'ps, 'm) Redis \<Rightarrow> string \<Rightarrow> 'e + 'ps" where
  "redis_join redis url =
     (case redis_connect redis url of Inl e \<Rightarrow> Inl e | Inr con \<Rightarrow> subscribe redis con REDIS_CHANNEL)"

definition redis_subscriber ::
  "('e, 'cl, 'con, 'ps, 'm) Redis \<Rightarrow> (nat \<Rightarrow> u64) \<Rightarrow> nat \<Rightarrow> nat \<Rightarrow> 'ps \<Rightarrow> u64 list outcome" where
  "redis_subscriber redis now n_warmup n_total ps =
     obind (collect (redis_recv redis) now n_warmup 0 n_total [] ps) (\<lambda>(lats, _). Ret lats)"

definition bench_redis ::
  "bool \<Rightarrow> BusEnv \<Rightarrow> (nat \<Rightarrow> ('e, 'cl, 'con, 'ps, 'm) Redis) \<Rightarrow> string \<Rightarrow> u64 \<Rightarrow> u64 \<Rightarrow> u64 \<Rightarrow> ('e + u64 list) outcome option" where
  "bench_redis checks env redis addr n_warmup n_msgs rate_hz =
     (case add_u checks n_warmup n_msgs of
        Panic \<Rightarrow> Some Panic
      | Ret n_total \<Rightarrow>
         (case redis_join (redis 1) (redis_url addr) of
            Inl _ \<Rightarrow> None
          | Inr ps \<Rightarrow>
             (case redis_connect (redis 0) (redis_url addr) of
                Inl e \<Rightarrow> Some (Ret (Inl e))
              | Inr con \<Rightarrow>
                  finish (publish_loop checks (env_clk env) (t_zero env) (env_clk env 0) (interval_ns rate_hz)
                            (redis_send (redis 0)) 0 (unat n_total) 1 con)
                         (redis_subscriber (redis 1) (recv_now env 0) (unat n_warmup) (unat n_total) ps))))"

definition bench_redis_fanout ::
  "bool \<Rightarrow> BusEnv \<Rightarrow> (nat \<Rightarrow> ('e, 'cl, 'con, 'ps, 'm) Redis) \<Rightarrow> string \<Rightarrow> u64 \<Rightarrow> u64 \<Rightarrow> u64 \<Rightarrow> nat
     \<Rightarrow> ('e + u64 list) outcome option" where
  "bench_redis_fanout checks env redis addr n_warmup n_msgs rate_hz n_subs =
     (case add_u checks n_warmup n_msgs of
        Panic \<Rightarrow> Some Panic
      | Ret n_total \<Rightarrow>
         (case those (map (\<lambda>j. case redis_join (redis (Suc j)) (redis_url addr) of Inl e \<Rightarrow> None | Inr ps \<Rightarrow> Some ps)
                 [0..<n_subs]) of
            None \<Rightarrow> None
          | Some pss \<Rightarrow>
             (case redis_connect (redis 0) (redis_url addr) of
                Inl e \<Rightarrow> Some (Ret (Inl e))
              | Inr con \<Rightarrow>
                  finish (publish_loop checks (env_clk env) (t_zero env) (env_clk env 0) (interval_ns rate_hz)
                            (redis_send (redis 0)) 0 (unat n_total) 1 con)
                         (join_all (map (\<lambda>(j, ps). redis_subscriber (redis (Suc j)) (recv_now env j) (unat n_warmup) (unat n_total) ps)
                            (enumerate 0 pss))))))"

section \<open>Waiting and publishing\<close>

lemma wait_until_found:
  assumes "t \<le> j" "target \<le> since start (clk j)" "\<And>l. t \<le> l \<Longrightarrow> l < j \<Longrightarrow> \<not> target \<le> since start (clk l)"
  shows "wait_until clk start target t = Some (Suc j)"
  using assms
proof (induction "j - t" arbitrary: t)
  case 0
  then show ?case by (simp add: wait_until.simps)
next
  case (Suc d)
  then have "wait_until clk start target (Suc t) = Some (Suc j)" by simp
  with Suc show ?case by (subst wait_until.simps) simp
qed

lemma wait_until_returns:
  assumes "t \<le> t'" "target \<le> since start (clk t')"
  obtains j where "t \<le> j" "target \<le> since start (clk j)" "wait_until clk start target t = Some (Suc j)"
proof -
  let ?P = "\<lambda>j. t \<le> j \<and> target \<le> since start (clk j)"
  define j where "j = (LEAST j. ?P j)"
  have "?P j" unfolding j_def by (rule LeastI [of ?P t']) (use assms in blast)
  moreover have "\<not> target \<le> since start (clk l)" if "t \<le> l" "l < j" for l
    using not_less_Least [of l ?P] that by (auto simp: j_def)
  ultimately show thesis using that [of j] wait_until_found [of t j target start clk] by blast
qed

text \<open>A time of at least the target has passed when the truncated one has.\<close>

lemma since_ge: "target \<le> since start t \<Longrightarrow> unat target \<le> t - start"
proof -
  assume "target \<le> since start t"
  then have "unat target \<le> unat (as_u64 (t - start))" by (simp only: since_def elapsed_def word_le_nat_alt)
  also have "\<dots> \<le> t - start" by (simp only: unat_of_nat mod_less_eq_dividend)
  finally show ?thesis .
qed

text \<open>When message \<open>i + j\<close> of a list goes out: at reading \<open>rs ! j\<close>, never ahead of its schedule.\<close>

definition paced :: "(nat \<Rightarrow> Instant) \<Rightarrow> Instant \<Rightarrow> u64 \<Rightarrow> nat \<Rightarrow> nat \<Rightarrow> nat list \<Rightarrow> bool" where
  "paced clk start interval i t rs \<longleftrightarrow>
     sorted_wrt (<) rs \<and> (\<forall>r \<in> set rs. t \<le> r) \<and>
     (\<forall>j < length rs. start + (i + j) * unat interval \<le> clk (rs ! j))"

lemma paced_Cons:
  assumes "t \<le> r" "start + i * unat interval \<le> clk r" "paced clk start interval (Suc i) (Suc r) rs"
  shows "paced clk start interval i t (r # rs)"
  using assms by (auto simp: paced_def less_Suc_eq_0_disj)

text \<open>A clock that does not run backwards and reaches a schedule, whose times fit into 64 bits.\<close>

definition reaches :: "(nat \<Rightarrow> Instant) \<Rightarrow> Instant \<Rightarrow> nat \<Rightarrow> bool" where
  "reaches clk start ns \<longleftrightarrow>
     mono clk \<and> ns < 2 ^ 64 \<and> (\<forall>t. \<exists>t'\<ge>t. ns \<le> unat (since start (clk t')))"

lemma reaches_mono: "reaches clk start ns \<Longrightarrow> ms \<le> ns \<Longrightarrow> reaches clk start ms"
  unfolding reaches_def by (meson le_less_trans order_trans)

lemma wait_for_slot:
  assumes reach: "reaches clk start (i * unat interval)" and i: "i < 2 ^ 64" and t: "start \<le> clk t"
  obtains r where "t \<le> r" "start + i * unat interval \<le> clk r"
    "(if 0 < interval then
        (case mul_u checks (word_of_nat i) interval of
           Panic \<Rightarrow> Some Panic
         | Ret target \<Rightarrow> map_option Ret (wait_until clk start target t))
      else Some (Ret t)) = Some (Ret r)"
proof (cases "0 < interval")
  case False
  then have "interval = 0" by (simp add: word_gt_0)
  then show thesis using that [of t] t by simp
next
  case True
  let ?tgt = "word_of_nat i * interval :: u64"
  have mono: "mono clk" and small: "i * unat interval < 2 ^ 64"
    and fair: "\<exists>t'\<ge>t. i * unat interval \<le> unat (since start (clk t'))"
    using reach by (simp_all add: reaches_def)
  have i: "unat (word_of_nat i :: u64) = i" using i by (simp add: unat_of_nat)
  then have tgt: "unat ?tgt = i * unat interval" and mul: "mul_u checks (word_of_nat i) interval = Ret ?tgt"
    using small by (simp_all add: unat_mult_lem [THEN iffD1] mul_u_Ret)
  from fair obtain t' where t': "t \<le> t'" "?tgt \<le> since start (clk t')"
    unfolding word_le_nat_alt tgt by blast
  obtain j where j: "t \<le> j" "?tgt \<le> since start (clk j)" "wait_until clk start ?tgt t = Some (Suc j)"
    by (rule wait_until_returns [of t t' ?tgt start clk]) (use t' in blast)+
  have "start \<le> clk j" using t monoD [OF mono j(1)] by linarith
  moreover have "i * unat interval \<le> clk j - start" using since_ge [OF j(2)] by (simp only: tgt)
  ultimately have "start + i * unat interval \<le> clk j" by linarith
  then have "start + i * unat interval \<le> clk (Suc j)" using monoD [OF mono, of j "Suc j"] by linarith
  then show thesis using that [of "Suc j"] j(1,3) True mul by simp
qed

section \<open>The two ends of a transport\<close>

text \<open>
  What the publishing loop relies on: every payload of eight bytes is sent, and \<open>log\<close> says which
  ones have been.
\<close>

locale payload_sender =
  fixes send :: "nat \<Rightarrow> u8 list \<Rightarrow> 'p \<Rightarrow> (('e + unit) \<times> 'p) outcome"
    and log :: "u8 list list \<Rightarrow> 'p \<Rightarrow> bool"
  assumes send_ok: "log bss p \<Longrightarrow> length bs = 8 \<Longrightarrow> \<exists>p'. send i bs p = Ret (Inr (), p') \<and> log (bss @ [bs]) p'"
begin

lemma publish_paced:
  assumes "log bss p" and "run_start \<le> clk t" and "reaches clk run_start ((i + k) * unat interval)" and "i + k < 2 ^ 64"
  shows "\<exists>rs p'. length rs = k \<and> paced clk run_start interval i t rs \<and>
    publish_loop checks clk t0 run_start interval send i k t p = Some (Ret (Inr (), p')) \<and>
    log (bss @ map (\<lambda>r. to_le_bytes 8 (since t0 (clk r))) rs) p'"
  using assms
proof (induction k arbitrary: i t p bss)
  case 0
  then show ?case by (simp add: paced_def)
next
  case (Suc k)
  have "i * unat interval \<le> (i + Suc k) * unat interval" by (rule mult_le_mono1) simp
  with Suc.prems(3) have reach: "reaches clk run_start (i * unat interval)" by (rule reaches_mono)
  have i: "i < 2 ^ 64" using Suc.prems(4) by simp
  obtain r where r: "t \<le> r" "run_start + i * unat interval \<le> clk r"
    and w: "(if 0 < interval then
         (case mul_u checks (word_of_nat i) interval of
            Panic \<Rightarrow> Some Panic
          | Ret target \<Rightarrow> map_option Ret (wait_until clk run_start target t))
       else Some (Ret t)) = Some (Ret r)"
    by (rule wait_for_slot [OF reach i Suc.prems(2)])
  let ?bs = "to_le_bytes 8 (since t0 (clk r))"
  obtain q where q: "send i ?bs p = Ret (Inr (), q)" "log (bss @ [?bs]) q"
    using send_ok [OF Suc.prems(1), of ?bs i] by auto
  have mono: "mono clk" using reach by (simp add: reaches_def)
  have late: "run_start \<le> clk (Suc r)" using r(2) monoD [OF mono, of r "Suc r"] by simp
  have "reaches clk run_start ((Suc i + k) * unat interval)" "Suc i + k < 2 ^ 64" using Suc.prems(3,4) by simp_all
  from Suc.IH [OF q(2) late this] obtain rs p' where rs: "length rs = k"
    "paced clk run_start interval (Suc i) (Suc r) rs"
    "publish_loop checks clk t0 run_start interval send (Suc i) k (Suc r) q = Some (Ret (Inr (), p'))"
    "log (bss @ map (\<lambda>r. to_le_bytes 8 (since t0 (clk r))) (r # rs)) p'"
    by auto
  have "publish_loop checks clk t0 run_start interval send i (Suc k) t p = Some (Ret (Inr (), p'))"
    using rs(3) by (simp only: publish_loop.simps w option.case outcome.case q(1) prod.case sum.case)
  with rs(1,4) paced_Cons [OF r rs(2)] show ?case
    by (intro exI [of _ "r # rs"] exI [of _ p']) simp
qed

end

text \<open>
  What the receiving loop relies on: the payloads that are \<open>queued\<close> arrive in their order.
\<close>

locale payload_receiver =
  fixes recv :: "'s \<Rightarrow> (u8 list \<times> 's) outcome"
    and queued :: "u8 list list \<Rightarrow> 's \<Rightarrow> bool"
  assumes recv_next: "queued (bs # bss) s \<Longrightarrow> \<exists>s'. recv s = Ret (bs, s') \<and> queued bss s'"
begin

lemma collect_from:
  assumes "queued (map (to_le_bytes 8) ts) s"
  shows "\<exists>s'. collect recv now w i (length ts) lats s =
    Ret (lats @ map (\<lambda>j. saturating_sub (now j) (ts ! (j - i))) [max w i..<i + length ts], s')"
  using assms
proof (induction ts arbitrary: i lats s)
  case Nil
  then show ?case by simp
next
  case (Cons ts0 ts)
  then obtain s1 where s1: "recv s = Ret (to_le_bytes 8 ts0, s1)" "queued (map (to_le_bytes 8) ts) s1"
    using recv_next by force
  have rec: "record_latency (now i) warm (to_le_bytes 8 ts0) lats =
      Ret (if warm then lats @ [saturating_sub (now i) ts0] else lats)" for warm
    by (simp add: record_latency_def slice_def)
  let ?lats = "if w \<le> i then lats @ [saturating_sub (now i) ts0] else lats"
  from Cons.IH [OF s1(2), of "Suc i" ?lats] obtain s' where s':
    "collect recv now w (Suc i) (length ts) ?lats s1 = Ret (?lats @
       map (\<lambda>j. saturating_sub (now j) (ts ! (j - Suc i))) [max w (Suc i)..<Suc i + length ts], s')"
    by blast
  have tl: "map (\<lambda>j. saturating_sub (now j) (ts ! (j - Suc i))) [max w (Suc i)..<Suc i + length ts] =
      map (\<lambda>j. saturating_sub (now j) ((ts0 # ts) ! (j - i))) [max w (Suc i)..<Suc i + length ts]"
    by (rule map_cong [OF refl]) (auto simp: nth_Cons')
  have hd: "[i..<Suc (i + length ts)] = i # [Suc i..<Suc (i + length ts)]" by (rule upt_conv_Cons) simp
  have "collect recv now w i (length (ts0 # ts)) lats s = Ret (?lats @
      map (\<lambda>j. saturating_sub (now j) ((ts0 # ts) ! (j - i))) [max w (Suc i)..<Suc i + length ts], s')"
    using s' by (simp only: list.size collect.simps s1(1) obind.simps prod.case rec tl add_Suc_right add_0_right)
  moreover have "?lats @ map (\<lambda>j. saturating_sub (now j) ((ts0 # ts) ! (j - i))) [max w (Suc i)..<Suc i + length ts] =
      lats @ map (\<lambda>j. saturating_sub (now j) ((ts0 # ts) ! (j - i))) [max w i..<i + length (ts0 # ts)]"
  proof (cases "w \<le> i")
    case True
    then show ?thesis by (simp add: max_absorb2 hd del: upt_Suc)
  next
    case False
    then show ?thesis by (simp add: max_absorb1 del: upt_Suc)
  qed
  ultimately show ?case by (intro exI [of _ s']) simp
qed

text \<open>One latency per counted message, the difference of the two clock readings.\<close>

lemma collects:
  assumes "queued (map (to_le_bytes 8) ts) s"
  shows "\<exists>s'. collect recv now w 0 (length ts) [] s =
    Ret (map (\<lambda>j. saturating_sub (now j) (ts ! j)) [w..<length ts], s')"
  using collect_from [OF assms, of now w 0 "[]"] by simp

end

end
