(* ===== verification/Latency_Measure.thy ===== *)
theory Latency_Measure
  imports Latency_Bench
begin

text \<open>
  What the four benchmarks measure: the interpretations of the transport's contracts on the clients of
  the bus and on the calls of the \<open>redis\<close> package, and the samples that come back.
\<close>

section \<open>The transport over the bus\<close>

text \<open>The frames that a publisher has written since \<open>base\<close>, and those a subscriber still gets.\<close>

definition bench_frame :: "MsgHeader \<times> u8 list \<Rightarrow> bool" where
  "bench_frame m \<longleftrightarrow> framed m \<and> channel_id (fst m) = BENCH_CHANNEL \<and> msg_type (fst m) = BENCH_MSG_TYPE"

definition bus_log :: "(nat \<Rightarrow> clock) \<Rightarrow> u8 list \<Rightarrow> u8 list list \<Rightarrow> Publisher \<Rightarrow> bool" where
  "bus_log wall base bss p \<longleftrightarrow> (\<forall>i. wall i \<noteq> None) \<and> send_room (stream p) = None \<and>
     (\<exists>ms. list_all bench_frame ms \<and> map snd ms = bss \<and> outgoing (stream p) = base @ concat (map wire ms))"

definition bus_queue :: "u8 list list \<Rightarrow> Subscriber \<Rightarrow> bool" where
  "bus_queue bss sub \<longleftrightarrow>
     (\<exists>ms rest. list_all framed ms \<and> map snd ms = bss \<and> incoming (reader sub) = concat (map wire ms) @ rest)"

interpretation bus_tx: payload_sender "bus_send wall" "bus_log wall base" for wall base
proof
  fix bss p and bs :: "u8 list" and i
  assume log: "bus_log wall base bss p" and len: "length bs = 8"
  obtain ms where ms: "list_all bench_frame ms" "map snd ms = bss"
    "outgoing (stream p) = base @ concat (map wire ms)" and room: "send_room (stream p) = None"
    and wall: "\<forall>i. wall i \<noteq> None"
    using log by (auto simp: bus_log_def)
  obtain ns where ns: "wall i = Some ns" using wall by blast
  let ?m = "(pub_header ns BENCH_MSG_TYPE BENCH_CHANNEL bs, bs)"
  have "bench_frame ?m" using len by (simp add: bench_frame_def framed_def pub_header_def unat_of_nat)
  with ms room wall have "bus_log wall base (bss @ [bs])
      (p\<lparr>stream := (stream p)\<lparr>outgoing := outgoing (stream p) @ wire ?m\<rparr>\<rparr>)"
    unfolding bus_log_def by (intro conjI exI [of _ "ms @ [?m]"]) simp_all
  moreover have "bus_send wall i bs p =
      Ret (Inr (), p\<lparr>stream := (stream p)\<lparr>outgoing := outgoing (stream p) @ wire ?m\<rparr>\<rparr>)"
    using room by (simp add: bus_send_def ns publish_raw_eq write_all_def)
  ultimately show "\<exists>p'. bus_send wall i bs p = Ret (Inr (), p') \<and> bus_log wall base (bss @ [bs]) p'"
    by blast
qed

interpretation bus_rx: payload_receiver bus_recv bus_queue
proof
  fix bs bss sub
  assume "bus_queue (bs # bss) sub"
  then obtain m ms rest where m: "framed m" "list_all framed ms" "snd m = bs" "map snd ms = bss"
    "incoming (reader sub) = wire m @ concat (map wire ms) @ rest"
    by (auto simp: bus_queue_def)
  let ?sub = "sub\<lparr>reader := (reader sub)\<lparr>incoming := concat (map wire ms) @ rest\<rparr>\<rparr>"
  have "bus_recv sub = Ret (bs, ?sub)"
    using next_raw_wire [OF m(1) m(5)] m(3) by (cases m) (simp add: bus_recv_def expect_def)
  moreover have "bus_queue bss ?sub" using m by (auto simp: bus_queue_def)
  ultimately show "\<exists>s'. bus_recv sub = Ret (bs, s') \<and> bus_queue bss s'" by blast
qed

text \<open>The stamps that the publishing thread puts into the messages it sends at the readings \<open>rs\<close>.\<close>

definition stamps :: "BusEnv \<Rightarrow> nat list \<Rightarrow> u64 list" where
  "stamps env rs = map (\<lambda>r. since (t_zero env) (env_clk env r)) rs"

definition latencies :: "(nat \<Rightarrow> u64) \<Rightarrow> u64 list \<Rightarrow> nat \<Rightarrow> u64 list" where
  "latencies now ts w = map (\<lambda>j. saturating_sub (now j) (ts ! j)) [w..<length ts]"

lemma length_stamps [simp]: "length (stamps env rs) = length rs"
  by (simp add: stamps_def)

lemma length_latencies [simp]: "length (latencies now ts w) = length ts - w"
  by (simp add: latencies_def)

lemma bus_subscriber_samples:
  assumes "list_all framed ms" and "map snd ms = map (to_le_bytes 8) ts" and "env_inbox env j = concat (map wire ms) @ rest"
  shows "bus_subscriber env j w (length ts) sub = Ret (latencies (recv_now env j) ts w)"
proof -
  have "bus_queue (map (to_le_bytes 8) ts) (sub\<lparr>reader := (reader sub)\<lparr>incoming := env_inbox env j\<rparr>\<rparr>)"
    using assms by (auto simp: bus_queue_def)
  from bus_rx.collects [OF this, of "recv_now env j" w] show ?thesis
    by (auto simp: bus_subscriber_def latencies_def)
qed

lemma bus_published:
  assumes "send_room (stream pb) = None" and "\<forall>i. env_wall env i \<noteq> None"
    and "reaches (env_clk env) (env_clk env 0) (n_total * unat interval)" and "n_total < 2 ^ 64"
  obtains rs ms p' where "length rs = n_total" "paced (env_clk env) (env_clk env 0) interval 0 1 rs"
    "list_all bench_frame ms" "map snd ms = map (to_le_bytes 8) (stamps env rs)"
    "publish_loop checks (env_clk env) (t_zero env) (env_clk env 0) interval (bus_send (env_wall env)) 0 n_total 1 pb =
       Some (Ret (Inr (), p'))" "outgoing (stream p') = outgoing (stream pb) @ concat (map wire ms)"
proof -
  have log: "bus_log (env_wall env) (outgoing (stream pb)) [] pb" using assms(1,2) by (simp add: bus_log_def)
  have start: "env_clk env 0 \<le> env_clk env 1" using assms(3) by (simp add: reaches_def mono_def)
  have "reaches (env_clk env) (env_clk env 0) ((0 + n_total) * unat interval)" "0 + n_total < 2 ^ 64" using assms(3,4) by simp_all
  from bus_tx.publish_paced [OF log start this, of checks "t_zero env"] obtain rs p' where
    "length rs = n_total" "paced (env_clk env) (env_clk env 0) interval 0 1 rs"
    "publish_loop checks (env_clk env) (t_zero env) (env_clk env 0) interval (bus_send (env_wall env)) 0 n_total 1 pb =
       Some (Ret (Inr (), p'))"
    and l: "bus_log (env_wall env) (outgoing (stream pb)) (map (\<lambda>r. to_le_bytes 8 (since (t_zero env) (env_clk env r))) rs) p'"
    by auto
  with l that show thesis by (auto simp: bus_log_def stamps_def comp_def)
qed

section \<open>The samples\<close>

lemma add_u_counts:
  "unat w + unat n < 2 ^ 64 \<Longrightarrow> add_u checks (w :: u64) n = Ret (w + n) \<and> unat (w + n) = unat w + unat n"
  by (simp add: add_u_Ret unat_add_lem [THEN iffD1])

lemma finish_published: "finish (Some (Ret (Inr u, p))) joined = Some (obind joined (\<lambda>lats. Ret (Inr lats)))"
  by (simp add: finish_def)

lemma join_all_Ret: "(\<And>x. x \<in> set xs \<Longrightarrow> f x = Ret (g x)) \<Longrightarrow> join_all (map f xs) = Ret (concat (map g xs))"
  by (induction xs) simp_all

lemma those_map_Some: "(\<And>x. x \<in> set xs \<Longrightarrow> f x = Some (g x)) \<Longrightarrow> those (map f xs) = Some (map g xs)"
  by (induction xs) simp_all

lemma enumerate_upt: "enumerate 0 (map g [0..<n]) = map (\<lambda>j. (j, g j)) [0..<n]"
  by (rule nth_equalityI) (simp_all add: nth_enumerate_eq)

text \<open>
  \<open>bench_bus\<close> measures what it says. With both connections up, no overflow in the counts and a clock
  that reaches the schedule, the publishing loop ends; message \<open>i\<close> is never sent before its
  slot \<open>run_start + i * interval\<close>; what is written is one frame per message, on the benchmark's
  channel, carrying the time stamp read just before. If the subscriber gets those frames, the result
  is exactly one latency for each of the \<open>n_msgs\<close> messages after the warm-up, its
  reading minus the stamp.
\<close>

lemma bench_bus_measures:
  assumes "sub_connect env addr 0 = Some sub"
    and "connect (env_dial env) (env_nodelay env) addr = Inr pb" and "send_room (stream pb) = None"
    and "\<forall>i. env_wall env i \<noteq> None" and "unat n_warmup + unat n_msgs < 2 ^ 64"
    and "reaches (env_clk env) (env_clk env 0) ((unat n_warmup + unat n_msgs) * unat (interval_ns rate_hz))"
  shows "\<exists>rs ms p'. length rs = unat n_warmup + unat n_msgs \<and>
    paced (env_clk env) (env_clk env 0) (interval_ns rate_hz) 0 1 rs \<and>
    list_all bench_frame ms \<and> map snd ms = map (to_le_bytes 8) (stamps env rs) \<and>
    publish_loop checks (env_clk env) (t_zero env) (env_clk env 0) (interval_ns rate_hz) (bus_send (env_wall env))
      0 (unat n_warmup + unat n_msgs) 1 pb = Some (Ret (Inr (), p')) \<and>
    outgoing (stream p') = outgoing (stream pb) @ concat (map wire ms) \<and>
    length (latencies (recv_now env 0) (stamps env rs) (unat n_warmup)) = unat n_msgs \<and>
    (\<forall>rest. env_inbox env 0 = concat (map wire ms) @ rest \<longrightarrow>
       bench_bus checks env addr n_warmup n_msgs rate_hz =
         Some (Ret (Inr (latencies (recv_now env 0) (stamps env rs) (unat n_warmup)))))"
proof -
  note n = add_u_counts [OF assms(5), of checks]
  obtain rs ms p' where p: "length rs = unat n_warmup + unat n_msgs"
    "paced (env_clk env) (env_clk env 0) (interval_ns rate_hz) 0 1 rs"
    "list_all bench_frame ms" "map snd ms = map (to_le_bytes 8) (stamps env rs)"
    "publish_loop checks (env_clk env) (t_zero env) (env_clk env 0) (interval_ns rate_hz) (bus_send (env_wall env))
      0 (unat n_warmup + unat n_msgs) 1 pb = Some (Ret (Inr (), p'))"
    "outgoing (stream p') = outgoing (stream pb) @ concat (map wire ms)"
    by (rule bus_published [OF assms(3,4,6,5)])
  have framed: "list_all framed ms" using p(3) by (simp add: list_all_iff bench_frame_def)
  have "bench_bus checks env addr n_warmup n_msgs rate_hz =
      Some (Ret (Inr (latencies (recv_now env 0) (stamps env rs) (unat n_warmup))))"
    if "env_inbox env 0 = concat (map wire ms) @ rest" for rest
    using bus_subscriber_samples [OF framed p(4) that, of "unat n_warmup" sub]
    by (simp add: bench_bus_def n assms(1,2) p(1) p(5) [unfolded One_nat_def] finish_published)
  with p show ?thesis by (intro exI [of _ rs] exI [of _ ms] exI [of _ p']) simp
qed

text \<open>
  C23: \<open>bench_bus_fanout\<close>. With every subscriber connected, one publishing loop serves them all: the samples
  are those of the subscribers in the order of their threads, \<open>n_msgs\<close> from each.
\<close>

theorem bench_bus_fanout_measures:
  assumes "\<And>j. j < n_subs \<Longrightarrow> sub_connect env addr j = Some (sub j)"
    and "connect (env_dial env) (env_nodelay env) addr = Inr pb" and "send_room (stream pb) = None"
    and "\<forall>i. env_wall env i \<noteq> None" and "unat n_warmup + unat n_msgs < 2 ^ 64"
    and "reaches (env_clk env) (env_clk env 0) ((unat n_warmup + unat n_msgs) * unat (interval_ns rate_hz))"
  shows "\<exists>rs ms p'. length rs = unat n_warmup + unat n_msgs \<and>
    paced (env_clk env) (env_clk env 0) (interval_ns rate_hz) 0 1 rs \<and>
    list_all bench_frame ms \<and> map snd ms = map (to_le_bytes 8) (stamps env rs) \<and>
    publish_loop checks (env_clk env) (t_zero env) (env_clk env 0) (interval_ns rate_hz) (bus_send (env_wall env))
      0 (unat n_warmup + unat n_msgs) 1 pb = Some (Ret (Inr (), p')) \<and>
    outgoing (stream p') = outgoing (stream pb) @ concat (map wire ms) \<and>
    ((\<forall>j<n_subs. \<exists>rest. env_inbox env j = concat (map wire ms) @ rest) \<longrightarrow>
       bench_bus_fanout checks env addr n_warmup n_msgs rate_hz n_subs =
         Some (Ret (Inr (concat (map (\<lambda>j. latencies (recv_now env j) (stamps env rs) (unat n_warmup)) [0..<n_subs])))))"
proof -
  note n = add_u_counts [OF assms(5), of checks]
  obtain rs ms p' where p: "length rs = unat n_warmup + unat n_msgs"
    "paced (env_clk env) (env_clk env 0) (interval_ns rate_hz) 0 1 rs"
    "list_all bench_frame ms" "map snd ms = map (to_le_bytes 8) (stamps env rs)"
    "publish_loop checks (env_clk env) (t_zero env) (env_clk env 0) (interval_ns rate_hz) (bus_send (env_wall env))
      0 (unat n_warmup + unat n_msgs) 1 pb = Some (Ret (Inr (), p'))"
    "outgoing (stream p') = outgoing (stream pb) @ concat (map wire ms)"
    by (rule bus_published [OF assms(3,4,6,5)])
  have framed: "list_all framed ms" using p(3) by (simp add: list_all_iff bench_frame_def)
  have subs: "those (map (sub_connect env addr) [0..<n_subs]) = Some (map sub [0..<n_subs])"
    by (rule those_map_Some) (simp add: assms(1))
  have "bench_bus_fanout checks env addr n_warmup n_msgs rate_hz n_subs =
      Some (Ret (Inr (concat (map (\<lambda>j. latencies (recv_now env j) (stamps env rs) (unat n_warmup)) [0..<n_subs]))))"
    if inbox: "\<forall>j<n_subs. \<exists>rest. env_inbox env j = concat (map wire ms) @ rest"
  proof -
    have "join_all (map (\<lambda>j. bus_subscriber env j (unat n_warmup) (length rs) (sub j)) [0..<n_subs]) =
        Ret (concat (map (\<lambda>j. latencies (recv_now env j) (stamps env rs) (unat n_warmup)) [0..<n_subs]))"
    proof (rule join_all_Ret)
      fix j
      assume "j \<in> set [0..<n_subs]"
      with inbox obtain rest where "env_inbox env j = concat (map wire ms) @ rest" by auto
      from bus_subscriber_samples [OF framed p(4) this, of "unat n_warmup" "sub j"]
      show "bus_subscriber env j (unat n_warmup) (length rs) (sub j) =
          Ret (latencies (recv_now env j) (stamps env rs) (unat n_warmup))" by simp
    qed
    then show ?thesis
      by (simp add: bench_bus_fanout_def n assms(2) subs p(1) p(5) [unfolded One_nat_def] finish_published
          enumerate_upt comp_def)
  qed
  with p show ?thesis by (intro exI [of _ rs] exI [of _ ms] exI [of _ p']) simp
qed

section \<open>The transport over redis\<close>

text \<open>
  What the documentation of the package promises: \<open>PUBLISH\<close> on a working connection hands the payload to
  the server, and a subscription yields what was published to it in order.
\<close>

definition redis_publishes :: "('e, 'cl, 'con, 'ps, 'm) Redis \<Rightarrow> ('con \<Rightarrow> (string \<times> u8 list) list) \<Rightarrow> bool" where
  "redis_publishes r published \<longleftrightarrow>
     (\<forall>ch bs c. \<exists>k c'. publish_cmd r ch bs c = (Inr k, c') \<and> published c' = published c @ [(ch, bs)])"

definition redis_delivers :: "('e, 'cl, 'con, 'ps, 'm) Redis \<Rightarrow> ('ps \<Rightarrow> u8 list list) \<Rightarrow> bool" where
  "redis_delivers r pending \<longleftrightarrow>
     (\<forall>s bs bss. pending s = bs # bss \<longrightarrow>
        (\<exists>m s'. get_message r s = (Inr m, s') \<and> get_payload r m = Inr bs \<and> pending s' = bss))"

lemma redis_tx:
  assumes "redis_publishes r published"
  shows "payload_sender (redis_send r) (\<lambda>bss c. published c = base @ map (Pair REDIS_CHANNEL) bss)"
proof
  fix bss c and bs :: "u8 list" and i :: nat
  assume "published c = base @ map (Pair REDIS_CHANNEL) bss"
  moreover obtain k c' where "publish_cmd r REDIS_CHANNEL bs c = (Inr k, c')"
    "published c' = published c @ [(REDIS_CHANNEL, bs)]"
    using assms unfolding redis_publishes_def by blast
  ultimately show "\<exists>p'. redis_send r i bs c = Ret (Inr (), p') \<and> published p' = base @ map (Pair REDIS_CHANNEL) (bss @ [bs])"
    by (simp add: redis_send_def)
qed

lemma redis_rx:
  assumes "redis_delivers r pending"
  shows "payload_receiver (redis_recv r) (\<lambda>bss s. \<exists>rest. pending s = bss @ rest)"
proof
  fix bs bss s
  assume "\<exists>rest. pending s = (bs # bss) @ rest"
  then obtain rest where "pending s = bs # bss @ rest" by auto
  with assms obtain m s' where "get_message r s = (Inr m, s')" "get_payload r m = Inr bs" "pending s' = bss @ rest"
    unfolding redis_delivers_def by blast
  then show "\<exists>s'. redis_recv r s = Ret (bs, s') \<and> (\<exists>rest. pending s' = bss @ rest)"
    by (auto simp: redis_recv_def expect_def)
qed

lemma redis_subscriber_samples:
  assumes "redis_delivers r pending" and "pending ps = map (to_le_bytes 8) ts @ rest"
  shows "redis_subscriber r now w (length ts) ps = Ret (latencies now ts w)"
  using payload_receiver.collects [OF redis_rx [OF assms(1)], where ts = ts and s = ps and now = now and w = w] assms(2)
  by (auto simp: redis_subscriber_def latencies_def)

text \<open>
  The redis benchmarks. Over a package that keeps its promises, one publishing loop ends, keeps to
  its schedule and hands the stamped payloads to the benchmark's channel in order; if the subscriptions
  get them, \<open>bench_redis\<close> returns the \<open>n_msgs\<close> samples of its subscriber, and \<open>bench_redis_fanout\<close>
  those of all of them in the order of their threads.
\<close>

lemma bench_redis_measures:
  assumes "\<And>j. j < n_subs \<Longrightarrow> redis_join (redis (Suc j)) (redis_url addr) = Inr (ps j)"
    and "redis_connect (redis 0) (redis_url addr) = Inr con" and "0 < n_subs"
    and "redis_publishes (redis 0) published" and "\<And>j. redis_delivers (redis (Suc j)) pending"
    and "unat n_warmup + unat n_msgs < 2 ^ 64"
    and "reaches (env_clk env) (env_clk env 0) ((unat n_warmup + unat n_msgs) * unat (interval_ns rate_hz))"
  shows "\<exists>rs con'. length rs = unat n_warmup + unat n_msgs \<and>
    paced (env_clk env) (env_clk env 0) (interval_ns rate_hz) 0 1 rs \<and>
    publish_loop checks (env_clk env) (t_zero env) (env_clk env 0) (interval_ns rate_hz) (redis_send (redis 0))
      0 (unat n_warmup + unat n_msgs) 1 con = Some (Ret (Inr (), con')) \<and>
    published con' = published con @ map (Pair REDIS_CHANNEL) (map (to_le_bytes 8) (stamps env rs)) \<and>
    ((\<forall>j<n_subs. \<exists>rest. pending (ps j) = map (to_le_bytes 8) (stamps env rs) @ rest) \<longrightarrow>
       bench_redis checks env redis addr n_warmup n_msgs rate_hz =
         Some (Ret (Inr (latencies (recv_now env 0) (stamps env rs) (unat n_warmup)))) \<and>
       bench_redis_fanout checks env redis addr n_warmup n_msgs rate_hz n_subs =
         Some (Ret (Inr (concat (map (\<lambda>j. latencies (recv_now env j) (stamps env rs) (unat n_warmup)) [0..<n_subs])))))"
proof -
  note n = add_u_counts [OF assms(6), of checks]
  have start: "env_clk env 0 \<le> env_clk env 1" using assms(7) by (simp add: reaches_def mono_def)
  have sched: "reaches (env_clk env) (env_clk env 0) ((0 + (unat n_warmup + unat n_msgs)) * unat (interval_ns rate_hz))"
    "0 + (unat n_warmup + unat n_msgs) < 2 ^ 64" using assms(6,7) by simp_all
  have loop: "\<exists>rs p'. length rs = unat n_warmup + unat n_msgs \<and>
      paced (env_clk env) (env_clk env 0) (interval_ns rate_hz) 0 1 rs \<and>
      publish_loop checks (env_clk env) (t_zero env) (env_clk env 0) (interval_ns rate_hz) (redis_send (redis 0))
        0 (unat n_warmup + unat n_msgs) 1 con = Some (Ret (Inr (), p')) \<and>
      published p' = published con @
        map (Pair REDIS_CHANNEL) ([] @ map (\<lambda>r. to_le_bytes 8 (since (t_zero env) (env_clk env r))) rs)"
    by (rule payload_sender.publish_paced [OF redis_tx [OF assms(4)] _ start sched]) simp
  obtain rs con' where p: "length rs = unat n_warmup + unat n_msgs"
    "paced (env_clk env) (env_clk env 0) (interval_ns rate_hz) 0 1 rs"
    "publish_loop checks (env_clk env) (t_zero env) (env_clk env 0) (interval_ns rate_hz) (redis_send (redis 0))
      0 (unat n_warmup + unat n_msgs) 1 con = Some (Ret (Inr (), con'))"
    "published con' = published con @ map (Pair REDIS_CHANNEL) (map (to_le_bytes 8) (stamps env rs))"
    using loop by (auto simp: stamps_def comp_def)
  let ?sub = "\<lambda>j. redis_subscriber (redis (Suc j)) (recv_now env j) (unat n_warmup) (length rs) (ps j)"
  have subs: "those (map (\<lambda>j. case redis_join (redis (Suc j)) (redis_url addr) of Inl e \<Rightarrow> None | Inr ps \<Rightarrow> Some ps)
      [0..<n_subs]) = Some (map ps [0..<n_subs])"
    by (rule those_map_Some) (simp add: assms(1))
  have "bench_redis checks env redis addr n_warmup n_msgs rate_hz =
      Some (Ret (Inr (latencies (recv_now env 0) (stamps env rs) (unat n_warmup)))) \<and>
    bench_redis_fanout checks env redis addr n_warmup n_msgs rate_hz n_subs =
      Some (Ret (Inr (concat (map (\<lambda>j. latencies (recv_now env j) (stamps env rs) (unat n_warmup)) [0..<n_subs]))))"
    if inbox: "\<forall>j<n_subs. \<exists>rest. pending (ps j) = map (to_le_bytes 8) (stamps env rs) @ rest"
  proof -
    have each_sub: "?sub j = Ret (latencies (recv_now env j) (stamps env rs) (unat n_warmup))" if j: "j < n_subs" for j
    proof -
      obtain rest where "pending (ps j) = map (to_le_bytes 8) (stamps env rs) @ rest" using inbox j by blast
      from redis_subscriber_samples [OF assms(5) this] show ?thesis by simp
    qed
    have "join_all (map ?sub [0..<n_subs]) =
        Ret (concat (map (\<lambda>j. latencies (recv_now env j) (stamps env rs) (unat n_warmup)) [0..<n_subs]))"
      by (rule join_all_Ret) (simp add: each_sub)
    moreover have "redis_join (redis 1) (redis_url addr) = Inr (ps 0)" using assms(1) [of 0] assms(3) by simp
    ultimately show ?thesis using each_sub [OF assms(3)]
      by (simp add: bench_redis_def bench_redis_fanout_def n assms(2) subs p(1) p(3) [unfolded One_nat_def]
          finish_published enumerate_upt comp_def)
  qed
  with p show ?thesis by (intro exI [of _ rs] exI [of _ con']) simp
qed

section \<open>Concrete runs\<close>

text \<open>Two messages, one of them a warm-up, at full speed, over a clock with a coarse resolution.\<close>

definition demo_socket :: TcpStream where
  "demo_socket = \<lparr>incoming = [], outgoing = [], send_room = None\<rparr>"

definition demo_frame :: "MsgHeader \<times> u8 list" where
  "demo_frame = (pub_header 7 BENCH_MSG_TYPE BENCH_CHANNEL (to_le_bytes 8 (5 :: u64)), to_le_bytes 8 (5 :: u64))"

definition demo_env :: BusEnv where
  "demo_env = \<lparr>env_dial = \<lambda>_. Inr demo_socket, sub_dial = \<lambda>_ _. Inr demo_socket, env_nodelay = \<lambda>_. Inr (),
     env_clk = \<lambda>_. 5, t_zero = 0, env_wall = \<lambda>_. Some 7, recv_now = \<lambda>j _. 1000 + word_of_nat j,
     env_inbox = \<lambda>_. wire demo_frame @ wire demo_frame\<rparr>"

lemma demo_connects:
  "\<exists>sub. sub_connect demo_env addr j = Some sub"
  "connect (env_dial demo_env) (env_nodelay demo_env) addr = Inr \<lparr>stream = demo_socket\<rparr>"
  by (simp_all add: sub_connect_def connect_filtered_wire connect_def demo_env_def demo_socket_def write_all_def)

lemma demo_publishes:
  "publish_loop checks (env_clk demo_env) (t_zero demo_env) (env_clk demo_env 0) 0 (bus_send (env_wall demo_env))
     0 2 1 \<lparr>stream = demo_socket\<rparr> =
   Some (Ret (Inr (), \<lparr>stream = demo_socket\<lparr>outgoing := wire demo_frame @ wire demo_frame\<rparr>\<rparr>))"
  by (simp add: numeral_2_eq_2 bus_send_def publish_raw_eq demo_env_def demo_socket_def write_all_def demo_frame_def
      since_def elapsed_def del: to_le_bytes.simps)

lemma demo_reaches: "reaches (env_clk demo_env) (env_clk demo_env 0) (2 * unat (interval_ns 0))"
  by (auto simp: reaches_def interval_ns_def demo_env_def mono_def)

lemma demo_stamps: "length rs = 2 \<Longrightarrow> stamps demo_env rs = [5, 5]"
  by (auto simp: stamps_def numeral_2_eq_2 length_Suc_conv demo_env_def since_def elapsed_def)

lemma demo_inbox:
  assumes "publish_loop checks (env_clk demo_env) (t_zero demo_env) (env_clk demo_env 0) (interval_ns 0)
      (bus_send (env_wall demo_env)) 0 2 1 \<lparr>stream = demo_socket\<rparr> = Some (Ret (Inr (), p'))"
    and "outgoing (stream p') = outgoing (stream \<lparr>stream = demo_socket\<rparr>) @ concat (map wire ms)"
  shows "env_inbox demo_env j = concat (map wire ms) @ []"
proof -
  have "interval_ns 0 = 0" by (simp add: interval_ns_def)
  with assms(1) demo_publishes [of checks] have "outgoing (stream p') = wire demo_frame @ wire demo_frame" by auto
  with assms(2) show ?thesis by (simp add: demo_env_def demo_socket_def)
qed

lemma demo_samples:
  assumes "length rs = 2"
  shows "latencies (recv_now demo_env j) (stamps demo_env rs) (unat (1 :: u64)) = [saturating_sub (1000 + word_of_nat j) 5]"
  unfolding demo_stamps [OF assms] by (simp add: latencies_def demo_env_def)

lemma demo_counts: "unat (1 :: u64) + unat (1 :: u64) = 2"
  by simp

lemma demo_ready:
  "send_room (stream \<lparr>stream = demo_socket\<rparr>) = None" "\<forall>i. env_wall demo_env i \<noteq> None"
  "unat (1 :: u64) + unat (1 :: u64) < 2 ^ 64"
  "reaches (env_clk demo_env) (env_clk demo_env 0) ((unat (1 :: u64) + unat (1 :: u64)) * unat (interval_ns 0))"
  using demo_reaches by (simp_all add: demo_socket_def demo_env_def interval_ns_def)

lemma bench_bus_measures_example:
  "bench_bus True demo_env ''bus'' 1 1 0 = Some (Ret (Inr [995]))"
proof -
  obtain sub where sub: "sub_connect demo_env ''bus'' 0 = Some sub" using demo_connects(1) by blast
  obtain rs ms p' where rs: "length rs = 2" and p': "publish_loop True (env_clk demo_env) (t_zero demo_env)
      (env_clk demo_env 0) (interval_ns 0) (bus_send (env_wall demo_env)) 0 2 1 \<lparr>stream = demo_socket\<rparr> =
      Some (Ret (Inr (), p'))" "outgoing (stream p') = outgoing (stream \<lparr>stream = demo_socket\<rparr>) @ concat (map wire ms)"
    and res: "\<forall>rest. env_inbox demo_env 0 = concat (map wire ms) @ rest \<longrightarrow> bench_bus True demo_env ''bus'' 1 1 0 =
      Some (Ret (Inr (latencies (recv_now demo_env 0) (stamps demo_env rs) (unat (1 :: u64)))))"
    using bench_bus_measures [OF sub demo_connects(2) demo_ready, of True] unfolding demo_counts by blast
  from res demo_inbox [OF p'] have "bench_bus True demo_env ''bus'' 1 1 0 =
      Some (Ret (Inr (latencies (recv_now demo_env 0) (stamps demo_env rs) (unat (1 :: u64)))))" by blast
  then show ?thesis
    unfolding demo_samples [OF rs] by (simp add: saturating_sub_def upt_rec)
qed

theorem bench_bus_fanout_measures_witness:
  "bench_bus_fanout True demo_env ''bus'' 1 1 0 2 = Some (Ret (Inr [995, 996]))"
proof -
  obtain sub where sub: "\<And>j. sub_connect demo_env ''bus'' j = Some (sub j)" using demo_connects(1) by metis
  obtain rs ms p' where rs: "length rs = 2" and p': "publish_loop True (env_clk demo_env) (t_zero demo_env)
      (env_clk demo_env 0) (interval_ns 0) (bus_send (env_wall demo_env)) 0 2 1 \<lparr>stream = demo_socket\<rparr> =
      Some (Ret (Inr (), p'))" "outgoing (stream p') = outgoing (stream \<lparr>stream = demo_socket\<rparr>) @ concat (map wire ms)"
    and res: "(\<forall>j<2. \<exists>rest. env_inbox demo_env j = concat (map wire ms) @ rest) \<longrightarrow>
      bench_bus_fanout True demo_env ''bus'' 1 1 0 2 = Some (Ret (Inr (concat (map (\<lambda>j.
        latencies (recv_now demo_env j) (stamps demo_env rs) (unat (1 :: u64))) [0..<2]))))"
    using bench_bus_fanout_measures [where n_subs = 2 and sub = sub, OF sub demo_connects(2) demo_ready, of True]
    unfolding demo_counts by blast
  from res demo_inbox [OF p'] have "bench_bus_fanout True demo_env ''bus'' 1 1 0 2 = Some (Ret (Inr (concat (map (\<lambda>j.
        latencies (recv_now demo_env j) (stamps demo_env rs) (unat (1 :: u64))) [0..<2]))))" by blast
  then show ?thesis
    unfolding demo_samples [OF rs] by (simp add: saturating_sub_def upt_rec)
qed

text \<open>A queue in the place of the package.\<close>

definition demo_redis :: "nat \<Rightarrow> (unit, unit, (string \<times> u8 list) list, u8 list list, u8 list) Redis" where
  "demo_redis k = \<lparr>open_client = \<lambda>_. Inr (), get_connection = \<lambda>_. Inr [],
     subscribe = \<lambda>_ _. Inr [to_le_bytes 8 (5 :: u64), to_le_bytes 8 (5 :: u64)],
     get_message = \<lambda>q. (case q of [] \<Rightarrow> (Inl (), []) | m # q \<Rightarrow> (Inr m, q)), get_payload = Inr,
     publish_cmd = \<lambda>ch bs c. (Inr 1, c @ [(ch, bs)])\<rparr>"

lemma bench_redis_measures_example:
  "bench_redis True demo_env demo_redis ''redis'' 1 1 0 = Some (Ret (Inr [995])) \<and>
   bench_redis_fanout True demo_env demo_redis ''redis'' 1 1 0 2 = Some (Ret (Inr [995, 996]))"
proof -
  let ?q = "[to_le_bytes 8 (5 :: u64), to_le_bytes 8 (5 :: u64)]"
  have join: "redis_join (demo_redis (Suc j)) (redis_url ''redis'') = Inr ?q" for j
    by (simp add: redis_join_def redis_connect_def demo_redis_def)
  have con: "redis_connect (demo_redis 0) (redis_url ''redis'') = Inr []"
    by (simp add: redis_connect_def demo_redis_def)
  have "redis_publishes (demo_redis 0) id" by (simp add: redis_publishes_def demo_redis_def)
  moreover have "redis_delivers (demo_redis (Suc j)) id" for j by (simp add: redis_delivers_def demo_redis_def)
  ultimately obtain rs where rs: "length rs = 2"
    and res: "(\<forall>j<2::nat. \<exists>rest. id ?q = map (to_le_bytes 8) (stamps demo_env rs) @ rest) \<longrightarrow>
      bench_redis True demo_env demo_redis ''redis'' 1 1 0 =
        Some (Ret (Inr (latencies (recv_now demo_env 0) (stamps demo_env rs) (unat (1 :: u64))))) \<and>
      bench_redis_fanout True demo_env demo_redis ''redis'' 1 1 0 2 = Some (Ret (Inr (concat (map (\<lambda>j.
        latencies (recv_now demo_env j) (stamps demo_env rs) (unat (1 :: u64))) [0..<2]))))"
    using bench_redis_measures [where n_subs = 2 and redis = demo_redis and addr = "''redis''" and ps = "\<lambda>_. ?q",
        OF join con _ _ _ demo_ready(3,4), of id id True]
    unfolding demo_counts by auto
  have "id ?q = map (to_le_bytes 8) (stamps demo_env rs) @ []"
    unfolding demo_stamps [OF rs] by simp
  with res show ?thesis
    unfolding demo_samples [OF rs] by (simp add: saturating_sub_def upt_rec)
qed

end
