(* ===== verification/Latency_Rendezvous.thy ===== *)
theory Latency_Rendezvous
  imports Latency_Measure
begin

text \<open>
  How the publishing thread of a benchmark waits for its subscribers (the mutex and the
  condition variable in the \<open>bench_\<close> functions of \<open>bench/src/bin/latency.rs\<close>): every lock, update,
  notification and wait is a step of its own, in any interleaving of the threads.
\<close>

section \<open>The threads\<close>

text \<open>
  Where a thread is. A subscriber connects, or panics; takes the lock; updates the shared value and
  drops the guard; notifies. The publishing thread takes the lock, tests the value, and
  waits, which drops the lock, until it is woken up and takes the lock again.
\<close>

datatype SubPc = Connecting | Locking | Updating | Notifying | Receiving | Panicked

datatype MainPc = AtLock | Checking | Waiting | Waking | Proceeding

record 'v Meeting =
  flag :: 'v
  holder :: "nat option"
  main_pc :: MainPc
  subs :: "SubPc list"

text \<open>
  The holder of the lock is 0 for the publishing thread and \<open>j + 1\<close> for subscriber \<open>j\<close>. \<open>conn j\<close> says
  whether its connection succeeds, \<open>upd\<close> is the update, \<open>go\<close> the test that ends the waiting.
\<close>

inductive meet :: "(nat \<Rightarrow> bool) \<Rightarrow> ('v \<Rightarrow> 'v) \<Rightarrow> ('v \<Rightarrow> bool) \<Rightarrow> 'v Meeting \<Rightarrow> 'v Meeting \<Rightarrow> bool"
  for conn upd go where
  connects: "j < length (subs s) \<Longrightarrow> subs s ! j = Connecting \<Longrightarrow>
    meet conn upd go s (s\<lparr>subs := (subs s)[j := if conn j then Locking else Panicked]\<rparr>)"
| locks: "j < length (subs s) \<Longrightarrow> subs s ! j = Locking \<Longrightarrow> holder s = None \<Longrightarrow>
    meet conn upd go s (s\<lparr>holder := Some (Suc j), subs := (subs s)[j := Updating]\<rparr>)"
| updates: "j < length (subs s) \<Longrightarrow> subs s ! j = Updating \<Longrightarrow>
    meet conn upd go s (s\<lparr>flag := upd (flag s), holder := None, subs := (subs s)[j := Notifying]\<rparr>)"
| notifies: "j < length (subs s) \<Longrightarrow> subs s ! j = Notifying \<Longrightarrow>
    meet conn upd go s (s\<lparr>main_pc := if main_pc s = Waiting then Waking else main_pc s, subs := (subs s)[j := Receiving]\<rparr>)"
| main_locks: "main_pc s = AtLock \<or> main_pc s = Waking \<Longrightarrow> holder s = None \<Longrightarrow>
    meet conn upd go s (s\<lparr>holder := Some 0, main_pc := Checking\<rparr>)"
| main_goes: "main_pc s = Checking \<Longrightarrow> go (flag s) \<Longrightarrow>
    meet conn upd go s (s\<lparr>holder := None, main_pc := Proceeding\<rparr>)"
| main_waits: "main_pc s = Checking \<Longrightarrow> \<not> go (flag s) \<Longrightarrow>
    meet conn upd go s (s\<lparr>holder := None, main_pc := Waiting\<rparr>)"

text \<open>A condition variable may also wake up a thread for no reason.\<close>

inductive meet_any :: "(nat \<Rightarrow> bool) \<Rightarrow> ('v \<Rightarrow> 'v) \<Rightarrow> ('v \<Rightarrow> bool) \<Rightarrow> 'v Meeting \<Rightarrow> 'v Meeting \<Rightarrow> bool"
  for conn upd go where
  genuine: "meet conn upd go s s' \<Longrightarrow> meet_any conn upd go s s'"
| spurious: "main_pc s = Waiting \<Longrightarrow> meet_any conn upd go s (s\<lparr>main_pc := Waking\<rparr>)"

definition meeting :: "'v \<Rightarrow> nat \<Rightarrow> 'v Meeting" where
  "meeting v n = \<lparr>flag = v, holder = None, main_pc = AtLock, subs = replicate n Connecting\<rparr>"

definition met :: "SubPc \<Rightarrow> bool" where
  "met pc \<longleftrightarrow> pc = Notifying \<or> pc = Receiving"

definition tally :: "SubPc list \<Rightarrow> nat" where
  "tally pcs = length (filter met pcs)"

text \<open>What is left to do, counted so that every genuine step uses some of it up.\<close>

fun sub_work :: "SubPc \<Rightarrow> nat" where
  "sub_work Connecting = 6"
| "sub_work Locking = 5"
| "sub_work Updating = 4"
| "sub_work Notifying = 3"
| "sub_work Receiving = 0"
| "sub_work Panicked = 0"

fun main_work :: "MainPc \<Rightarrow> nat" where
  "main_work AtLock = 3"
| "main_work Waking = 3"
| "main_work Checking = 2"
| "main_work Waiting = 1"
| "main_work Proceeding = 0"

definition work :: "'v Meeting \<Rightarrow> nat" where
  "work s = main_work (main_pc s) + sum_list (map sub_work (subs s))"

section \<open>Counting\<close>

lemma tally_update:
  "j < length pcs \<Longrightarrow> tally (pcs[j := pc]) + of_bool (met (pcs ! j)) = tally pcs + of_bool (met pc)"
  by (subst (3) id_take_nth_drop [of j pcs]) (simp_all add: tally_def upd_conv_take_nth_drop)

lemma work_update:
  "j < length pcs \<Longrightarrow> sum_list (map sub_work (pcs[j := pc])) + sub_work (pcs ! j) = sum_list (map sub_work pcs) + sub_work pc"
  by (subst (3) id_take_nth_drop [of j pcs]) (simp_all add: upd_conv_take_nth_drop)

lemma tally_le: "tally pcs \<le> length pcs"
  by (simp add: tally_def)

lemma tally_full: "tally pcs = length pcs \<longleftrightarrow> (\<forall>j<length pcs. met (pcs ! j))"
  by (metis filter_id_conv in_set_conv_nth le_antisym length_filter_less linorder_not_less nth_mem tally_def tally_le)

lemma meet_works: "meet conn upd go s s' \<Longrightarrow> work s' < work s"
proof (induction rule: meet.induct)
  case (connects j s)
  then show ?case using work_update [of j "subs s" Locking] work_update [of j "subs s" Panicked] by (simp add: work_def)
next
  case (locks j s)
  then show ?case using work_update [of j "subs s" Updating] by (simp add: work_def)
next
  case (updates j s)
  then show ?case using work_update [of j "subs s" Notifying] by (simp add: work_def)
next
  case (notifies j s)
  then show ?case using work_update [of j "subs s" Receiving] by (cases "main_pc s") (simp_all add: work_def)
qed (auto simp: work_def)


section \<open>The invariant\<close>

text \<open>The test succeeds when all \<open>n\<close> updates have been made, and not before.\<close>

locale gate =
  fixes upd :: "'v \<Rightarrow> 'v" and init :: 'v and go :: "'v \<Rightarrow> bool" and n :: nat
  assumes go_iff: "k \<le> n \<Longrightarrow> go ((upd ^^ k) init) \<longleftrightarrow> k = n"
begin

definition sub_ok :: "(nat \<Rightarrow> bool) \<Rightarrow> nat option \<Rightarrow> nat \<Rightarrow> SubPc \<Rightarrow> bool" where
  "sub_ok conn h j pc \<longleftrightarrow> (h = Some (Suc j) \<longleftrightarrow> pc = Updating) \<and>
     (pc = Panicked \<longrightarrow> \<not> conn j) \<and> (pc \<noteq> Connecting \<and> pc \<noteq> Panicked \<longrightarrow> conn j)"

definition meeting_inv :: "(nat \<Rightarrow> bool) \<Rightarrow> 'v Meeting \<Rightarrow> bool" where
  "meeting_inv conn s \<longleftrightarrow>
     length (subs s) = n \<and> flag s = (upd ^^ tally (subs s)) init \<and>
     (holder s = Some 0 \<longleftrightarrow> main_pc s = Checking) \<and>
     (\<forall>j. holder s = Some (Suc j) \<longrightarrow> j < n) \<and>
     (\<forall>j<n. sub_ok conn (holder s) j (subs s ! j)) \<and>
     (main_pc s = Proceeding \<longrightarrow> tally (subs s) = n) \<and>
     (main_pc s = Waiting \<longrightarrow> tally (subs s) < n \<or> (\<exists>j<n. subs s ! j = Notifying))"

lemma sub_ok_start: "sub_ok conn None j Connecting"
  by (simp add: sub_ok_def)

lemma sub_okE:
  assumes "meeting_inv conn s" and "j < n"
  shows "holder s = Some (Suc j) \<longleftrightarrow> subs s ! j = Updating" "subs s ! j = Panicked \<Longrightarrow> \<not> conn j"
    "subs s ! j \<noteq> Connecting \<Longrightarrow> subs s ! j \<noteq> Panicked \<Longrightarrow> conn j"
  using assms unfolding meeting_inv_def sub_ok_def by blast+

lemma sub_ok_release: "sub_ok conn (Some k) j pc \<Longrightarrow> k \<noteq> Suc j \<Longrightarrow> sub_ok conn None j pc"
  by (simp add: sub_ok_def)

lemma sub_ok_take: "sub_ok conn None j pc \<Longrightarrow> k \<noteq> Suc j \<Longrightarrow> sub_ok conn (Some k) j pc"
  by (simp add: sub_ok_def)

text \<open>A step of subscriber \<open>j\<close> has to keep only its own part, the others see at most the lock change hands.\<close>

lemma subs_ok_update:
  assumes "\<forall>i<n. sub_ok conn h i (pcs ! i)" and "length pcs = n" and "sub_ok conn h' j pc"
    and "\<And>i pc. i \<noteq> j \<Longrightarrow> sub_ok conn h i pc \<Longrightarrow> sub_ok conn h' i pc"
  shows "\<forall>i<n. sub_ok conn h' i (pcs[j := pc] ! i)"
  using assms by (metis nth_list_update_eq nth_list_update_neq)

lemma inv_start: "meeting_inv conn (meeting init n)"
  by (auto simp: meeting_inv_def meeting_def tally_def met_def sub_ok_def)

lemma inv_update:
  assumes "meeting_inv conn s" and "j < length (subs s)" and "met (subs s ! j) = met pc"
  shows "tally ((subs s)[j := pc]) = tally (subs s)"
  using assms(3) tally_update [OF assms(2), of pc] by simp

text \<open>
  A subscriber's step keeps the invariant when it hands over its own part, the lock and the value stay in
  order, and a waiting publisher is still owed a report or a notification.
\<close>

lemma sub_step:
  assumes inv: "meeting_inv conn s" and j: "j < n" and own: "sub_ok conn h j pc"
    and others: "\<And>i pc. i \<noteq> j \<Longrightarrow> sub_ok conn (holder s) i pc \<Longrightarrow> sub_ok conn h i pc"
    and val: "v = (upd ^^ tally ((subs s)[j := pc])) init"
    and lock: "h = Some 0 \<longleftrightarrow> mp = Checking" "\<And>i. h = Some (Suc i) \<Longrightarrow> i < n"
    and goes: "mp = Proceeding \<Longrightarrow> tally ((subs s)[j := pc]) = n"
    and owed: "mp = Waiting \<Longrightarrow> tally ((subs s)[j := pc]) < n \<or> (\<exists>i<n. (subs s)[j := pc] ! i = Notifying)"
  shows "meeting_inv conn (s\<lparr>flag := v, holder := h, main_pc := mp, subs := (subs s)[j := pc]\<rparr>)"
proof -
  have len: "length (subs s) = n" and ok: "\<forall>i<n. sub_ok conn (holder s) i (subs s ! i)"
    using inv by (simp_all add: meeting_inv_def)
  have "\<forall>i<n. sub_ok conn h i ((subs s)[j := pc] ! i)"
    by (rule subs_ok_update [OF ok len own]) (rule others)
  with len val lock goes owed show ?thesis unfolding meeting_inv_def by simp
qed

lemma still_notifying:
  assumes "\<exists>i<n. subs s ! i = Notifying" and "subs s ! j \<noteq> Notifying"
  shows "\<exists>i<n. (subs s)[j := pc] ! i = Notifying"
  using assms by (metis nth_list_update_neq)

lemma inv_connects:
  assumes inv: "meeting_inv conn s" and j: "j < length (subs s)" and pc: "subs s ! j = Connecting"
  shows "meeting_inv conn (s\<lparr>subs := (subs s)[j := if conn j then Locking else Panicked]\<rparr>)"
proof -
  let ?pc = "if conn j then Locking else Panicked"
  have t: "tally ((subs s)[j := ?pc]) = tally (subs s)" using inv_update [OF inv j, of ?pc] pc by (simp add: met_def)
  have jn: "j < n" using inv j by (simp add: meeting_inv_def)
  have "sub_ok conn (holder s) j ?pc" using sub_okE(1) [OF inv jn] pc by (simp add: sub_ok_def)
  moreover have "main_pc s = Waiting \<Longrightarrow> tally (subs s) < n \<or> (\<exists>i<n. (subs s)[j := ?pc] ! i = Notifying)"
    using inv still_notifying [of s j ?pc] pc unfolding meeting_inv_def by fastforce
  ultimately have "meeting_inv conn (s\<lparr>flag := flag s, holder := holder s, main_pc := main_pc s, subs := (subs s)[j := ?pc]\<rparr>)"
    using inv t by (intro sub_step [OF inv jn]) (simp_all add: meeting_inv_def)
  then show ?thesis by simp
qed

lemma inv_locks:
  assumes inv: "meeting_inv conn s" and j: "j < length (subs s)" and pc: "subs s ! j = Locking" and free: "holder s = None"
  shows "meeting_inv conn (s\<lparr>holder := Some (Suc j), subs := (subs s)[j := Updating]\<rparr>)"
proof -
  have t: "tally ((subs s)[j := Updating]) = tally (subs s)" using inv_update [OF inv j, of Updating] pc by (simp add: met_def)
  have jn: "j < n" using inv j by (simp add: meeting_inv_def)
  have "sub_ok conn (Some (Suc j)) j Updating" using sub_okE(3) [OF inv jn] pc by (simp add: sub_ok_def)
  moreover have "main_pc s = Waiting \<Longrightarrow> tally (subs s) < n \<or> (\<exists>i<n. (subs s)[j := Updating] ! i = Notifying)"
    using inv still_notifying [of s j Updating] pc unfolding meeting_inv_def by fastforce
  ultimately have "meeting_inv conn (s\<lparr>flag := flag s, holder := Some (Suc j), main_pc := main_pc s, subs := (subs s)[j := Updating]\<rparr>)"
    using inv t free jn by (intro sub_step [OF inv jn]) (simp_all add: meeting_inv_def sub_ok_take)
  then show ?thesis by simp
qed

lemma inv_updates:
  assumes inv: "meeting_inv conn s" and j: "j < length (subs s)" and pc: "subs s ! j = Updating"
  shows "meeting_inv conn (s\<lparr>flag := upd (flag s), holder := None, subs := (subs s)[j := Notifying]\<rparr>)"
proof -
  have t: "tally ((subs s)[j := Notifying]) = Suc (tally (subs s))"
    using tally_update [OF j, of Notifying] pc by (simp add: met_def)
  have jn: "j < n" using inv j by (simp add: meeting_inv_def)
  have h: "holder s = Some (Suc j)" using sub_okE(1) [OF inv jn] pc by simp
  have "sub_ok conn None j Notifying" using sub_okE(3) [OF inv jn] pc by (simp add: sub_ok_def)
  moreover have "tally ((subs s)[j := Notifying]) \<le> n" "\<exists>i<n. (subs s)[j := Notifying] ! i = Notifying"
    using tally_le [of "(subs s)[j := Notifying]"] inv j jn by (auto simp: meeting_inv_def)
  ultimately show ?thesis
    using sub_step [OF inv jn, of None Notifying "upd (flag s)" "main_pc s"] inv t h
    by (auto simp: meeting_inv_def sub_ok_release)
qed

lemma inv_notifies:
  assumes inv: "meeting_inv conn s" and j: "j < length (subs s)" and pc: "subs s ! j = Notifying"
  shows "meeting_inv conn (s\<lparr>main_pc := if main_pc s = Waiting then Waking else main_pc s, subs := (subs s)[j := Receiving]\<rparr>)"
proof -
  have t: "tally ((subs s)[j := Receiving]) = tally (subs s)" using inv_update [OF inv j, of Receiving] pc by (simp add: met_def)
  have jn: "j < n" using inv j by (simp add: meeting_inv_def)
  have "sub_ok conn (holder s) j Receiving" using sub_okE(1,3) [OF inv jn] pc by (simp add: sub_ok_def)
  moreover define mp where "mp = (if main_pc s = Waiting then Waking else main_pc s)"
  moreover have "mp \<noteq> Waiting" "mp = Checking \<longleftrightarrow> main_pc s = Checking" "mp = Proceeding \<longleftrightarrow> main_pc s = Proceeding"
    by (simp_all add: mp_def)
  ultimately have "meeting_inv conn (s\<lparr>flag := flag s, holder := holder s, main_pc := mp, subs := (subs s)[j := Receiving]\<rparr>)"
    using inv t by (intro sub_step [OF inv jn]) (simp_all add: meeting_inv_def)
  then show ?thesis by (simp add: mp_def)
qed

lemma inv_main_locks:
  assumes "meeting_inv conn s" and "holder s = None"
  shows "meeting_inv conn (s\<lparr>holder := Some 0, main_pc := Checking\<rparr>)"
  using assms by (simp add: meeting_inv_def sub_ok_take)

lemma inv_main_releases:
  assumes inv: "meeting_inv conn s" and pc: "main_pc s = Checking"
  shows "meeting_inv conn (s\<lparr>holder := None, main_pc := if go (flag s) then Proceeding else Waiting\<rparr>)"
proof -
  have "tally (subs s) \<le> n" using tally_le [of "subs s"] inv by (simp add: meeting_inv_def)
  moreover from this have "go (flag s) \<longleftrightarrow> tally (subs s) = n" using inv by (simp add: meeting_inv_def go_iff)
  moreover have "holder s = Some 0" using inv pc by (simp add: meeting_inv_def)
  ultimately show ?thesis using inv by (auto simp: meeting_inv_def sub_ok_release)
qed

lemma inv_meet:
  assumes "meet conn upd go s s'" and "meeting_inv conn s"
  shows "meeting_inv conn s'"
  using assms
proof (induction rule: meet.induct)
  case (main_goes s)
  then show ?case using inv_main_releases [of conn s] by simp
next
  case (main_waits s)
  then show ?case using inv_main_releases [of conn s] by simp
qed (simp_all only: inv_connects inv_locks inv_updates inv_notifies inv_main_locks)

lemma inv_any:
  assumes "meet_any conn upd go s s'" and "meeting_inv conn s"
  shows "meeting_inv conn s'"
  using assms
proof (cases rule: meet_any.cases)
  case genuine
  with assms(2) show ?thesis by (blast intro: inv_meet)
next
  case spurious
  with assms(2) show ?thesis by (auto simp: meeting_inv_def)
qed

lemma inv_reachable: "(meet_any conn upd go)\<^sup>*\<^sup>* (meeting init n) s \<Longrightarrow> meeting_inv conn s"
  by (induction rule: rtranclp_induct) (auto intro: inv_start inv_any)

text \<open>Proceeding means that everybody has connected and reported.\<close>

lemma proceeds_all_met:
  assumes "meeting_inv conn s" and "main_pc s = Proceeding"
  shows "\<forall>j<n. met (subs s ! j) \<and> conn j"
proof -
  have "\<forall>j<n. met (subs s ! j)" using assms tally_full [of "subs s"] by (simp add: meeting_inv_def)
  moreover have "met (subs s ! j) \<Longrightarrow> subs s ! j \<noteq> Connecting \<and> subs s ! j \<noteq> Panicked" for j by (auto simp: met_def)
  ultimately show ?thesis using sub_okE(3) [OF assms(1)] by blast
qed

text \<open>Where no thread can take a step, the waiting has ended as it should: no wake-up has been lost.\<close>

lemma stuck_outcome:
  assumes inv: "meeting_inv conn s" and stuck: "\<nexists>s'. meet conn upd go s s'"
  shows "main_pc s = (if \<forall>j<n. conn j then Proceeding else Waiting)"
proof -
  have len: "length (subs s) = n" using inv by (simp add: meeting_inv_def)
  have no: "subs s ! j \<noteq> Connecting" "subs s ! j \<noteq> Updating" "subs s ! j \<noteq> Notifying" if "j < n" for j
    using stuck that len meet.intros(1,3,4) [of j s] by blast+
  have main: "main_pc s \<noteq> Checking" using stuck meet.intros(6,7) [of s] by blast
  with inv have "holder s \<noteq> Some 0" by (simp add: meeting_inv_def)
  moreover have "holder s \<noteq> Some (Suc j)" for j
    using inv no(2) [of j] sub_okE(1) [OF inv, of j] by (auto simp: meeting_inv_def)
  ultimately have free: "holder s = None" by (metis not0_implies_Suc option.exhaust)
  have lock: "subs s ! j \<noteq> Locking" if "j < n" for j
    using stuck that len free meet.intros(2) [of j s] by blast
  have "main_pc s \<noteq> AtLock" "main_pc s \<noteq> Waking" using stuck meet.intros(5) [of s] free by blast+
  with main have pc: "main_pc s = Waiting \<or> main_pc s = Proceeding" by (cases "main_pc s") auto
  show ?thesis
  proof (cases "\<forall>j<n. conn j")
    case True
    have "met (subs s ! j)" if "j < n" for j
      using no [OF that] lock [OF that] True sub_okE(2) [OF inv that] that by (cases "subs s ! j") (auto simp: met_def)
    then have "tally (subs s) = n" using inv tally_full [of "subs s"] by (simp add: meeting_inv_def)
    with inv no(3) have "main_pc s \<noteq> Waiting" by (auto simp: meeting_inv_def)
    with True pc show ?thesis by simp
  next
    case False
    with proceeds_all_met [OF inv] pc show ?thesis by auto
  qed
qed

lemma runs_end:
  assumes "(meet_any conn upd go)\<^sup>*\<^sup>* (meeting init n) s" and "(meet conn upd go ^^ k) s s'"
  shows "k + work s' \<le> work s \<and> meeting_inv conn s'"
  using assms(2)
proof (induction k arbitrary: s')
  case 0
  then show ?case using inv_reachable [OF assms(1)] by simp
next
  case (Suc k)
  then obtain t where "(meet conn upd go ^^ k) s t" "meet conn upd go t s'" by auto
  with Suc.IH meet_works [of conn upd go t s'] inv_meet [of conn t s'] show ?case by fastforce
qed

end

interpretation flag_gate: gate "\<lambda>_. True" False id 1
proof
  fix k :: nat
  assume "k \<le> 1"
  then consider "k = 0" | "k = 1" by linarith
  then show "id (((\<lambda>_. True) ^^ k) False) \<longleftrightarrow> k = 1" by cases simp_all
qed

interpretation count_gate: gate Suc 0 "\<lambda>c. n \<le> c" n for n
proof
  fix k :: nat
  have "(Suc ^^ k) 0 = k" by (induction k) simp_all
  then show "k \<le> n \<Longrightarrow> n \<le> (Suc ^^ k) 0 \<longleftrightarrow> k = n" by auto
qed

section \<open>The benchmarks' meetings\<close>

text \<open>
  \<open>bench_bus\<close> waits for a flag that its one subscriber raises, \<open>bench_bus_fanout\<close> for a count of all its
  subscribers; a subscriber's connection succeeds or panics as \<open>sub_connect\<close> says.
\<close>

definition sub_connects :: "BusEnv \<Rightarrow> string \<Rightarrow> nat \<Rightarrow> bool" where
  "sub_connects env addr j \<longleftrightarrow> sub_connect env addr j \<noteq> None"

definition bench_bus_meets :: "BusEnv \<Rightarrow> string \<Rightarrow> bool Meeting \<Rightarrow> bool Meeting \<Rightarrow> bool" where
  "bench_bus_meets env addr = meet (sub_connects env addr) (\<lambda>_. True) id"

definition bench_bus_meets_any :: "BusEnv \<Rightarrow> string \<Rightarrow> bool Meeting \<Rightarrow> bool Meeting \<Rightarrow> bool" where
  "bench_bus_meets_any env addr = meet_any (sub_connects env addr) (\<lambda>_. True) id"

definition fanout_meets :: "BusEnv \<Rightarrow> string \<Rightarrow> nat \<Rightarrow> nat Meeting \<Rightarrow> nat Meeting \<Rightarrow> bool" where
  "fanout_meets env addr n = meet (sub_connects env addr) Suc (\<lambda>c. n \<le> c)"

definition fanout_meets_any :: "BusEnv \<Rightarrow> string \<Rightarrow> nat \<Rightarrow> nat Meeting \<Rightarrow> nat Meeting \<Rightarrow> bool" where
  "fanout_meets_any env addr n = meet_any (sub_connects env addr) Suc (\<lambda>c. n \<le> c)"

lemma those_None_iff: "those xs = None \<longleftrightarrow> None \<in> set xs"
  by (induction xs) (auto split: option.splits)

lemma fanout_connects: "those (map (sub_connect env addr) [0..<n]) \<noteq> None \<longleftrightarrow> (\<forall>j<n. sub_connects env addr j)"
  unfolding those_None_iff sub_connects_def by (auto simp: image_iff eq_commute [of None])

text \<open>
  The publisher waits for everybody. In every interleaving, spurious wake-ups included, the
  publishing thread of a fan-out run goes on only when all \<open>n\<close> subscribers have connected, sent their handshake
  and reported; and at most one thread is inside the critical section.
\<close>

lemma fanout_waits_for_all:
  assumes "(fanout_meets_any env addr n)\<^sup>*\<^sup>* (meeting 0 n) s"
  shows "(main_pc s = Proceeding \<longrightarrow> flag s = n \<and> (\<forall>j<n. met (subs s ! j) \<and> sub_connects env addr j)) \<and>
    (\<forall>i<n. \<forall>j<n. subs s ! i = Updating \<longrightarrow> main_pc s \<noteq> Checking \<and> (subs s ! j = Updating \<longrightarrow> i = j))"
proof -
  have inv: "count_gate.meeting_inv n (sub_connects env addr) s"
    using assms unfolding fanout_meets_any_def by (rule count_gate.inv_reachable)
  have count: "flag s = tally (subs s)"
    using inv by (simp add: count_gate.meeting_inv_def)
  have holds: "holder s = Some (Suc j)" if "j < n" "subs s ! j = Updating" for j
    using count_gate.sub_okE(1) [OF inv that(1)] that(2) by blast
  have "holder s = Some 0 \<longleftrightarrow> main_pc s = Checking" using inv by (simp add: count_gate.meeting_inv_def)
  then have "\<forall>i<n. \<forall>j<n. subs s ! i = Updating \<longrightarrow> main_pc s \<noteq> Checking \<and> (subs s ! j = Updating \<longrightarrow> i = j)"
    by (metis holds Suc_inject nat.distinct(1) option.inject)
  moreover have "flag s = n" if "main_pc s = Proceeding"
    using inv count that by (simp add: count_gate.meeting_inv_def)
  ultimately show ?thesis using count_gate.proceeds_all_met [OF inv] by blast
qed

text \<open>
  C25: no wake-up is lost. From every reachable state the genuine steps run out after at most
  \<open>work s\<close> of them, and where no thread can move any more the publishing thread has gone on if all
  subscribers connected, and is blocked in its wait for good if one of them did not: what \<open>bench_bus_fanout\<close> returns
  \<open>None\<close> for.
\<close>

theorem fanout_wait_outcome:
  assumes "(fanout_meets_any env addr n)\<^sup>*\<^sup>* (meeting 0 n) s" and "(fanout_meets env addr n ^^ k) s s'"
  shows "k \<le> work s \<and>
    ((\<nexists>s''. fanout_meets env addr n s' s'') \<longrightarrow>
       main_pc s' = (if those (map (sub_connect env addr) [0..<n]) \<noteq> None then Proceeding else Waiting))"
proof -
  have "k + work s' \<le> work s \<and> count_gate.meeting_inv n (sub_connects env addr) s'"
    using assms unfolding fanout_meets_def fanout_meets_any_def by (rule count_gate.runs_end)
  with count_gate.stuck_outcome [of n "sub_connects env addr" s'] show ?thesis
    unfolding fanout_connects fanout_meets_def by auto
qed

text \<open>
  The same for the single subscriber of \<open>bench_bus\<close>: when it cannot connect, the publishing thread ends
  blocked in its wait, and the message that tells the user to start the bus is never printed.
\<close>

lemma bench_bus_wait_outcome:
  assumes "(bench_bus_meets_any env addr)\<^sup>*\<^sup>* (meeting False 1) s" and "(bench_bus_meets env addr ^^ k) s s'"
  shows "k \<le> work s \<and>
    ((\<nexists>s''. bench_bus_meets env addr s' s'') \<longrightarrow>
       main_pc s' = (if sub_connect env addr 0 \<noteq> None then Proceeding else Waiting))"
proof -
  have "k + work s' \<le> work s \<and> flag_gate.meeting_inv (sub_connects env addr) s'"
    using assms unfolding bench_bus_meets_def bench_bus_meets_any_def by (rule flag_gate.runs_end)
  with flag_gate.stuck_outcome [of "sub_connects env addr" s'] show ?thesis
    unfolding bench_bus_meets_def by (auto simp: sub_connects_def)
qed

text \<open>The redis benchmarks meet in the same two ways, over the package's connections.\<close>

definition redis_connects :: "(nat \<Rightarrow> ('e, 'cl, 'con, 'ps, 'm) Redis) \<Rightarrow> string \<Rightarrow> nat \<Rightarrow> bool" where
  "redis_connects redis addr j \<longleftrightarrow> (case redis_join (redis (Suc j)) (redis_url addr) of Inl _ \<Rightarrow> False | Inr _ \<Rightarrow> True)"

lemma redis_wait_outcome:
  assumes "(meet_any (redis_connects redis addr) (\<lambda>_. True) id)\<^sup>*\<^sup>* (meeting False 1) s"
    and "(meet (redis_connects redis addr) (\<lambda>_. True) id ^^ k) s s'"
    and "\<nexists>s''. meet (redis_connects redis addr) (\<lambda>_. True) id s' s''"
  shows "main_pc s' = (if redis_connects redis addr 0 then Proceeding else Waiting)"
  using flag_gate.runs_end [OF assms(1,2)] flag_gate.stuck_outcome [OF _ assms(3)] by simp

lemma redis_fanout_wait_outcome:
  assumes "(meet_any (redis_connects redis addr) Suc (\<lambda>c. n \<le> c))\<^sup>*\<^sup>* (meeting 0 n) s"
    and "(meet (redis_connects redis addr) Suc (\<lambda>c. n \<le> c) ^^ k) s s'"
    and "\<nexists>s''. meet (redis_connects redis addr) Suc (\<lambda>c. n \<le> c) s' s''"
  shows "main_pc s' = (if \<forall>j<n. redis_connects redis addr j then Proceeding else Waiting)"
  using count_gate.runs_end [OF assms(1,2)] count_gate.stuck_outcome [OF _ assms(3)] by simp

section \<open>Concrete runs\<close>

text \<open>Nobody listens on the bus's port: the subscriber panics, the publisher waits.\<close>

definition deserted :: BusEnv where
  "deserted = \<lparr>env_dial = \<lambda>_. Inl ConnectFailed, sub_dial = \<lambda>_ _. Inl ConnectFailed, env_nodelay = \<lambda>_. Inr (),
     env_clk = \<lambda>t. t, t_zero = 0, env_wall = \<lambda>_. Some 7, recv_now = \<lambda>_ _. 0, env_inbox = \<lambda>_. []\<rparr>"

lemma deserted_sub: "sub_connect deserted addr j = None"
  by (simp add: sub_connect_def connect_filtered_wire deserted_def)

lemma deserted_sub_connects: "\<not> sub_connects deserted addr j"
  by (simp add: sub_connects_def deserted_sub)

definition lonely :: "'v \<Rightarrow> 'v Meeting" where
  "lonely v = \<lparr>flag = v, holder = None, main_pc = Waiting, subs = [Panicked]\<rparr>"

lemma lonely_run:
  assumes "\<not> conn 0" and "\<not> go v"
  shows "(meet conn upd go ^^ 3) (meeting v 1) (lonely v)" "\<nexists>s. meet conn upd go (lonely v) s"
proof -
  let ?s1 = "(meeting v 1)\<lparr>subs := [Panicked]\<rparr>"
  let ?s2 = "?s1\<lparr>holder := Some 0, main_pc := Checking\<rparr>"
  have "meet conn upd go (meeting v 1) ?s1"
    using connects [of 0 "meeting v 1" conn upd go] assms(1) by (simp add: meeting_def)
  moreover have "meet conn upd go ?s1 ?s2"
    using main_locks [of ?s1 conn upd go] by (simp add: meeting_def)
  moreover have "meet conn upd go ?s2 (lonely v)"
    using main_waits [of ?s2 go conn upd] assms(2) by (simp add: meeting_def lonely_def)
  ultimately show "(meet conn upd go ^^ 3) (meeting v 1) (lonely v)"
    by (auto simp: numeral_3_eq_3 intro!: relcomppI)
  show "\<nexists>s. meet conn upd go (lonely v) s"
    by (auto simp: lonely_def elim!: meet.cases)
qed

text \<open>One subscriber that connects and reports before the publisher looks.\<close>

definition greeted :: "'v \<Rightarrow> 'v Meeting" where
  "greeted v = \<lparr>flag = v, holder = None, main_pc = Proceeding, subs = [Receiving]\<rparr>"

lemma greeted_run:
  assumes "conn 0" and "go (upd v)"
  shows "(meet conn upd go)\<^sup>*\<^sup>* (meeting v 1) (greeted (upd v))"
proof -
  let ?s = "\<lambda>v h m pc. \<lparr>flag = v, holder = h, main_pc = m, subs = [pc]\<rparr>"
  have "meet conn upd go (meeting v 1) (?s v None AtLock Locking)"
    using connects [of 0 "meeting v 1" conn upd go] assms(1) by (simp add: meeting_def)
  moreover have "meet conn upd go (?s v None AtLock Locking) (?s v (Some 1) AtLock Updating)"
    using locks [of 0 "?s v None AtLock Locking" conn upd go] by simp
  moreover have "meet conn upd go (?s v (Some 1) AtLock Updating) (?s (upd v) None AtLock Notifying)"
    using updates [of 0 "?s v (Some 1) AtLock Updating" conn upd go] by simp
  moreover have "meet conn upd go (?s (upd v) None AtLock Notifying) (?s (upd v) None AtLock Receiving)"
    using notifies [of 0 "?s (upd v) None AtLock Notifying" conn upd go] by simp
  moreover have "meet conn upd go (?s (upd v) None AtLock Receiving) (?s (upd v) (Some 0) Checking Receiving)"
    using main_locks [of "?s (upd v) None AtLock Receiving" conn upd go] by simp
  moreover have "meet conn upd go (?s (upd v) (Some 0) Checking Receiving) (greeted (upd v))"
    using main_goes [of "?s (upd v) (Some 0) Checking Receiving" go conn upd] assms(2) by (simp add: greeted_def)
  ultimately show ?thesis by (meson converse_rtranclp_into_rtranclp rtranclp.rtrancl_refl)
qed

lemma meet_any_run: "(meet conn upd go)\<^sup>*\<^sup>* s s' \<Longrightarrow> (meet_any conn upd go)\<^sup>*\<^sup>* s s'"
  by (erule rtranclp_mono [THEN predicate2D, rotated]) (blast intro: genuine)

lemma fanout_waits_for_all_example:
  "(fanout_meets_any demo_env ''bus'' 1)\<^sup>*\<^sup>* (meeting 0 1) (greeted 1) \<and> flag (greeted (1 :: nat)) = 1 \<and>
   sub_connects demo_env ''bus'' 0"
proof -
  have "sub_connects demo_env ''bus'' 0" using demo_connects(1) [of "''bus''" 0] by (auto simp: sub_connects_def)
  then have run: "(fanout_meets_any demo_env ''bus'' 1)\<^sup>*\<^sup>* (meeting 0 1) (greeted 1)"
    using meet_any_run [OF greeted_run [of "sub_connects demo_env ''bus''" "\<lambda>c. 1 \<le> c" Suc 0]]
    by (simp add: fanout_meets_any_def)
  with fanout_waits_for_all [OF run] show ?thesis by (simp add: greeted_def)
qed

theorem fanout_wait_outcome_witness:
  "(fanout_meets deserted ''bus'' 1 ^^ 3) (meeting 0 1) (lonely 0) \<and>
   (\<nexists>s. fanout_meets deserted ''bus'' 1 (lonely 0) s) \<and> main_pc (lonely (0 :: nat)) = Waiting"
proof -
  have run: "(fanout_meets deserted ''bus'' 1 ^^ 3) (meeting 0 1) (lonely 0)"
    and stuck: "\<nexists>s. fanout_meets deserted ''bus'' 1 (lonely 0) s"
    unfolding fanout_meets_def by (rule lonely_run; simp add: deserted_sub_connects)+
  from fanout_wait_outcome [OF rtranclp.rtrancl_refl run] stuck deserted_sub have "main_pc (lonely (0 :: nat)) = Waiting"
    by simp
  with run stuck show ?thesis by blast
qed

lemma bench_bus_wait_outcome_example:
  "(bench_bus_meets deserted ''bus'' ^^ 3) (meeting False 1) (lonely False) \<and>
   (\<nexists>s. bench_bus_meets deserted ''bus'' (lonely False) s) \<and> main_pc (lonely False) = Waiting"
proof -
  have run: "(bench_bus_meets deserted ''bus'' ^^ 3) (meeting False 1) (lonely False)"
    and stuck: "\<nexists>s. bench_bus_meets deserted ''bus'' (lonely False) s"
    unfolding bench_bus_meets_def by (rule lonely_run; simp add: deserted_sub_connects)+
  from bench_bus_wait_outcome [OF rtranclp.rtrancl_refl run] stuck deserted_sub have "main_pc (lonely False) = Waiting"
    by simp
  with run stuck show ?thesis by blast
qed

end
