(* ===== verification/Latency_Main.thy ===== *)
theory Latency_Main
  imports Latency_Args Latency_Report Latency_Rendezvous
begin

text \<open>
  The latency benchmark's \<open>main\<close> (\<open>bench/src/bin/latency.rs\<close>) over its parts: the arguments, the
  two measurements, their statistics and the comparison, with what is printed before it
  finishes, panics or waits for ever.
\<close>

section \<open>Definitions\<close>

datatype Mode = SingleSubscriber | FanOut u64

text \<open>
  The lines printed, without their decoration. A \<open>Cut\<close> is what \<open>print_stats\<close> or
  \<open>print_comparison\<close> has printed when it panics: the label, the number of samples and the values
  up to the panic, or the heading and the rows up to it.
\<close>

datatype 'e BenchLine =
  UnknownArg string
| ManySubscribers u64
| Parameters Args Mode F64
| BusDone nat
| BusStats Mode Summary
| BusCut Mode nat "(string \<times> F64) list"
| BusFailed io_error
| RedisDone nat
| RedisStats Mode Summary
| RedisCut Mode nat "(string \<times> F64) list"
| RedisFailed 'e
| Comparison Mode "CompareRow list \<times> F64 \<times> F64"
| ComparisonCut Mode "(string \<times> CompareRow) list"

text \<open>How a part of \<open>main\<close> ends: with a value, in a panic, or never.\<close>

datatype 'a ending = Finished 'a | Crashed | Hung

definition bus_run :: "bool \<Rightarrow> BusEnv \<Rightarrow> Args \<Rightarrow> u64 \<Rightarrow> (io_error + u64 list) outcome option" where
  "bus_run checks env a n_subs =
     (if 1 < n_subs then bench_bus_fanout checks env (bus_addr a) (n_warmup a) (n_msgs a) (rate_hz a) (unat n_subs)
      else bench_bus checks env (bus_addr a) (n_warmup a) (n_msgs a) (rate_hz a))"

definition bus_section ::
  "bool \<Rightarrow> (F64 \<Rightarrow> F64) \<Rightarrow> BusEnv \<Rightarrow> Args \<Rightarrow> Mode \<Rightarrow> u64 \<Rightarrow> 'e BenchLine list \<times> u64 list ending" where
  "bus_section checks square env a mode n_subs =
     (if no_bus a then ([], Finished [])
      else case bus_run checks env a n_subs of
        None \<Rightarrow> ([], Hung)
      | Some Panic \<Rightarrow> ([], Crashed)
      | Some (Ret (Inl e)) \<Rightarrow> ([BusFailed e], Finished [])
      | Some (Ret (Inr lats)) \<Rightarrow>
          (case print_stats checks square lats (\<not> no_hist a) of
             Panic \<Rightarrow>
               ([BusDone (length lats), BusCut mode (length lats) (until_panic (stats_values checks square lats))], Crashed)
           | Ret S \<Rightarrow> ([BusDone (length lats), BusStats mode S], Finished lats)))"

definition redis_run ::
  "bool \<Rightarrow> BusEnv \<Rightarrow> (nat \<Rightarrow> ('e, 'cl, 'con, 'ps, 'm) Redis) \<Rightarrow> Args \<Rightarrow> u64 \<Rightarrow> ('e + u64 list) outcome option" where
  "redis_run checks env redis a n_subs =
     (if 1 < n_subs
      then bench_redis_fanout checks env redis (redis_addr a) (n_warmup a) (n_msgs a) (rate_hz a) (unat n_subs)
      else bench_redis checks env redis (redis_addr a) (n_warmup a) (n_msgs a) (rate_hz a))"

definition redis_section ::
  "bool \<Rightarrow> (F64 \<Rightarrow> F64) \<Rightarrow> BusEnv \<Rightarrow> (nat \<Rightarrow> ('e, 'cl, 'con, 'ps, 'm) Redis) \<Rightarrow> Args \<Rightarrow> Mode \<Rightarrow> u64
     \<Rightarrow> 'e BenchLine list \<times> u64 list ending" where
  "redis_section checks square env redis a mode n_subs =
     (if no_redis a then ([], Finished [])
      else case redis_run checks env redis a n_subs of
        None \<Rightarrow> ([], Hung)
      | Some Panic \<Rightarrow> ([], Crashed)
      | Some (Ret (Inl e)) \<Rightarrow> ([RedisFailed e], Finished [])
      | Some (Ret (Inr lats)) \<Rightarrow>
          (case print_stats checks square lats (\<not> no_hist a) of
             Panic \<Rightarrow>
               ([RedisDone (length lats), RedisCut mode (length lats) (until_panic (stats_values checks square lats))], Crashed)
           | Ret S \<Rightarrow> ([RedisDone (length lats), RedisStats mode S], Finished lats)))"

definition compare_section :: "bool \<Rightarrow> Mode \<Rightarrow> u64 list \<Rightarrow> u64 list \<Rightarrow> 'e BenchLine list \<times> unit ending" where
  "compare_section checks mode bus_lats redis_lats =
     (if bus_lats \<noteq> [] \<and> redis_lats \<noteq> [] then
        (case print_comparison checks bus_lats redis_lats of
           Panic \<Rightarrow>
             ([ComparisonCut mode (until_panic (map (\<lambda>lp. (fst lp, compare_row checks (sort bus_lats) (sort redis_lats) lp))
                 compare_points))], Crashed)
         | Ret c \<Rightarrow> ([Comparison mode c], Finished ()))
      else ([], Finished ()))"

text \<open>One part of \<open>main\<close> after another.\<close>

fun and_then :: "'l list \<times> 'a ending \<Rightarrow> ('a \<Rightarrow> 'l list \<times> 'b ending) \<Rightarrow> 'l list \<times> 'b ending" where
  "and_then (ls, Finished x) f = (let (ls', r) = f x in (ls @ ls', r))"
| "and_then (ls, Crashed) f = (ls, Crashed)"
| "and_then (ls, Hung) f = (ls, Hung)"

definition latency_main ::
  "bool \<Rightarrow> (F64 \<Rightarrow> F64) \<Rightarrow> BusEnv \<Rightarrow> BusEnv \<Rightarrow> (nat \<Rightarrow> ('e, 'cl, 'con, 'ps, 'm) Redis) \<Rightarrow> string list
     \<Rightarrow> 'e BenchLine list \<times> unit ending" where
  "latency_main checks square bus_env redis_env redis argv =
     (case parse_args argv of
        Panic \<Rightarrow> (map UnknownArg (reported argv), Crashed)
      | Ret (a, unknown) \<Rightarrow>
         (case add_u checks (n_msgs a) (n_warmup a) of
            Panic \<Rightarrow> (map UnknownArg unknown, Crashed)
          | Ret n_total \<Rightarrow>
             let est_secs = f64_div (f64_of_u64 n_total) (f64_of_u64 (rate_hz a));
                 n_subs = max (subscribers a) 1;
                 mode = (if 1 < n_subs then FanOut n_subs else SingleSubscriber);
                 many = (if 200 < n_subs then [ManySubscribers n_subs] else [])
             in and_then (map UnknownArg unknown @ many @ [Parameters a mode est_secs], Finished ()) (\<lambda>_.
                and_then (bus_section checks square bus_env a mode n_subs) (\<lambda>bus_lats.
                and_then (redis_section checks square redis_env redis a mode n_subs) (\<lambda>redis_lats.
                  compare_section checks mode bus_lats redis_lats)))))"

section \<open>How many samples there are\<close>

lemma record_latency_length:
  "record_latency recv warm payload lats = Ret lats' \<Longrightarrow> length lats' \<le> length lats + of_bool warm"
  by (auto simp: record_latency_def obind_eq_Ret_iff split: if_splits option.splits)

lemma collect_length:
  "collect recv now w i k lats s = Ret (lats', s') \<Longrightarrow> length lats' \<le> length lats + (i + k - max w i)"
proof (induction k arbitrary: i lats s)
  case (Suc k)
  then obtain payload s1 lats1 where "record_latency (now i) (w \<le> i) payload lats = Ret lats1"
    "collect recv now w (Suc i) k lats1 s1 = Ret (lats', s')"
    by (auto simp: obind_eq_Ret_iff)
  with Suc.IH [of "Suc i" lats1 s1] record_latency_length [of "now i" "w \<le> i" payload lats lats1]
  show ?case by (cases "w \<le> i") (simp_all add: max_def split: if_splits)
qed simp

lemma counted_at_most: "add_u checks w n = Ret n_total \<Longrightarrow> unat n_total - unat (w :: u64) \<le> unat n"
  by (auto simp: add_u_def unat_word_ariths split: if_splits intro: le_trans [OF diff_le_mono [OF mod_less_eq_dividend]])

lemma join_all_length:
  "join_all hs = Ret lats \<Longrightarrow> \<forall>h \<in> set hs. \<forall>l. h = Ret l \<longrightarrow> length l \<le> m \<Longrightarrow> length lats \<le> length hs * m"
proof (induction hs arbitrary: lats)
  case (Cons h hs)
  then obtain l ls where "h = Ret l" "join_all hs = Ret ls" "lats = l @ ls" by (auto simp: obind_eq_Ret_iff)
  with Cons.IH [of ls] Cons.prems(2) show ?case by fastforce
qed simp

lemma finish_Inr: "finish published joined = Some (Ret (Inr lats)) \<Longrightarrow> joined = Ret lats"
  by (auto simp: finish_def obind_eq_Ret_iff split: option.splits outcome.splits sum.splits)

lemma bus_subscriber_length:
  "bus_subscriber env j w k sub = Ret lats \<Longrightarrow> length lats \<le> k - w"
  by (auto simp: bus_subscriber_def obind_eq_Ret_iff dest!: collect_length)

lemma redis_subscriber_length:
  "redis_subscriber r now w k ps = Ret lats \<Longrightarrow> length lats \<le> k - w"
  by (auto simp: redis_subscriber_def obind_eq_Ret_iff dest!: collect_length)

lemma bench_bus_length:
  assumes "bench_bus checks env addr w n rate = Some (Ret (Inr lats))"
  shows "length lats \<le> unat n"
proof -
  obtain n_total sub where n: "add_u checks w n = Ret n_total" and
    "bus_subscriber env 0 (unat w) (unat n_total) sub = Ret lats"
    using assms by (auto simp: bench_bus_def split: outcome.splits option.splits sum.splits dest!: finish_Inr)
  from bus_subscriber_length [OF this(2)] counted_at_most [OF n] show ?thesis by simp
qed

lemma bench_redis_length:
  assumes "bench_redis checks env redis addr w n rate = Some (Ret (Inr lats))"
  shows "length lats \<le> unat n"
proof -
  obtain n_total ps where n: "add_u checks w n = Ret n_total" and
    "redis_subscriber (redis 1) (recv_now env 0) (unat w) (unat n_total) ps = Ret lats"
    using assms by (auto simp: bench_redis_def split: outcome.splits option.splits sum.splits dest!: finish_Inr)
  from redis_subscriber_length [OF this(2)] counted_at_most [OF n] show ?thesis by simp
qed

lemma length_those: "those xs = Some ys \<Longrightarrow> length ys = length xs"
  by (induction xs arbitrary: ys) (auto split: option.splits)

lemma bench_bus_fanout_length:
  assumes "bench_bus_fanout checks env addr w n rate n_subs = Some (Ret (Inr lats))"
  shows "length lats \<le> n_subs * unat n"
proof -
  obtain n_total subs where n: "add_u checks w n = Ret n_total" and
    subs: "those (map (sub_connect env addr) [0..<n_subs]) = Some subs" and
    j: "join_all (map (\<lambda>(j, sub). bus_subscriber env j (unat w) (unat n_total) sub) (enumerate 0 subs)) = Ret lats"
    using assms by (auto simp: bench_bus_fanout_def split: outcome.splits option.splits sum.splits dest!: finish_Inr)
  have "length lats \<le> length (map (\<lambda>(j, sub). bus_subscriber env j (unat w) (unat n_total) sub) (enumerate 0 subs)) * unat n"
    using counted_at_most [OF n] by (intro join_all_length [OF j]) (auto dest!: bus_subscriber_length)
  with length_those [OF subs] show ?thesis by simp
qed

lemma bench_redis_fanout_length:
  assumes "bench_redis_fanout checks env redis addr w n rate n_subs = Some (Ret (Inr lats))"
  shows "length lats \<le> n_subs * unat n"
proof -
  obtain n_total pss where n: "add_u checks w n = Ret n_total" and
    subs: "those (map (\<lambda>j. case redis_join (redis (Suc j)) (redis_url addr) of Inl e \<Rightarrow> None | Inr ps \<Rightarrow> Some ps)
      [0..<n_subs]) = Some pss" and
    j: "join_all (map (\<lambda>(j, ps). redis_subscriber (redis (Suc j)) (recv_now env j) (unat w) (unat n_total) ps)
      (enumerate 0 pss)) = Ret lats"
    using assms by (auto simp: bench_redis_fanout_def split: outcome.splits option.splits sum.splits dest!: finish_Inr)
  have "length lats \<le> length (map (\<lambda>(j, ps). redis_subscriber (redis (Suc j)) (recv_now env j) (unat w) (unat n_total) ps)
      (enumerate 0 pss)) * unat n"
    using counted_at_most [OF n] by (intro join_all_length [OF j]) (auto dest!: redis_subscriber_length)
  with length_those [OF subs] show ?thesis by simp
qed

lemma bus_run_length:
  "bus_run checks env a n_subs = Some (Ret (Inr lats)) \<Longrightarrow> length lats \<le> max (unat n_subs) 1 * unat (n_msgs a)"
  by (auto simp: bus_run_def max_def word_less_nat_alt split: if_splits dest: bench_bus_length bench_bus_fanout_length)

lemma redis_run_length:
  "redis_run checks env redis a n_subs = Some (Ret (Inr lats)) \<Longrightarrow> length lats \<le> max (unat n_subs) 1 * unat (n_msgs a)"
  by (auto simp: redis_run_def max_def word_less_nat_alt split: if_splits dest: bench_redis_length bench_redis_fanout_length)

lemma add_u_commute: "add_u checks a b = add_u checks b a"
  by (simp add: add_u_def add.commute)

section \<open>What the program reports\<close>

definition mode_of :: "u64 \<Rightarrow> Mode" where
  "mode_of n_subs = (if 1 < n_subs then FanOut n_subs else SingleSubscriber)"

definition banner :: "string list \<Rightarrow> Args \<Rightarrow> u64 \<Rightarrow> 'e BenchLine list" where
  "banner unknown a n_total =
     (let n_subs = max (subscribers a) 1 in
      map UnknownArg unknown @ (if 200 < n_subs then [ManySubscribers n_subs] else []) @
      [Parameters a (mode_of n_subs) (f64_div (f64_of_u64 n_total) (f64_of_u64 (rate_hz a)))])"

lemma latency_main_eq:
  assumes "parse_args argv = Ret (a, unknown)" and "add_u checks (n_msgs a) (n_warmup a) = Ret n_total"
  shows "latency_main checks square bus_env redis_env redis argv =
    and_then (banner unknown a n_total, Finished ()) (\<lambda>_.
    and_then (bus_section checks square bus_env a (mode_of (max (subscribers a) 1)) (max (subscribers a) 1)) (\<lambda>bus_lats.
    and_then (redis_section checks square redis_env redis a (mode_of (max (subscribers a) 1)) (max (subscribers a) 1))
      (compare_section checks (mode_of (max (subscribers a) 1)) bus_lats)))"
  using assms by (simp add: latency_main_def banner_def mode_of_def Let_def)

text \<open>Sample sets that the statistics can be computed for without a panic.\<close>

definition summable :: "u64 list \<Rightarrow> bool" where
  "summable lats \<longleftrightarrow> lats \<noteq> [] \<and> length lats \<le> 2 ^ 46 \<and> sum_list (map unat lats) \<le> 2 ^ 53"

text \<open>
  C26: a run with both systems up. When each of the two measurements comes back with samples, \<open>main\<close> runs to its
  end: it prints the parameters, the number of samples and the ordered statistics of the bus,
  those of redis, and the comparison with its five bars of at most 48 characters, in this order.
\<close>

theorem latency_main_reports:
  assumes "parse_args argv = Ret (a, unknown)" and "add_u checks (n_msgs a) (n_warmup a) = Ret n_total"
    and "\<not> no_bus a" and "\<not> no_redis a" and "n_subs = max (subscribers a) 1"
    and "bus_run checks bus_env a n_subs = Some (Ret (Inr b))" and "summable b"
    and "redis_run checks redis_env redis a n_subs = Some (Ret (Inr r))" and "summable r"
  shows "\<exists>B R rows x y. latency_main checks square bus_env redis_env redis argv =
      (banner unknown a n_total @ [BusDone (length b), BusStats (mode_of n_subs) B, RedisDone (length r),
         RedisStats (mode_of n_subs) R, Comparison (mode_of n_subs) (rows, x, y)], Finished ()) \<and>
    samples B = length b \<and> f64_val (stat_p50 B) \<le> f64_val (stat_p99 B) \<and>
    samples R = length r \<and> f64_val (stat_p50 R) \<le> f64_val (stat_p99 R) \<and>
    length rows = 5 \<and> list_all (\<lambda>row. cmp_bar row \<le> 48) rows"
proof -
  note b = assms(7) [unfolded summable_def, THEN conjunct1]
    assms(7) [unfolded summable_def, THEN conjunct2, THEN conjunct1]
    assms(7) [unfolded summable_def, THEN conjunct2, THEN conjunct2]
  note r = assms(9) [unfolded summable_def, THEN conjunct1]
    assms(9) [unfolded summable_def, THEN conjunct2, THEN conjunct1]
    assms(9) [unfolded summable_def, THEN conjunct2, THEN conjunct2]
  obtain B where B: "print_stats checks square b (\<not> no_hist a) = Ret B" "samples B = length b"
    "f64_val (stat_p50 B) \<le> f64_val (stat_p99 B)"
    using print_stats_ordered [OF b, of checks square "\<not> no_hist a"] order_trans by blast
  obtain R where R: "print_stats checks square r (\<not> no_hist a) = Ret R" "samples R = length r"
    "f64_val (stat_p50 R) \<le> f64_val (stat_p99 R)"
    using print_stats_ordered [OF r, of checks square "\<not> no_hist a"] order_trans by blast
  obtain rows x y where C: "print_comparison checks b r = Ret (rows, x, y)" "length rows = 5"
    "list_all (\<lambda>row. cmp_bar row \<le> 48) rows"
    using print_comparison_bars [OF b r, of checks] by blast
  have "latency_main checks square bus_env redis_env redis argv =
      (banner unknown a n_total @ [BusDone (length b), BusStats (mode_of n_subs) B, RedisDone (length r),
         RedisStats (mode_of n_subs) R, Comparison (mode_of n_subs) (rows, x, y)], Finished ())"
    unfolding latency_main_eq [OF assms(1,2)] assms(5) [symmetric]
    by (simp add: bus_section_def redis_section_def compare_section_def assms(3,4,6,8) B(1) R(1) C(1) b(1) r(1))
  with B(2,3) R(2,3) C(2,3) show ?thesis by blast
qed

text \<open>
  C40: \<open>--count 0\<close>. A run that is to measure no message gets no sample from a measurement that
  succeeds, whatever the warm-up and the number of subscribers, and then panics in
  \<open>print_stats\<close>, which has printed the label and the number of samples, 0, and reads the minimum
  of an empty list; no value is printed and the redis measurement is never started.
\<close>

theorem count_zero_crashes:
  assumes "parse_args argv = Ret (a, unknown)" and "n_msgs a = 0" and "\<not> no_bus a"
    and "bus_run checks bus_env a (max (subscribers a) 1) = Some (Ret (Inr lats))"
  shows "latency_main checks square bus_env redis_env redis argv =
    (banner unknown a (n_warmup a) @ [BusDone 0, BusCut (mode_of (max (subscribers a) 1)) 0 []], Crashed)"
proof -
  have n: "add_u checks (n_msgs a) (n_warmup a) = Ret (n_warmup a)" 
    using unsigned_less [of "n_warmup a", where 'a = nat] by (simp add: assms(2) add_u_def)
  have "lats = []" using bus_run_length [OF assms(4)] assms(2) by simp
  then show ?thesis
    unfolding latency_main_eq [OF assms(1) n]
    by (simp add: bus_section_def assms(3,4) print_stats_def stats_values_def index_def)
qed

text \<open>
  With no bus running, \<open>main\<close> stops for ever in the first measurement: the line \<open>FAILED\<close>
  with the advice to start the bus is not printed.
\<close>

lemma bus_down_hangs:
  assumes "parse_args argv = Ret (a, unknown)" and "add_u checks (n_msgs a) (n_warmup a) = Ret n_total"
    and "\<not> no_bus a" and "subscribers a \<le> 1" and "sub_connect bus_env (bus_addr a) 0 = None"
  shows "latency_main checks square bus_env redis_env redis argv = (banner unknown a n_total, Hung)"
proof -
  have "max (subscribers a) 1 = 1" using assms(4) by (simp add: max_def)
  moreover have "add_u checks (n_warmup a) (n_msgs a) = Ret n_total"
    using assms(2) by (simp only: add_u_commute)
  ultimately show ?thesis
    unfolding latency_main_eq [OF assms(1,2)]
    by (simp add: bus_section_def assms(3) bus_run_def bench_bus_def assms(5))
qed

section \<open>Concrete runs\<close>

text \<open>The two measurements of the earlier examples, started from the command line.\<close>

definition demo_argv :: "string list" where
  "demo_argv = [''--count'', ''1'', ''--warmup'', ''1'', ''--rate'', ''0'', ''--verbose'']"

definition demo_args :: Args where
  "demo_args = default_args\<lparr>n_msgs := 1, n_warmup := 1, rate_hz := 0\<rparr>"

lemma demo_parse: "parse_args demo_argv = Ret (demo_args, [''--verbose''])"
  unfolding parse_args_def parse_loop_rest
  by (simp add: demo_argv_def demo_args_def default_args_def addr_opts_def num_opts_def flags_def set_num_def
      parse_uint_def strip_plus_def digit_val_def)

lemma demo_unats: "unat (1 :: u64) = 1" "unat (2 :: u64) = length [5, 5 :: u64]"
  by simp_all

lemma demo_framed: "framed demo_frame"
  by (simp add: framed_def demo_frame_def pub_header_def)

lemma demo_bus: "bench_bus checks demo_env addr 1 1 0 = Some (Ret (Inr [995]))"
proof -
  obtain sub where sub: "sub_connect demo_env addr 0 = Some sub" using demo_connects(1) by blast
  have "bus_subscriber demo_env 0 1 (length [5, 5 :: u64]) sub = Ret (latencies (recv_now demo_env 0) [5, 5] 1)"
    by (rule bus_subscriber_samples [where ms = "[demo_frame, demo_frame]" and rest = "[]"])
      (simp_all add: demo_framed demo_env_def, simp add: demo_frame_def)
  also have "latencies (recv_now demo_env 0) [5, 5] 1 = [995]"
    by (simp add: latencies_def demo_env_def saturating_sub_def)
  finally have "bus_subscriber demo_env 0 (unat (1 :: u64)) (unat (2 :: u64)) sub = Ret [995]"
    unfolding demo_unats .
  moreover have "interval_ns 0 = 0" "unat (2 :: u64) = 2" by (simp_all add: interval_ns_def)
  ultimately show ?thesis
    by (simp add: bench_bus_def add_u_Ret sub demo_connects(2) demo_publishes [unfolded One_nat_def] finish_published)
qed

lemma demo_redis_run: "bench_redis checks demo_env demo_redis addr 1 1 0 = Some (Ret (Inr [995]))"
proof -
  let ?q = "[to_le_bytes 8 (5 :: u64), to_le_bytes 8 (5 :: u64)]"
  have "redis_delivers (demo_redis 1) id" by (simp add: redis_delivers_def demo_redis_def)
  then have "redis_subscriber (demo_redis 1) (recv_now demo_env 0) 1 (length [5, 5 :: u64]) ?q =
      Ret (latencies (recv_now demo_env 0) [5, 5] 1)"
    by (rule redis_subscriber_samples [where rest = "[]"]) simp
  also have "latencies (recv_now demo_env 0) [5, 5] 1 = [995]"
    by (simp add: latencies_def demo_env_def saturating_sub_def)
  finally have sub: "redis_subscriber (demo_redis 1) (recv_now demo_env 0) (unat (1 :: u64)) (unat (2 :: u64)) ?q = Ret [995]"
    unfolding demo_unats .
  have con: "redis_join (demo_redis 1) (redis_url addr) = Inr ?q" "redis_connect (demo_redis 0) (redis_url addr) = Inr []"
    by (simp_all add: redis_join_def redis_connect_def demo_redis_def)
  have "\<exists>c. publish_loop checks (env_clk demo_env) (t_zero demo_env) (env_clk demo_env 0) 0 (redis_send (demo_redis 0))
      0 2 (Suc 0) [] = Some (Ret (Inr (), c))"
    by (simp add: numeral_2_eq_2 redis_send_def demo_redis_def del: to_le_bytes.simps)
  then obtain c where "publish_loop checks (env_clk demo_env) (t_zero demo_env) (env_clk demo_env 0) 0
      (redis_send (demo_redis 0)) 0 2 (Suc 0) [] = Some (Ret (Inr (), c))" ..
  moreover have "interval_ns 0 = 0" "unat (2 :: u64) = 2" by (simp_all add: interval_ns_def)
  ultimately show ?thesis
    using sub by (simp add: bench_redis_def add_u_Ret con [unfolded One_nat_def] finish_published)
qed

theorem latency_main_reports_witness:
  "\<exists>B R rows x y. latency_main True (\<lambda>x. f64_mul x x) demo_env demo_env demo_redis demo_argv =
     (banner [''--verbose''] demo_args 2 @ [BusDone 1, BusStats SingleSubscriber B, RedisDone 1,
        RedisStats SingleSubscriber R, Comparison SingleSubscriber (rows, x, y)], Finished ()) \<and>
   samples B = 1 \<and> length rows = 5"
proof -
  have a: "n_msgs demo_args = 1" "n_warmup demo_args = 1" "rate_hz demo_args = 0" "\<not> no_bus demo_args" "\<not> no_redis demo_args"
    "1 = max (subscribers demo_args) 1"
    by (simp_all add: demo_args_def default_args_def)
  have sum: "add_u True (n_msgs demo_args) (n_warmup demo_args) = Ret 2" by (simp add: a(1,2) add_u_Ret)
  have "bus_run True demo_env demo_args 1 = Some (Ret (Inr [995]))"
    "redis_run True demo_env demo_redis demo_args 1 = Some (Ret (Inr [995]))"
    by (simp_all add: bus_run_def redis_run_def a(1-3) demo_bus demo_redis_run)
  moreover have "summable [995]" by (simp add: summable_def)
  ultimately have "\<exists>B R rows x y. latency_main True (\<lambda>x. f64_mul x x) demo_env demo_env demo_redis demo_argv =
      (banner [''--verbose''] demo_args 2 @ [BusDone (length [995 :: u64]), BusStats (mode_of 1) B,
         RedisDone (length [995 :: u64]), RedisStats (mode_of 1) R, Comparison (mode_of 1) (rows, x, y)], Finished ()) \<and>
    samples B = length [995 :: u64] \<and> f64_val (stat_p50 B) \<le> f64_val (stat_p99 B) \<and>
    samples R = length [995 :: u64] \<and> f64_val (stat_p50 R) \<le> f64_val (stat_p99 R) \<and>
    length rows = 5 \<and> list_all (\<lambda>row. cmp_bar row \<le> 48) rows"
    by (intro latency_main_reports [OF demo_parse sum a(4,5,6)])
  then show ?thesis by (simp add: mode_of_def) blast
qed

theorem count_zero_crashes_witness:
  "\<exists>a lats. parse_args [''--count'', ''0'', ''--warmup'', ''0''] = Ret (a, []) \<and>
     bus_run True demo_env a 1 = Some (Ret (Inr lats)) \<and>
     latency_main True (\<lambda>x. f64_mul x x) demo_env demo_env demo_redis [''--count'', ''0'', ''--warmup'', ''0''] =
       (banner [] a 0 @ [BusDone 0, BusCut SingleSubscriber 0 []], Crashed)"
proof -
  let ?a = "default_args\<lparr>n_msgs := 0, n_warmup := 0\<rparr>"
  have parse: "parse_args [''--count'', ''0'', ''--warmup'', ''0''] = Ret (?a, [])"
    unfolding parse_args_def parse_loop_rest
    by (simp add: default_args_def addr_opts_def num_opts_def flags_def set_num_def
        parse_uint_def strip_plus_def digit_val_def)
  obtain sub where sub: "sub_connect demo_env (bus_addr default_args) 0 = Some sub" using demo_connects(1) by blast
  have max1: "max (subscribers ?a) 1 = 1" by (simp add: default_args_def)
  have run: "bus_run True demo_env ?a (max (subscribers ?a) 1) = Some (Ret (Inr []))"
    unfolding max1
    by (simp add: bus_run_def bench_bus_def add_u_Ret sub demo_connects(2) finish_published bus_subscriber_def)
  have "n_msgs ?a = 0" "\<not> no_bus ?a" "n_warmup ?a = 0" by (simp_all add: default_args_def)
  with count_zero_crashes [OF parse _ _ run, of "\<lambda>x. f64_mul x x" demo_env demo_redis] parse run
  show ?thesis
    unfolding max1 by (intro exI [of _ ?a] exI [of _ "[]"]) (simp add: mode_of_def)
qed

end
