(* ===== verification/Latency_Over_Bus.thy ===== *)
theory Latency_Over_Bus
  imports Bus_Relay Latency_Measure
begin

text \<open>
  The benchmark and the bus together: the bytes the benchmark's subscriber reads are the bytes the
  bus has written to its connection, and the bytes the bus reads are those its publisher has sent.
\<close>

section \<open>A stream with too few messages\<close>

lemma bus_recv_eof: "incoming (reader sub) = [] \<Longrightarrow> bus_recv sub = Panic"
  by (cases sub rule: next_raw_cases) (auto simp: bus_recv_def expect_def length_wire dest: arg_cong [where f = length])

lemma collect_short:
  "\<lbrakk>list_all framed ms; incoming (reader sub) = concat (map wire ms); length ms < k\<rbrakk> \<Longrightarrow>
   collect bus_recv now w i k lats sub = Panic"
proof (induction ms arbitrary: sub i k lats)
  case Nil
  then obtain k' where "k = Suc k'" by (cases k) auto
  with Nil bus_recv_eof [of sub] show ?case by simp
next
  case (Cons m ms)
  then obtain k' where k: "k = Suc k'" by (cases k) auto
  have "bus_recv sub = Ret (snd m, sub\<lparr>reader := (reader sub)\<lparr>incoming := concat (map wire ms)\<rparr>\<rparr>)"
    using next_raw_wire [of m sub "concat (map wire ms)"] Cons.prems by (cases m) (simp add: bus_recv_def expect_def)
  with Cons k show ?case
    by (cases "record_latency (now i) (w \<le> i) (snd m) lats") simp_all
qed

lemma bus_subscriber_short:
  assumes "list_all framed ms" and "env_inbox env j = concat (map wire ms)" and "length ms < n"
  shows "bus_subscriber env j w n sub = Panic"
  using collect_short [OF assms(1) _ assms(3), of "sub\<lparr>reader := (reader sub)\<lparr>incoming := env_inbox env j\<rparr>\<rparr>"] assms(2)
  by (simp add: bus_subscriber_def)

section \<open>One publisher, one subscriber\<close>

text \<open>The bus as the benchmark finds it: nobody else publishes, connection \<open>i\<close> is the benchmark's subscriber.\<close>

definition bench_on_bus :: "Bus \<Rightarrow> nat \<Rightarrow> u8 list \<Rightarrow> nat \<Rightarrow> TcpStream \<Rightarrow> nat \<Rightarrow> u64 \<Rightarrow> bool" where
  "bench_on_bus b k bytes i st rx sid \<longleftrightarrow> bus_reach b \<and> bus_small b \<and> k < length (conns b) \<and> i < length (conns b) \<and>
     (\<forall>(j, m)\<in>set (accepted b). j = k) \<and> origin b ! k = bytes \<and> (\<exists>peer. conns b ! i = SubscriberIo st rx sid peer) \<and>
     (\<exists>later. origin b ! i = wire (subscribe_msg [BENCH_CHANNEL]) @ later)"

lemma bench_entry:
  assumes "bench_on_bus b k bytes i st rx sid" and "map_of (registry (shared b)) sid = Some e"
  shows "matches e BENCH_CHANNEL"
proof -
  have "asked (origin b ! i) [BENCH_CHANNEL]" "conn_sid (conns b ! i) = Some sid"
    using assms(1) by (auto simp: asked_def bench_on_bus_def)
  with subscriptions_reach [of b] assms have "entry_for [BENCH_CHANNEL] e"
    by (fastforce simp: subscriptions_ok_def bench_on_bus_def)
  then show ?thesis by (simp add: entry_for_def matches_def)
qed

text \<open>The accepted messages are benchmark messages, in order from the first.\<close>

lemma bench_accepted:
  assumes on: "bench_on_bus b k (concat (map wire ms)) i st rx sid" and ms: "list_all bench_frame ms"
    and payloads: "map snd ms = map (to_le_bytes 8) (ts :: u64 list)"
  shows "prefix (map m_payload (map snd (accepted b))) (map snd ms)"
    and "\<forall>m \<in> set (map snd (accepted b)). m_channel_id m = BENCH_CHANNEL \<and> length (m_payload m) = 8"
proof -
  have "list_all framed ms" using ms by (auto simp: list_all_iff bench_frame_def)
  moreover have "concat (map wire ms) = origin b ! k @ []" using on by (simp add: bench_on_bus_def)
  ultimately obtain fs where fs: "prefix fs ms" "map core (map snd (accepted b)) = map core_of fs"
    using only_publisher [of b k ms "[]"] bus_reach_inv [of b] on by (auto simp: bench_on_bus_def)
  have pl: "m_payload m = snd (snd (core m))" "snd f = snd (snd (core_of f))" for m f
    by (simp_all add: core_def core_of_def)
  have "map m_payload (map snd (accepted b)) = map snd fs"
    using arg_cong [OF fs(2), of "map (snd \<circ> snd)"] by (simp add: core_def core_of_def comp_def)
  with fs(1) show "prefix (map m_payload (map snd (accepted b))) (map snd ms)"
    by (simp only: map_mono_prefix)
  show "\<forall>m \<in> set (map snd (accepted b)). m_channel_id m = BENCH_CHANNEL \<and> length (m_payload m) = 8"
  proof
    fix m assume "m \<in> set (map snd (accepted b))"
    then have "core m \<in> set (map core_of fs)" using fs(2) by (metis image_eqI list.set_map)
    then obtain f where f: "f \<in> set fs" "core m = core_of f" by auto
    then have "f \<in> set ms" using set_mono_prefix [OF fs(1)] by blast
    moreover from this have "snd f \<in> set (map (to_le_bytes 8) ts)" using payloads by (metis image_eqI list.set_map)
    ultimately show "m_channel_id m = BENCH_CHANNEL \<and> length (m_payload m) = 8"
      using f(2) ms by (auto simp: core_def core_of_def bench_frame_def list_all_iff)
  qed
qed

lemma length_frames:
  assumes "\<forall>m \<in> set ds. length (m_payload m) = 8"
  shows "length (concat (map wire (map (\<lambda>m. (msg_header m, m_payload m)) ds))) = 25 * length ds"
  using assms by (induction ds) (simp_all add: length_wire HEADER_SIZE_def)

text \<open>With no frame dropped, none in the queue and none from before it joined, the stream is complete.\<close>

lemma bench_complete:
  assumes on: "bench_on_bus b k (concat (map wire ms)) i st rx sid" and ms: "list_all bench_frame ms"
    and payloads: "map snd ms = map (to_le_bytes 8) (ts :: u64 list)"
    and all: "handed b = length ms" "joined b ! rx = 0" "buffer (chans (shared b) ! rx) = []"
      "\<forall>a ch. SubscriberSlow sid a ch \<notin> set (printed (shared b))"
  shows "length (outgoing st) = 25 * length ms"
proof -
  have inv: "bus_inv b" using on bus_reach_inv by (simp add: bench_on_bus_def)
  have "i < length (conns b)" "\<exists>peer. conns b ! i = SubscriberIo st rx sid peer" using on by (simp_all add: bench_on_bus_def)
  with bus_invD(7) [OF inv] have "sub_ok (shared b) (joined b) (dispatched b) st rx sid" by fastforce
  then obtain e ws where e: "map_of (registry (shared b)) sid = Some e" and out: "outgoing st = concat ws"
    and ws: "ws = expected e 0 (dispatched b)"
    using all(2-4) by (auto simp: sub_ok_def delivers_def slowed_def)
  note acc = bench_accepted [OF on ms payloads]
  have "length (accepted b) \<le> length ms" using prefix_length_le [OF acc(1)] by simp
  then have len: "length (accepted b) = length ms" "dispatched b = map snd (accepted b)"
    using handed_le [OF bus_invD(1) [OF inv]] all(1) by (simp_all add: dispatched_def)
  then have "filter (\<lambda>m. matches e (m_channel_id m)) (dispatched b) = map snd (accepted b)"
    using acc(2) bench_entry [OF on e] by (auto simp: filter_id_conv)
  then have "expected e 0 (dispatched b) = map frame_of (map snd (accepted b))"
    by (simp only: expected_def drop_0)
  moreover have "map frame_of xs = map wire (map (\<lambda>m. (msg_header m, m_payload m)) xs)" for xs
    by (simp add: frame_of_def)
  ultimately have "outgoing st = concat (map wire (map (\<lambda>m. (msg_header m, m_payload m)) (map snd (accepted b))))"
    using out ws by (simp only:)
  then have "length (outgoing st) = 25 * length (map snd (accepted b))"
    using length_frames [of "map snd (accepted b)"] acc(2) by (simp only:) blast
  then show ?thesis using len(1) by simp
qed

text \<open>What the subscriber makes of the stream: all samples from a complete one, a panic from any other.\<close>

lemma bench_samples:
  assumes on: "bench_on_bus b k (concat (map wire ms)) i st rx sid" and ms: "list_all bench_frame ms"
    and payloads: "map snd ms = map (to_le_bytes 8) ts" and inbox: "env_inbox env j = outgoing st"
  shows "bus_subscriber env j w (length ts) sub =
    (if length (outgoing st) = 25 * length ts then Ret (latencies (recv_now env j) ts w) else Panic)"
proof -
  note acc = bench_accepted [OF on ms payloads]
  obtain peer where "bus_reach b" "bus_small b" "i < length (conns b)" "conns b ! i = SubscriberIo st rx sid peer"
    using on by (auto simp: bench_on_bus_def)
  from subscriber_stream [OF this] obtain e ds where
    out: "outgoing st = concat (map wire (map (\<lambda>m. (msg_header m, m_payload m)) ds))" (is "_ = concat (map wire ?ds)")
    and framed: "list_all framed (map (\<lambda>m. (msg_header m, m_payload m)) ds)"
    and "subseq ds (filter (\<lambda>m. matches e (m_channel_id m)) (map snd (accepted b)))" by blast
  then have sub: "subseq ds (map snd (accepted b))" using subseq_order.trans subseq_filter_left by blast
  then have "\<forall>m \<in> set ds. length (m_payload m) = 8"
    using acc(2) list_emb_set [OF sub] by metis
  then have len: "length (outgoing st) = 25 * length ds" unfolding out by (rule length_frames)
  have n: "length ms = length ts" using arg_cong [OF payloads, of length] by simp
  have le: "length ds \<le> length (accepted b)" "length (accepted b) \<le> length ts"
    using list_emb_length [OF sub] prefix_length_le [OF acc(1)] n by simp_all
  show ?thesis
  proof (cases "length ds = length ts")
    case True
    then have "ds = map snd (accepted b)" using le subseq_same_length [OF sub] by simp
    moreover obtain zs where zs: "map snd ms = map m_payload (map snd (accepted b)) @ zs"
      using acc(1) by (auto simp only: prefix_def)
    from arg_cong [OF zs, of length] le True n have "zs = []" by simp
    with zs have "map m_payload (map snd (accepted b)) = map snd ms" by simp
    ultimately have "map snd ?ds = map (to_le_bytes 8) ts" using payloads by (simp add: comp_def)
    from bus_subscriber_samples [OF framed this, of env j "[]"] inbox out len True show ?thesis by simp
  next
    case False
    with le have "length ?ds < length ts" by simp
    from bus_subscriber_short [OF framed _ this, of env j] inbox out len False show ?thesis by simp
  qed
qed

text \<open>
  C24: the benchmark over the bus. When the benchmark's frames are all the bus is sent and its subscriber reads
  what the bus has written to its connection, \<open>bench_bus\<close> returns exactly one latency for each measured
  message if every frame arrived, and otherwise waits for the missing frames and panics when
  the connection ends: one dropped frame loses the whole measurement. Every frame has arrived when all are
  dispatched after the subscriber joined, its queue is empty and the bus has not reported it slow.
\<close>

theorem bench_over_bus:
  assumes "sub_connect env url 0 = Some sub"
    and "connect (env_dial env) (env_nodelay env) url = Inr pb" and "send_room (stream pb) = None"
    and "outgoing (stream pb) = []" and "\<forall>i. env_wall env i \<noteq> None" and "unat n_warmup + unat n_msgs < 2 ^ 64"
    and "reaches (env_clk env) (env_clk env 0) ((unat n_warmup + unat n_msgs) * unat (interval_ns rate_hz))"
    and "publish_loop checks (env_clk env) (t_zero env) (env_clk env 0) (interval_ns rate_hz) (bus_send (env_wall env))
      0 (unat n_warmup + unat n_msgs) 1 pb = Some (Ret (Inr (), p'))"
    and "bench_on_bus b k (outgoing (stream p')) i st rx sid" and "env_inbox env 0 = outgoing st"
  shows "\<exists>rs. length rs = unat n_warmup + unat n_msgs \<and>
    paced (env_clk env) (env_clk env 0) (interval_ns rate_hz) 0 1 rs \<and>
    bench_bus checks env url n_warmup n_msgs rate_hz =
      (if length (outgoing st) = 25 * (unat n_warmup + unat n_msgs)
       then Some (Ret (Inr (latencies (recv_now env 0) (stamps env rs) (unat n_warmup))))
       else Some Panic) \<and>
    (handed b = unat n_warmup + unat n_msgs \<and> joined b ! rx = 0 \<and> buffer (chans (shared b) ! rx) = [] \<and>
       (\<forall>a ch. SubscriberSlow sid a ch \<notin> set (printed (shared b))) \<longrightarrow>
     length (outgoing st) = 25 * (unat n_warmup + unat n_msgs))"
proof -
  note n = add_u_counts [OF assms(6), of checks]
  obtain rs ms p'' where p: "length rs = unat n_warmup + unat n_msgs"
    "paced (env_clk env) (env_clk env 0) (interval_ns rate_hz) 0 1 rs"
    "list_all bench_frame ms" "map snd ms = map (to_le_bytes 8) (stamps env rs)"
    "publish_loop checks (env_clk env) (t_zero env) (env_clk env 0) (interval_ns rate_hz) (bus_send (env_wall env))
      0 (unat n_warmup + unat n_msgs) 1 pb = Some (Ret (Inr (), p''))"
    "outgoing (stream p'') = outgoing (stream pb) @ concat (map wire ms)"
    by (rule bus_published [OF assms(3,5,7,6)])
  have "p'' = p'" using p(5) assms(8) by simp
  with p(6) assms(4,9) have on: "bench_on_bus b k (concat (map wire ms)) i st rx sid" by simp
  have len: "length ms = length rs" using arg_cong [OF p(4), of length] by simp
  have "bench_bus checks env url n_warmup n_msgs rate_hz =
      (if length (outgoing st) = 25 * length rs
       then Some (Ret (Inr (latencies (recv_now env 0) (stamps env rs) (unat n_warmup)))) else Some Panic)"
    using bench_samples [OF on p(3,4) assms(10), of "unat n_warmup" sub]
    by (simp add: bench_bus_def n assms(1,2) p(1) p(5) [unfolded One_nat_def] finish_published)
  with bench_complete [OF on p(3,4)] p(1,2) len show ?thesis
    by (intro exI [of _ rs]) simp
qed

text \<open>The run of before, with the bus between the publisher and the subscriber.\<close>

theorem bench_over_bus_witness:
  "\<exists>b st. bench_on_bus b 1 (wire demo_frame @ wire demo_frame) 0 st 0 0 \<and> length (outgoing st) = 50 \<and>
     bench_bus True (demo_env\<lparr>env_inbox := \<lambda>_. outgoing st\<rparr>) ''bus'' 1 1 0 = Some (Ret (Inr [995]))"
proof -
  let ?d = "(None :: clock, demo_frame)"
  have m: "acceptable demo_frame" "msg_type (fst demo_frame) \<noteq> 0"
    by (simp_all add: acceptable_def framed_def demo_frame_def pub_header_def PAYLOAD_CAP_def BENCH_MSG_TYPE_def)
  then have ok: "list_all (\<lambda>(_, m). acceptable m) [?d, ?d]" by simp
  obtain b where b: "relay_at [BENCH_CHANNEL] (wire demo_frame @ wire demo_frame) [?d, ?d] (RunPublisher (demo_stream [] []) ''p'') b"
    using bus_relays [OF _ ok, of "[BENCH_CHANNEL]" "[]"] m(2) by auto
  let ?st = "demo_stream [] (relayed [BENCH_CHANNEL] [?d, ?d])" and ?env = "\<lambda>st. demo_env\<lparr>env_inbox := \<lambda>_. outgoing st\<rparr>"
  have on: "bench_on_bus b 1 (wire demo_frame @ wire demo_frame) 0 ?st 0 0"
    using b relay_inv(1) [OF b] by (auto simp: bench_on_bus_def relay_at_def)
  obtain sub where sub: "sub_connect demo_env ''bus'' 0 = Some sub" using demo_connects(1) by blast
  have sub': "sub_connect (?env ?st) ''bus'' 0 = Some sub" using sub by (simp add: sub_connect_def)
  have zero: "interval_ns 0 = 0" by (simp add: interval_ns_def)
  have loop: "publish_loop True (env_clk (?env ?st)) (t_zero (?env ?st)) (env_clk (?env ?st) 0) (interval_ns 0)
      (bus_send (env_wall (?env ?st))) 0 (unat (1 :: u64) + unat (1 :: u64)) 1 \<lparr>stream = demo_socket\<rparr> =
      Some (Ret (Inr (), \<lparr>stream = demo_socket\<lparr>outgoing := wire demo_frame @ wire demo_frame\<rparr>\<rparr>))"
    using demo_publishes [of True] unfolding demo_counts zero by simp
  have on': "bench_on_bus b 1 (outgoing (stream \<lparr>stream = demo_socket\<lparr>outgoing := wire demo_frame @ wire demo_frame\<rparr>\<rparr>)) 0 ?st 0 0"
    using on by simp
  have con: "connect (env_dial (?env ?st)) (env_nodelay (?env ?st)) ''bus'' = Inr \<lparr>stream = demo_socket\<rparr>"
    using demo_connects(2) by simp
  have ready: "outgoing (stream \<lparr>stream = demo_socket\<rparr>) = []" "\<forall>i. env_wall (?env ?st) i \<noteq> None"
    "reaches (env_clk (?env ?st)) (env_clk (?env ?st) 0) ((unat (1 :: u64) + unat (1 :: u64)) * unat (interval_ns 0))"
    using demo_ready by (simp_all add: demo_socket_def)
  have "env_inbox (?env ?st) 0 = outgoing ?st" by simp
  from bench_over_bus [OF sub' con demo_ready(1) ready(1,2) demo_ready(3) ready(3) loop on' this]
  obtain rs where rs: "length rs = 2" and res: "bench_bus True (?env ?st) ''bus'' 1 1 0 =
      (if length (outgoing ?st) = 25 * 2 then Some (Ret (Inr (latencies (recv_now (?env ?st) 0) (stamps (?env ?st) rs) (unat (1 :: u64)))))
       else Some Panic)"
    unfolding demo_counts by blast
  have "selects [BENCH_CHANNEL] (taken ?d)" "m_payload (taken ?d) = to_le_bytes 8 (5 :: u64)"
    by (simp_all add: selects_def taken_def stamped_def demo_frame_def pub_header_def)
  then have "length (outgoing ?st) = 50"
    by (simp add: relayed_def demo_stream_def frame_of_def length_wire HEADER_SIZE_def)
  moreover have "latencies (recv_now (?env ?st) 0) (stamps (?env ?st) rs) (unat (1 :: u64)) = [995]"
    using demo_samples [OF rs, of 0] by (simp add: stamps_def saturating_sub_def)
  ultimately show ?thesis using on res by auto
qed

end
