(* ===== verification/Test_Prelude.thy ===== *)
theory Test_Prelude
  imports Bus_Prelude
begin

text \<open>
  The macros and methods the repository's unit tests are written with: a failed assertion and
  an \<open>unwrap\<close> of the wrong variant are panics, and a test passes when it returns.
\<close>

definition assert :: "bool \<Rightarrow> unit outcome" where
  "assert p = (if p then Ret () else Panic)"

definition assert_eq :: "'a \<Rightarrow> 'a \<Rightarrow> unit outcome" where
  "assert_eq x y = assert (x = y)"

text \<open>\<open>unwrap\<close> and \<open>expect\<close> of a \<open>Result\<close>, \<open>unwrap\<close> of an \<open>Option\<close>.\<close>

definition unwrap :: "'e + 'a \<Rightarrow> 'a outcome" where
  "unwrap r = (case r of Inl e \<Rightarrow> Panic | Inr x \<Rightarrow> Ret x)"

definition unwrap_some :: "'a option \<Rightarrow> 'a outcome" where
  "unwrap_some v = (case v of None \<Rightarrow> Panic | Some x \<Rightarrow> Ret x)"

text \<open>Statements one after the other.\<close>

fun all_pass :: "unit outcome list \<Rightarrow> unit outcome" where
  "all_pass [] = Ret ()"
| "all_pass (a # as) = obind a (\<lambda>_. all_pass as)"

lemma assert_simps [simp]:
  "assert True = Ret ()" "assert_eq x x = Ret ()" "unwrap (Inr x) = Ret x" "unwrap_some (Some x) = Ret x"
  by (simp_all add: assert_def assert_eq_def unwrap_def unwrap_some_def)

lemma assert_Ret_iff [simp]: "assert p = Ret u \<longleftrightarrow> p" "assert_eq x y = Ret u \<longleftrightarrow> x = y"
  by (simp_all add: assert_def assert_eq_def)

lemma all_pass_Ret_iff: "all_pass as = Ret () \<longleftrightarrow> (\<forall>a \<in> set as. a = Ret ())"
  by (induction as) (auto simp: obind_eq_Ret_iff)

end
