(* ===== verification/Protocol_Tests.thy ===== *)
theory Protocol_Tests
  imports Header Messages Float64_Bits Test_Prelude
begin

text \<open>
  The unit tests of the protocol crate (the \<open>tests\<close> modules of \<open>protocol/src/lib.rs\<close> and
  \<open>protocol/src/messages/price_tick.rs\<close>) run on the model.
\<close>

section \<open>The header\<close>

definition round_trip_serialize_deserialize :: "unit outcome" where
  "round_trip_serialize_deserialize =
     (let original = \<lparr>msg_type = 1, channel_id = 1001, timestamp_ns = 1700000000000000000, payload_len = 24\<rparr> in
      obind (to_bytes original) (\<lambda>bytes.
      obind (from_bytes bytes) (\<lambda>r.
      obind (unwrap_some r) (\<lambda>recovered.
        all_pass [assert_eq (msg_type recovered) (msg_type original),
                  assert_eq (channel_id recovered) (channel_id original),
                  assert_eq (timestamp_ns recovered) (timestamp_ns original),
                  assert_eq (payload_len recovered) (payload_len original)]))))"

definition byte_layout_is_little_endian :: "unit outcome" where
  "byte_layout_is_little_endian =
     (let header = \<lparr>msg_type = 1, channel_id = 0x000003E9, timestamp_ns = 0, payload_len = 0\<rparr> in
      obind (to_bytes header) (\<lambda>bytes.
        all_pass (map (\<lambda>(i, b). obind (index bytes i) (\<lambda>x. assert_eq x b))
          [(0, 1), (1, 0xE9), (2, 0x03), (3, 0x00), (4, 0x00)])))"

definition from_bytes_returns_none_on_short_slice :: "unit outcome" where
  "from_bytes_returns_none_on_short_slice =
     (let short = replicate 10 0 in obind (from_bytes short) (\<lambda>r. assert (r = None)))"

section \<open>The price tick\<close>

primrec f64_abs :: "F64 \<Rightarrow> F64" where
  "f64_abs NaN = NaN"
| "f64_abs (Infinity s) = Infinity False"
| "f64_abs (Finite s m) = Finite False m"

definition F64_EPSILON :: F64 where
  "F64_EPSILON = f64_lit (2 powi - 52)"

definition price_tick_round_trip :: "unit outcome" where
  "price_tick_round_trip =
     (let original = \<lparr>instrument_id = 1001, last_price = f64_to_bits (f64_lit 24150.50), volume = 500,
                      total_traded_volume = 1200000, tick_timestamp_ns = 1700000000000000000\<rparr> in
      obind (price_tick_encode original) (\<lambda>bytes.
      obind (assert_eq (length bytes) 32) (\<lambda>_.
      obind (price_tick_decode bytes) (\<lambda>r.
      obind (unwrap_some r) (\<lambda>recovered.
        all_pass [assert_eq (instrument_id recovered) (instrument_id original),
                  assert_eq (volume recovered) (volume original),
                  assert_eq (total_traded_volume recovered) (total_traded_volume original),
                  assert_eq (tick_timestamp_ns recovered) (tick_timestamp_ns original),
                  assert (f64_less (f64_abs (f64_sub (f64_from_bits (last_price recovered))
                                                     (f64_from_bits (last_price original)))) F64_EPSILON)])))))"

definition decode_returns_none_on_short_buffer :: "unit outcome" where
  "decode_returns_none_on_short_buffer =
     (let short = replicate 10 0 in obind (price_tick_decode short) (\<lambda>r. assert (r = None)))"

section \<open>They pass\<close>

lemma f64_abs_val: "is_finite a \<Longrightarrow> wf_f64 a \<Longrightarrow> is_finite (f64_abs a) \<and> f64_val (f64_abs a) = \<bar>f64_val a\<bar>"
  by (cases a) simp_all

lemma epsilon_val: "is_finite F64_EPSILON" "f64_val F64_EPSILON = 2 powi - 52"
proof -
  have "exact (2 powi - 52)" by (rule exact_powi) simp
  moreover have "moderate (2 powi - 52)" by (rule moderateI [of "2 powi 0"]) simp_all
  ultimately show "is_finite F64_EPSILON" "f64_val F64_EPSILON = 2 powi - 52"
    unfolding F64_EPSILON_def by (simp_all only: f64_lit_exact)
qed

lemma same_price:
  assumes "is_finite a" and "wf_f64 a"
  shows "f64_less (f64_abs (f64_sub a a)) F64_EPSILON"
proof -
  have d: "is_finite (f64_sub a a)" "f64_val (f64_sub a a) = 0"
    using f64_sub_val [of a a] assms(1) moderateI [of 0 0] by (simp_all add: rnd_def)
  then have "is_finite (f64_abs (f64_sub a a)) \<and> f64_val (f64_abs (f64_sub a a)) = 0"
    using f64_abs_val [OF d(1)] assms(2) by simp
  then show ?thesis
    using epsilon_val by (simp add: f64_less_val)
qed

lemma test_price: "is_finite (f64_lit 24150.50)" "wf_f64 (f64_lit 24150.50)"
proof -
  have "exact 24150.50" by (rule exactI [of 48301 "- 1"]) simp_all
  then show "is_finite (f64_lit 24150.50)" using f64_lit_exact(1) small_moderate by simp
qed simp

lemma le_1001: "to_le_bytes 4 (1001 :: u32) = [0xE9, 0x03, 0x00, 0x00]"
  by code_simp

text \<open>
  The tests of the protocol pass: the header comes back as it was written, its channel is little-endian, a price tick comes
  back with a price that differs by less than the epsilon of \<open>f64\<close>, and buffers that are too short
  decode to nothing.
\<close>

lemma protocol_tests_pass:
  "all_pass [round_trip_serialize_deserialize, byte_layout_is_little_endian, from_bytes_returns_none_on_short_slice,
     price_tick_round_trip, decode_returns_none_on_short_buffer] = Ret ()"
proof -
  have "round_trip_serialize_deserialize = Ret ()"
    using from_bytes_wire [of _ "[]"] by (simp add: round_trip_serialize_deserialize_def Let_def del: append_assoc append_Cons)
  moreover have "byte_layout_is_little_endian = Ret ()"
    by (simp add: byte_layout_is_little_endian_def Let_def le_1001)
  moreover have "from_bytes_returns_none_on_short_slice = Ret ()" "decode_returns_none_on_short_buffer = Ret ()"
    by (simp_all add: from_bytes_returns_none_on_short_slice_def decode_returns_none_on_short_buffer_def
        from_bytes_def price_tick_decode_def PRICE_TICK_SIZE_def)
  moreover have "price_tick_round_trip = Ret ()"
  proof -
    let ?t = "\<lparr>instrument_id = 1001, last_price = f64_to_bits (f64_lit 24150.50), volume = 500,
                      total_traded_volume = 1200000, tick_timestamp_ns = 1700000000000000000\<rparr>"
    obtain bs where bs: "price_tick_encode ?t = Ret bs" "length bs = 32"
      using price_tick.encode_total [of ?t] by (auto simp: PRICE_TICK_SIZE_def)
    then have "price_tick_decode bs = Ret (Some ?t)" using price_tick.decode_encode [OF bs(1), of "[]"] by simp
    with bs same_price [OF test_price] f64_from_to_bits [OF test_price(2)] show ?thesis
      by (simp add: price_tick_round_trip_def Let_def)
  qed
  ultimately show ?thesis unfolding all_pass_Ret_iff by (simp only: list.set ball_simps insert_iff empty_iff)
qed

end
