(* ===== verification/Ring_Tests.thy ===== *)
theory Ring_Tests
  imports Ring_Run Test_Prelude
begin

text \<open>
  The sequential unit tests of the ring (the \<open>tests\<close> module of \<open>bus/src/ring.rs\<close>) run on the
  model. \<open>clk\<close> and \<open>clks\<close> are the clock readings of the publications.
\<close>

section \<open>The tests\<close>

definition hello :: "u8 list" where
  "hello = [104, 101, 108, 108, 111]"

definition single_thread_publish_consume_roundtrip :: "clock \<Rightarrow> unit outcome" where
  "single_thread_publish_consume_roundtrip clk =
     (let ring = ring_new; (res, ring) = register_consumer ring in
      obind (unwrap res) (\<lambda>i.
      let (res, ring) = publish ring clk 42 1 hello in
      obind (unwrap res) (\<lambda>_.
      obind (try_consume ring i (\<lambda>d got.
          obind (assert_eq (d_channel_id d) 42) (\<lambda>_.
          obind (assert_eq (d_msg_type d) 1) (\<lambda>_.
          obind (assert_eq (d_payload_len d) 5) (\<lambda>_.
          obind (slice 0 (unat (d_payload_len d)) (d_payload d)) (\<lambda>bs. Ret (got @ bs)))))) []) (\<lambda>(res, ring, got).
      obind (unwrap res) (\<lambda>_. assert_eq got hello)))))"

definition try_consume_returns_false_when_empty :: "unit outcome" where
  "try_consume_returns_false_when_empty =
     (let ring = ring_new; (res, ring) = register_consumer ring in
      obind (unwrap res) (\<lambda>i.
      obind (try_consume ring i (\<lambda>_ _. Panic) ()) (\<lambda>(res, ring, _).
      obind (unwrap res) (\<lambda>r. assert (\<not> r)))))"

text \<open>The loop of \<open>slow_consumer_is_detected\<close>: \<open>k\<close> more publications, stopping at the first error.\<close>

fun fill_ring :: "(nat \<Rightarrow> clock) \<Rightarrow> nat \<Rightarrow> nat \<Rightarrow> Ring \<Rightarrow> PublishError + unit \<Rightarrow> PublishError + unit" where
  "fill_ring clks i 0 ring last_res = last_res"
| "fill_ring clks i (Suc k) ring last_res =
     (case publish ring (clks i) 0 0 [120] of
        (Inl e, ring) \<Rightarrow> Inl e
      | (Inr u, ring) \<Rightarrow> fill_ring clks (Suc i) k ring (Inr u))"

definition slow_consumer_is_detected :: "(nat \<Rightarrow> clock) \<Rightarrow> unit outcome" where
  "slow_consumer_is_detected clks =
     (let ring = ring_new; (res, ring) = register_consumer ring in
      obind (unwrap res) (\<lambda>_. assert_eq (fill_ring clks 0 (RING_SIZE + 1) ring (Inr ())) (Inl SlowConsumer)))"

definition payload_too_large_is_rejected :: "clock \<Rightarrow> unit outcome" where
  "payload_too_large_is_rejected clk =
     (let ring = ring_new; big = replicate (PAYLOAD_CAP + 1) 0 in
      assert_eq (fst (publish ring clk 0 0 big)) (Inl PayloadTooLarge))"

text \<open>\<open>k\<close> registrations, each unwrapped, and the ids they returned.\<close>

fun register_times :: "nat \<Rightarrow> Ring \<Rightarrow> nat list \<Rightarrow> (nat list \<times> Ring) outcome" where
  "register_times 0 ring ids = Ret (ids, ring)"
| "register_times (Suc k) ring ids =
     (let (res, ring) = register_consumer ring in obind (unwrap res) (\<lambda>i. register_times k ring (ids @ [i])))"

definition registration_is_capped :: "unit outcome" where
  "registration_is_capped =
     obind (register_times MAX_CONSUMERS ring_new []) (\<lambda>(ids, ring).
     let (res, ring) = register_consumer ring in
     obind (assert_eq res (Inl Full)) (\<lambda>_.
     obind (unwrap_some (if ids = [] then None else Some (last ids))) (\<lambda>i.
     let ring = unregister_consumer ring i; (res, ring) = register_consumer ring in
     obind (unwrap res) (\<lambda>_. Ret ()))))"

section \<open>They pass\<close>

text \<open>The log after \<open>n\<close> registrations on a fresh ring.\<close>

definition registered :: "nat \<Rightarrow> Log" where
  "registered n = \<lparr>msgs = [], positions = replicate n (Some 0) @ replicate (MAX_CONSUMERS - n) None\<rparr>"

lemma registered_0: "registered 0 = log_new"
  by (simp add: registered_def log_new_def)

lemma registered_nth: "i < MAX_CONSUMERS \<Longrightarrow> positions (registered n) ! i = (if i < n then Some 0 else None)"
  by (simp add: registered_def nth_append)

lemma length_registered: "n \<le> MAX_CONSUMERS \<Longrightarrow> length (positions (registered n)) = MAX_CONSUMERS"
  by (simp add: registered_def)

lemma register_next:
  assumes "n < MAX_CONSUMERS"
  shows "log_register (registered n) = (Inr n, registered (Suc n))"
proof -
  have len: "length (positions (registered n)) = MAX_CONSUMERS" using assms length_registered by simp
  have "find (\<lambda>i. positions (registered n) ! i = None) [0..<MAX_CONSUMERS] = Some n"
    using assms by (simp add: find_upt_Some registered_nth)
  moreover have "(positions (registered n))[n := Some 0] = positions (registered (Suc n))"
    using assms len length_registered [of "Suc n"]
    by (intro nth_equalityI) (simp_all add: nth_list_update registered_nth less_Suc_eq)
  ultimately show ?thesis
    unfolding log_register_def len by (simp add: registered_def)
qed

lemma register_full: "log_register (registered MAX_CONSUMERS) = (Inl Full, registered MAX_CONSUMERS)"
proof -
  have "find (\<lambda>i. positions (registered MAX_CONSUMERS) ! i = None) [0..<MAX_CONSUMERS] = None"
    by (auto simp: find_None_iff registered_nth)
  then show ?thesis by (simp add: log_register_def length_registered)
qed

lemma unregister_last: "0 < n \<Longrightarrow> n \<le> MAX_CONSUMERS \<Longrightarrow> log_unregister (registered n) (n - 1) = registered (n - 1)"
proof -
  assume n: "0 < n" "n \<le> MAX_CONSUMERS"
  have "(positions (registered n))[n - 1 := None] = positions (registered (n - 1))"
    using n length_registered [of n] length_registered [of "n - 1"]
    by (intro nth_equalityI) (auto simp: nth_list_update registered_nth)
  then show ?thesis by (simp add: log_unregister_def) (simp add: registered_def)
qed

lemma register_sim_next:
  assumes "ring_rel (registered n) r" and "n < MAX_CONSUMERS"
  obtains r' where "register_consumer r = (Inr n, r')" and "ring_rel (registered (Suc n)) r'"
  using register_sim [OF assms(1)] register_next [OF assms(2)]
  by (cases "register_consumer r") auto

lemma register_times_ok:
  "ring_rel (registered n) r \<Longrightarrow> n + k \<le> MAX_CONSUMERS \<Longrightarrow>
   \<exists>r'. register_times k r ids = Ret (ids @ [n..<n + k], r') \<and> ring_rel (registered (n + k)) r'"
proof (induction k arbitrary: n r ids)
  case (Suc k)
  obtain r' where r': "register_consumer r = (Inr n, r')" "ring_rel (registered (Suc n)) r'"
    by (rule register_sim_next [OF Suc.prems(1)]) (use Suc.prems(2) in simp_all)
  have "ids @ [n..<n + Suc k] = (ids @ [n]) @ [Suc n..<Suc n + k]" by (simp add: upt_rec [of n] del: upt_Suc)
  with Suc.IH [OF r'(2), of "ids @ [n]"] Suc.prems(2) r'(1) show ?case
    by (simp del: upt_Suc)
qed simp

text \<open>One registration on a fresh ring.\<close>

lemma register_fresh:
  obtains r where "register_consumer ring_new = (Inr 0, r)" and "ring_rel (registered 1) r"
proof -
  have "ring_rel (registered 0) ring_new" using ring_rel_new by (simp add: registered_0)
  then show thesis
    by (rule register_sim_next [of 0]) (use that in \<open>simp_all add: MAX_CONSUMERS_def\<close>)
qed

lemma lagging_registered:
  assumes "positions a = positions (registered 1)"
  shows "lagging a \<longleftrightarrow> RING_SIZE \<le> length (msgs a)"
  using assms by (auto simp: lagging_iff registered_def MAX_CONSUMERS_def)

lemma fill_ring_slow:
  "\<lbrakk>ring_rel a r; positions a = positions (registered 1); length (msgs a) + k = RING_SIZE + 1; 0 < k\<rbrakk> \<Longrightarrow>
   fill_ring clks i k r res = Inl SlowConsumer"
proof (induction k arbitrary: a r i res)
  case (Suc k)
  let ?m = "stamped (clks i) 0 0 [120]" and ?pub = "publish r (clks i) 0 0 [120]"
  have room: "Suc (length (msgs a)) < 2 ^ 64 - 1" using Suc.prems(3) by (simp add: RING_SIZE_eq)
  have small: "\<not> PAYLOAD_CAP < length (m_payload ?m)" by (simp add: PAYLOAD_CAP_def)
  obtain p r' where p: "?pub = (p, r')" by (cases ?pub)
  have sim: "p = fst (log_publish a ?m)" "ring_rel (snd (log_publish a ?m)) r'"
    using publish_sim [OF Suc.prems(1) room, of "clks i" 0 0 "[120]"] by (simp_all add: p)
  show ?case
  proof (cases "k = 0")
    case True
    then have "lagging a" using Suc.prems lagging_registered by simp
    with sim(1) small p show ?thesis by (simp add: log_publish_def)
  next
    case False
    then have "\<not> lagging a" using Suc.prems lagging_registered by simp
    then have acc: "p = Inr ()" "ring_rel (a\<lparr>msgs := msgs a @ [?m]\<rparr>) r'"
      using sim small by (simp_all add: log_publish_def)
    have "fill_ring clks (Suc i) k r' (Inr ()) = Inl SlowConsumer"
      by (rule Suc.IH [OF acc(2)]) (use Suc.prems False in simp_all)
    with p acc(1) show ?thesis by simp
  qed
qed simp

lemma roundtrip_test: "single_thread_publish_consume_roundtrip clk = Ret ()"
proof -
  obtain r where r: "register_consumer ring_new = (Inr 0, r)" "ring_rel (registered 1) r"
    by (rule register_fresh)
  let ?m = "stamped clk 42 1 hello" and ?a = "registered 1" and ?pub = "publish r clk 42 1 hello"
  obtain p r' where p: "?pub = (p, r')" by (cases ?pub)
  have "\<not> lagging ?a" using lagging_registered [of ?a] by (simp add: registered_def)
  then have "log_publish ?a ?m = (Inr (), ?a\<lparr>msgs := [?m]\<rparr>)"
    by (simp add: log_publish_def PAYLOAD_CAP_def hello_def) (simp add: registered_def)
  with publish_sim [OF r(2), of clk 42 1 hello] p have p': "p = Inr ()" "ring_rel (?a\<lparr>msgs := [?m]\<rparr>) r'"
    by (simp_all add: registered_def)
  have pos: "0 < MAX_CONSUMERS" "positions (?a\<lparr>msgs := [?m]\<rparr>) ! 0 = Some 0" "0 < length (msgs (?a\<lparr>msgs := [?m]\<rparr>))"
    by (simp_all add: registered_nth MAX_CONSUMERS_def)
  let ?f = "\<lambda>d got. obind (assert_eq (d_channel_id d) 42) (\<lambda>_. obind (assert_eq (d_msg_type d) 1) (\<lambda>_.
      obind (assert_eq (d_payload_len d) 5) (\<lambda>_.
      obind (slice 0 (unat (d_payload_len d)) (d_payload d)) (\<lambda>bs. Ret (got @ bs)))))"
  from try_consume_ready [OF p'(2) pos, of ?f "[]"] obtain d where
    d: "data_ok d" "msg_of_data d = ?m" "try_consume r' 0 ?f [] = obind (?f d []) (\<lambda>e'. Ret (Inr True, advance r' 0, e'))"
    by auto
  have pl: "take (unat (d_payload_len d)) (d_payload d) = hello" "d_channel_id d = 42" "d_msg_type d = 1"
    using d(2) by (simp_all add: msg_of_data_def stamped_def)
  have "unat (d_payload_len d) = 5"
    using d(1) arg_cong [OF pl(1), of length] by (simp add: data_ok_def hello_def)
  then have "d_payload_len d = 5" by (simp add: word_unat_eq_iff)
  then have "?f d [] = Ret hello"
    using pl d(1) by (simp add: data_ok_def PAYLOAD_CAP_def)
  with d(3) r(1) p p'(1) show ?thesis
    by (simp add: single_thread_publish_consume_roundtrip_def)
qed

lemma empty_test: "try_consume_returns_false_when_empty = Ret ()"
proof -
  obtain r where r: "register_consumer ring_new = (Inr 0, r)" "ring_rel (registered 1) r"
    by (rule register_fresh)
  have pos: "0 < MAX_CONSUMERS" "positions (registered 1) ! 0 = Some 0" "length (msgs (registered 1)) \<le> 0"
    by (simp_all add: registered_nth MAX_CONSUMERS_def) (simp add: registered_def)
  from try_consume_empty [OF r(2) pos, of "\<lambda>_ _. Panic" "()"] r(1) show ?thesis
    by (simp add: try_consume_returns_false_when_empty_def)
qed

lemma capped_test: "registration_is_capped = Ret ()"
proof -
  have "ring_rel (registered 0) ring_new" using ring_rel_new by (simp add: registered_0)
  from register_times_ok [OF this, of MAX_CONSUMERS "[]"] obtain r where
    r: "register_times MAX_CONSUMERS ring_new [] = Ret ([0..<MAX_CONSUMERS], r)" "ring_rel (registered MAX_CONSUMERS) r"
    by auto
  from register_sim [OF r(2)] obtain r1 where r1: "register_consumer r = (Inl Full, r1)" "ring_rel (registered MAX_CONSUMERS) r1"
    by (cases "register_consumer r") (auto simp: register_full)
  have n: "0 < MAX_CONSUMERS" by (simp add: MAX_CONSUMERS_def)
  from unregister_sim [OF r1(2), of "MAX_CONSUMERS - 1"] unregister_last [OF n]
  have "ring_rel (registered (MAX_CONSUMERS - 1)) (unregister_consumer r1 (MAX_CONSUMERS - 1))" by simp
  then obtain r2 where "register_consumer (unregister_consumer r1 (MAX_CONSUMERS - 1)) = (Inr (MAX_CONSUMERS - 1), r2)"
    by (rule register_sim_next) (use n in simp_all)
  with r(1) r1(1) n show ?thesis by (simp add: registration_is_capped_def)
qed

text \<open>
  The sequential tests of the ring pass on the model, whatever the clock reads: a message comes back as published, an empty
  ring delivers nothing, publication 65537 without a read is refused for the slow consumer, a
  payload of 1025 bytes is refused, and the 65th registration fails until an id is given back.
\<close>

lemma ring_tests_pass:
  "all_pass [single_thread_publish_consume_roundtrip clk, try_consume_returns_false_when_empty,
     slow_consumer_is_detected clks, payload_too_large_is_rejected clk, registration_is_capped] = Ret ()"
proof -
  obtain r where r: "register_consumer ring_new = (Inr 0, r)" "ring_rel (registered 1) r"
    by (rule register_fresh)
  from fill_ring_slow [OF r(2) refl, of "RING_SIZE + 1" clks 0 "Inr ()"]
  have "fill_ring clks 0 (RING_SIZE + 1) r (Inr ()) = Inl SlowConsumer" by (simp add: registered_def)
  with r(1) have "slow_consumer_is_detected clks = Ret ()" by (simp add: slow_consumer_is_detected_def)
  moreover have "payload_too_large_is_rejected clk = Ret ()"
    by (simp add: payload_too_large_is_rejected_def publish_def)
  ultimately show ?thesis
    using roundtrip_test [of clk] empty_test capped_test
    unfolding all_pass_Ret_iff by (simp only: list.set ball_simps insert_iff empty_iff)
qed

end
