(* ===== verification/Ring_Thread_Tests.thy ===== *)
theory Ring_Thread_Tests
  imports Ring_Interleaved Ring_Tests
begin

text \<open>
  The two unit tests of the ring with several threads (\<open>concurrent_producer_consumer_streams_in_order\<close> and
  \<open>fan_out_to_many_consumers\<close> in \<open>bus/src/ring.rs\<close>): one thread publishes the numbers below
  \<open>n_msgs\<close>, each until it is accepted, and \<open>n_subs\<close> threads consume that many messages each. A test
  runs one interleaving; here the assertions hold in all of them.
\<close>

section \<open>The threads\<close>

text \<open>What the publishing thread publishes in turn \<open>i\<close> of its loop, and the body of the callback.\<close>

definition number :: "clock \<Rightarrow> nat \<Rightarrow> PubArgs" where
  "number clk i = pub_args clk 0 0 (to_le_bytes 8 (word_of_nat i :: u64))"

definition check_next :: "SlotData \<Rightarrow> u64 \<Rightarrow> unit outcome" where
  "check_next d received =
     obind (slice 0 8 (d_payload d)) (\<lambda>bs.
     obind (copy_from_slice 0 8 bs (replicate 8 0)) (\<lambda>buf. assert_eq (from_le_bytes buf) received))"

text \<open>
  The threads run the ring's methods step by step: a publication starts with the number of the messages accepted
  so far, a call of \<open>consume_one\<close> with fewer than \<open>n_msgs\<close> messages received, and the steps inside the calls are free.
\<close>

inductive stream_step :: "nat \<Rightarrow> nat \<Rightarrow> Conc \<Rightarrow> Conc \<Rightarrow> bool" for n_msgs n_subs where
  publishes: "ppc s = PIdle \<Longrightarrow> length (committed s) < n_msgs \<Longrightarrow>
    stream_step n_msgs n_subs s (s\<lparr>ppc := PScan (producer_seq (ring s)) 0 U64_MAX (number clk (length (committed s)))\<rparr>)"
| consumes: "cpcs s cid = CIdle \<Longrightarrow> cid < n_subs \<Longrightarrow> length (got s cid) < n_msgs \<Longrightarrow>
    cid < length (consumers (ring s)) \<Longrightarrow> x = consumers (ring s) ! cid \<Longrightarrow> x \<noteq> CONSUMER_FREE \<Longrightarrow>
    stream_step n_msgs n_subs s (s\<lparr>cpcs := (cpcs s)(cid := CLoaded x)\<rparr>)"
| inside: "conc_step s l t \<Longrightarrow> inside_calls s t \<Longrightarrow> stream_step n_msgs n_subs s t"

inductive stream_reach :: "nat \<Rightarrow> nat \<Rightarrow> Conc \<Rightarrow> Conc \<Rightarrow> bool" for n_msgs n_subs s0 where
  begins: "stream_reach n_msgs n_subs s0 s0"
| goes_on: "stream_reach n_msgs n_subs s0 s \<Longrightarrow> stream_step n_msgs n_subs s t \<Longrightarrow> stream_reach n_msgs n_subs s0 t"

text \<open>
  The states of such a test: the consumers register on a fresh ring, whose ids are unwrapped, and the threads start. The
  two tests differ in the numbers of messages and of consumers.
\<close>

definition stream_test :: "nat \<Rightarrow> nat \<Rightarrow> Conc \<Rightarrow> bool" where
  "stream_test n_msgs n_subs s \<longleftrightarrow> (\<exists>ids r. register_times n_subs ring_new [] = Ret (ids, r) \<and>
     stream_reach n_msgs n_subs (conc_init (registered n_subs) r) s)"

definition concurrent_producer_consumer_streams_in_order :: "Conc \<Rightarrow> bool" where
  "concurrent_producer_consumer_streams_in_order = stream_test 100000 1"

definition fan_out_to_many_consumers :: "Conc \<Rightarrow> bool" where
  "fan_out_to_many_consumers = stream_test 10000 4"

section \<open>Every run is a run of the ring\<close>

lemma stream_step_conc: "stream_step n_msgs n_subs s t \<Longrightarrow> \<exists>l. conc_step s l t"
proof (induction rule: stream_step.induct)
  case (publishes s clk)
  then show ?case using p_start [of s "number clk (length (committed s))"] by (auto simp: number_def pub_args_def PAYLOAD_CAP_def)
next
  case (consumes s cid x)
  then show ?case using c_load [of s cid x] by blast
qed blast

lemma stream_reach_conc: "stream_reach n_msgs n_subs s0 s \<Longrightarrow> conc_reach s0 s"
  by (induction rule: stream_reach.induct) (auto intro: conc_reach.intros dest: stream_step_conc)

section \<open>What is published\<close>

definition numbered :: "Msg list \<Rightarrow> bool" where
  "numbered ms \<longleftrightarrow> (\<forall>i<length ms. m_payload (ms ! i) = to_le_bytes 8 (word_of_nat i :: u64))"

definition stream_ok :: "nat \<Rightarrow> Conc \<Rightarrow> bool" where
  "stream_ok n_msgs s \<longleftrightarrow> numbered (committed s) \<and> length (committed s) \<le> n_msgs \<and>
     (case ppc s of
        PScan x i m p \<Rightarrow> length (committed s) < n_msgs \<and> (\<exists>clk. p = number clk (length (committed s)))
      | PWrite x p todo \<Rightarrow> length (committed s) < n_msgs \<and> (\<exists>clk. p = number clk (length (committed s)))
      | _ \<Rightarrow> True)"

lemma numbered_snoc: "numbered ms \<Longrightarrow> m_payload m = to_le_bytes 8 (word_of_nat (length ms) :: u64) \<Longrightarrow> numbered (ms @ [m])"
  by (auto simp: numbered_def nth_append less_Suc_eq)

lemma stream_ok_inside:
  assumes "conc_step s l t" and "inside_calls s t" and "stream_ok n_msgs s"
  shows "stream_ok n_msgs t"
  using assms(1)
proof cases
  case (p_commit x p)
  with assms(3) numbered_snoc [of "committed s" "args_msg p"] show ?thesis
    by (auto simp: stream_ok_def args_msg_def number_def pub_args_def)
qed (use assms(2,3) in \<open>auto simp: stream_ok_def inside_calls_def split: ProdPc.splits\<close>)

lemma stream_ok_reach: "stream_reach n_msgs n_subs s0 s \<Longrightarrow> stream_ok n_msgs s0 \<Longrightarrow> stream_ok n_msgs s"
proof (induction rule: stream_reach.induct)
  case (goes_on s t)
  from goes_on(2) goes_on.IH [OF goes_on.prems] show ?case
  proof cases
    case (inside l)
    with stream_ok_inside goes_on.IH [OF goes_on.prems] show ?thesis by blast
  qed (auto simp: stream_ok_def split: ProdPc.splits)
qed

section \<open>The assertions\<close>

text \<open>The state after the registrations of the test.\<close>

lemma stream_start:
  assumes "register_times n_subs ring_new [] = Ret (ids, r)" and "n_subs \<le> MAX_CONSUMERS"
  shows "ids = [0..<n_subs]" and "ring_rel (registered n_subs) r"
    and "cid < n_subs \<Longrightarrow> start_positions r cid = 0"
    and "cid < MAX_CONSUMERS \<Longrightarrow> \<not> cid < n_subs \<Longrightarrow> consumers r ! cid = CONSUMER_FREE"
proof -
  have "ring_rel (registered 0) ring_new" using ring_rel_new by (simp add: registered_0)
  from register_times_ok [OF this, of n_subs "[]"] assms
  show ids: "ids = [0..<n_subs]" and rel: "ring_rel (registered n_subs) r" by auto
  have "cursor_rel 0 (positions (registered n_subs) ! cid) (consumers r ! cid)" if "cid < MAX_CONSUMERS"
    using list_all2_nthD [OF ring_relD(5) [OF rel], of cid] length_registered [OF assms(2)] that
    by (simp add: registered_def)
  with assms(2) show "cid < n_subs \<Longrightarrow> start_positions r cid = 0"
    and "cid < MAX_CONSUMERS \<Longrightarrow> \<not> cid < n_subs \<Longrightarrow> consumers r ! cid = CONSUMER_FREE"
    by (simp_all add: registered_nth start_positions_def)
qed

lemma free_position: "start_positions r cid \<le> k \<Longrightarrow> consumers r ! cid = CONSUMER_FREE \<Longrightarrow> 2 ^ 64 - 1 \<le> k"
  using unat_U64_MAX by (simp add: start_positions_def CONSUMER_FREE_def)

lemma check_next_ok:
  assumes "data_ok d" and "m_payload (msg_of_data d) = to_le_bytes 8 (w :: u64)"
  shows "check_next d w = Ret ()"
proof -
  have pl: "take (unat (d_payload_len d)) (d_payload d) = to_le_bytes 8 w"
    using assms(2) by (simp add: msg_of_data_def)
  moreover have "unat (d_payload_len d) = 8"
    using assms(1) arg_cong [OF pl, of length] by (simp add: data_ok_def)
  ultimately show ?thesis using assms(1) by (simp add: check_next_def data_ok_def PAYLOAD_CAP_def)
qed

text \<open>What holds in every state of a test.\<close>

lemma stream_inv:
  assumes "register_times n_subs ring_new [] = Ret (ids, r)" and "n_subs \<le> MAX_CONSUMERS" and "n_msgs < 2 ^ 64 - 1"
    and "stream_reach n_msgs n_subs (conc_init (registered n_subs) r) s"
  shows "numbered (committed s)" "length (committed s) \<le> n_msgs" "length (committed s) < 2 ^ 64 - 1"
    "conc_inv (start_positions r) s" "started (start_positions r) s"
proof -
  have "stream_ok n_msgs (conc_init (registered n_subs) r)"
    by (simp add: stream_ok_def conc_init_def numbered_def registered_def)
  from stream_ok_reach [OF assms(4) this] show ok: "numbered (committed s)" "length (committed s) \<le> n_msgs"
    by (simp_all add: stream_ok_def)
  with assms(3) show small: "length (committed s) < 2 ^ 64 - 1" by simp
  show "conc_inv (start_positions r) s" "started (start_positions r) s"
    using reachable_inv [OF stream_start(2) [OF assms(1,2)] stream_reach_conc [OF assms(4)] small] by simp_all
qed

text \<open>A registered consumer has been handed the messages before its cursor; nobody else is registered.\<close>

lemma stream_consumer:
  assumes "register_times n_subs ring_new [] = Ret (ids, r)" and "n_subs \<le> MAX_CONSUMERS" and "n_msgs < 2 ^ 64 - 1"
    and "stream_reach n_msgs n_subs (conc_init (registered n_subs) r) s"
    and "cid < MAX_CONSUMERS" and "consumers (ring s) ! cid \<noteq> CONSUMER_FREE"
  shows "cid < n_subs" and "length (got s cid) = seen (consumers (ring s) ! cid) (cpcs s cid)"
proof -
  note start = stream_start [OF assms(1,2)] and inv = stream_inv [OF assms(1-4)]
  let ?c = "consumers (ring s) ! cid"
  have "start_positions r cid \<le> unat ?c" using inv(5) assms(5,6) by (auto simp: started_def)
  moreover have "unat ?c \<le> length (committed s)"
    using reading_window(1) [OF inv(4), of cid ?c] assms(5,6) by (simp add: reading_ok_def)
  ultimately show n: "cid < n_subs"
    using free_position [of r cid "unat ?c"] start(4) [OF assms(5)] inv(3) by fastforce
  have "got_ok (committed s) 0 (seen ?c (cpcs s cid)) (got s cid)"
    using conc_invD(7) [OF inv(4) assms(5,6)] start(3) [OF n] by simp
  then show "length (got s cid) = seen ?c (cpcs s cid)"
    using seen_le [OF inv(4) assms(5,6)] by (simp add: got_ok_def)
qed

text \<open>
  C30: the tests with threads hold in every interleaving. With up to 64 consumers registered before the threads start,
  whenever a consumer is about to run its callback the assertion in it holds: the message is the next number, untorn; and no call of
  \<open>consume_one\<close> ever reports that it fell behind.
\<close>

theorem thread_tests_hold:
  assumes "stream_test n_msgs n_subs s" and "n_subs \<le> MAX_CONSUMERS" and "n_msgs < 2 ^ 64 - 1"
  shows "(cpcs s cid = CReading x [] d \<longrightarrow> check_next d (word_of_nat (length (got s cid))) = Ret ()) \<and>
    cpcs s cid \<noteq> CFell \<and> length (committed s) \<le> n_msgs"
proof -
  obtain ids r where r: "register_times n_subs ring_new [] = Ret (ids, r)"
    "stream_reach n_msgs n_subs (conc_init (registered n_subs) r) s" using assms(1) by (auto simp: stream_test_def)
  note inv = stream_inv [OF r(1) assms(2,3) r(2)]
  have "check_next d (word_of_nat (length (got s cid))) = Ret ()" if pc: "cpcs s cid = CReading x [] d"
  proof -
    have x: "reading_ok (length (committed s)) (ring s) cid x" "unat x < length (committed s)"
      "\<forall>f. field_eq f (data (slots (ring s) ! (unat x mod RING_SIZE))) d"
      using conc_invD(6) [OF inv(4), of cid] pc by simp_all
    then have "cid < MAX_CONSUMERS" "consumers (ring s) ! cid = x" "x \<noteq> CONSUMER_FREE"
      by (simp_all add: reading_ok_def)
    with stream_consumer(2) [OF r(1) assms(2,3) r(2)] pc have n: "length (got s cid) = unat x" by simp
    have "d = data (slots (ring s) ! (unat x mod RING_SIZE))" by (rule all_fields_eq [OF x(3)])
    then have "data_ok d" using ring_shapeD(3) [OF conc_invD(1) [OF inv(4)]] by simp
    moreover have "m_payload (msg_of_data d) = to_le_bytes 8 (word_of_nat (unat x) :: u64)"
      using inv_c_call(2) [OF inv(4) pc] inv(1) x(2) by (simp add: numbered_def)
    ultimately show ?thesis using check_next_ok n by simp
  qed
  moreover have "cpcs s cid \<noteq> CFell"
    using conc_invD(6) [OF inv(4), of cid] by auto
  ultimately show ?thesis using inv(2) by blast
qed

section \<open>The tests can end\<close>

lemma within_stream: "conc_within s t \<Longrightarrow> stream_reach n_msgs n_subs s t"
  by (induction rule: conc_within.induct) (auto intro: stream_reach.intros stream_step.inside)

lemma stream_trans: "stream_reach n_msgs n_subs s t \<Longrightarrow> stream_reach n_msgs n_subs t u \<Longrightarrow> stream_reach n_msgs n_subs s u"
  by (rotate_tac, induction rule: stream_reach.induct) (auto intro: stream_reach.intros)

lemma stream_one: "stream_step n_msgs n_subs s t \<Longrightarrow> stream_reach n_msgs n_subs t u \<Longrightarrow> stream_reach n_msgs n_subs s u"
  using stream_trans goes_on [OF begins] by blast

text \<open>A thread inside a call leaves it by its own steps.\<close>

lemma write_finishes:
  assumes "ppc s = PWrite x p todo" and "slot_index x < length (slots (ring s))"
  shows "\<exists>t. conc_within s t \<and> ppc t = PIdle \<and> cpcs t = cpcs s"
proof -
  let ?s1 = "s\<lparr>ring := set_data (ring s) (slot_index x) (fold (write_field p) todo (data (slots (ring s) ! slot_index x))),
      ppc := PWrite x p []\<rparr>"
  let ?s2 = "?s1\<lparr>ring := set_seq (ring ?s1) (slot_index x) (x + 1), ppc := PHead x, committed := committed ?s1 @ [args_msg p]\<rparr>"
  let ?s3 = "?s2\<lparr>ring := (ring ?s2)\<lparr>producer_seq := x + 1\<rparr>, ppc := PIdle\<rparr>"
  have "conc_within s ?s1" by (rule write_run [OF assms])
  moreover have "conc_step ?s1 (Commits (args_msg p)) ?s2" by (rule p_commit) simp
  moreover have "conc_step ?s2 Internal ?s3" by (rule p_head) simp
  moreover have "inside_calls ?s1 ?s2" "inside_calls ?s2 ?s3" by (simp_all add: inside_calls_def)
  ultimately have "conc_within s ?s3" by (meson within_trans w_step)
  then show ?thesis by (intro exI [of _ ?s3]) simp
qed

lemma producer_finishes:
  assumes inv: "conc_inv st s"
  shows "\<exists>t. conc_within s t \<and> ppc t = PIdle \<and> cpcs t = cpcs s"
proof (cases "ppc s")
  case PIdle
  then show ?thesis using w_start by blast
next
  case (PWrite x p todo)
  then show ?thesis using write_finishes ring_shapeD(1) [OF conc_invD(1) [OF inv]] by simp
next
  case (PHead x)
  let ?t = "s\<lparr>ring := (ring s)\<lparr>producer_seq := x + 1\<rparr>, ppc := PIdle\<rparr>"
  have "conc_step s Internal ?t" by (rule p_head [OF PHead])
  moreover have "inside_calls s ?t" by (simp add: inside_calls_def)
  ultimately have "conc_within s ?t" by (rule w_step [OF w_start])
  then show ?thesis by (intro exI [of _ ?t]) simp
next
  case (PScan x i m p)
  let ?n = "length (consumers (ring s))"
  let ?m = "scan_min m (drop i (consumers (ring s)))"
  let ?s1 = "s\<lparr>ppc := PScan x ?n ?m p\<rparr>"
  have i: "i \<le> ?n" using conc_invD(5) [OF inv] PScan ring_shapeD(2) [OF conc_invD(1) [OF inv]] by simp
  have run: "conc_within s ?s1" by (rule scan_run [OF PScan i])
  show ?thesis
  proof (cases "?m \<noteq> U64_MAX \<and> as_u64 RING_SIZE \<le> x - ?m")
    case True
    have "conc_step ?s1 Internal (?s1\<lparr>ppc := PIdle\<rparr>)" by (rule p_reject [of _ x ?n ?m p]) (use True in simp_all)
    moreover have "inside_calls ?s1 (?s1\<lparr>ppc := PIdle\<rparr>)" by (simp add: inside_calls_def)
    ultimately have "conc_within s (?s1\<lparr>ppc := PIdle\<rparr>)" by (rule w_step [OF run])
    then show ?thesis by (intro exI [of _ "?s1\<lparr>ppc := PIdle\<rparr>"]) simp
  next
    case False
    let ?s2 = "?s1\<lparr>ppc := PWrite x p program_order\<rparr>"
    have "conc_step ?s1 Internal ?s2"
      by (rule p_accept [of _ x ?n ?m p]) (use False set_program_order in simp_all)
    moreover have "inside_calls ?s1 ?s2" by (simp add: inside_calls_def)
    ultimately have "conc_within s ?s2" by (rule w_step [OF run])
    moreover obtain t where "conc_within ?s2 t" "ppc t = PIdle" "cpcs t = cpcs ?s2"
      using write_finishes [of ?s2 x p program_order] ring_shapeD(1) [OF conc_invD(1) [OF inv]] by auto
    ultimately show ?thesis using within_trans by (intro exI [of _ t]) simp
  qed
qed

lemma done_finishes:
  assumes "cpcs s cid = CDone x"
  shows "\<exists>t. conc_within s t \<and> cpcs t = (cpcs s)(cid := CIdle) \<and> ppc t = ppc s"
proof -
  let ?t = "s\<lparr>ring := (ring s)\<lparr>consumers := (consumers (ring s))[cid := x + 1]\<rparr>, cpcs := (cpcs s)(cid := CIdle)\<rparr>"
  have "conc_step s (Takes cid (last (got s cid))) ?t" by (rule c_store [OF assms])
  moreover have "inside_calls s ?t" by (simp add: inside_calls_def)
  ultimately have "conc_within s ?t" by (rule w_step [OF w_start])
  then show ?thesis by (intro exI [of _ ?t]) simp
qed

lemma reading_finishes:
  assumes "cpcs s cid = CReading x todo acc"
  shows "\<exists>t. conc_within s t \<and> cpcs t = (cpcs s)(cid := CIdle) \<and> ppc t = ppc s"
proof -
  let ?acc = "fold (\<lambda>f. read_field f (data (slots (ring s) ! slot_index x))) todo acc"
  let ?s1 = "s\<lparr>cpcs := (cpcs s)(cid := CReading x [] ?acc)\<rparr>"
  let ?s2 = "?s1\<lparr>cpcs := (cpcs ?s1)(cid := CDone x), got := (got ?s1)(cid := got ?s1 cid @ [msg_of_data ?acc])\<rparr>"
  have "conc_within s ?s1" by (rule read_run [OF assms])
  moreover have "conc_step ?s1 Internal ?s2" by (rule c_call) simp
  moreover have "inside_calls ?s1 ?s2" by (simp add: inside_calls_def)
  ultimately have "conc_within s ?s2" by (meson w_step)
  moreover obtain t where "conc_within ?s2 t" "cpcs t = (cpcs ?s2)(cid := CIdle)" "ppc t = ppc ?s2"
    using done_finishes [of ?s2 cid x] by auto
  ultimately show ?thesis using within_trans by (intro exI [of _ t]) simp
qed

lemma consumer_finishes:
  assumes inv: "conc_inv st s" and small: "length (committed s) < 2 ^ 64 - 1"
  shows "\<exists>t. conc_within s t \<and> cpcs t = (cpcs s)(cid := CIdle) \<and> ppc t = ppc s"
proof (cases "cpcs s cid")
  case CIdle
  then have "(cpcs s)(cid := CIdle) = cpcs s" by (rule fun_upd_idem)
  then show ?thesis using w_start by (intro exI [of _ s]) simp
next
  case (CLoaded x)
  then have ok: "reading_ok (length (committed s)) (ring s) cid x" using conc_invD(6) [OF inv, of cid] by simp
  show ?thesis
  proof (cases "unat x < length (committed s)")
    case True
    let ?s1 = "s\<lparr>cpcs := (cpcs s)(cid := CReading x program_order slot_zeroed)\<rparr>"
    have "conc_step s Internal ?s1"
      by (rule c_ready [OF CLoaded live_seq_at(1) [OF inv ok small True] set_program_order])
    moreover have "inside_calls s ?s1" using CLoaded by (simp add: inside_calls_def)
    ultimately have "conc_within s ?s1" by (rule w_step [OF w_start])
    moreover obtain t where "conc_within ?s1 t" "cpcs t = (cpcs ?s1)(cid := CIdle)" "ppc t = ppc ?s1"
      using reading_finishes [of ?s1 cid x program_order slot_zeroed] by auto
    ultimately show ?thesis using within_trans by (intro exI [of _ t]) simp
  next
    case False
    let ?s1 = "s\<lparr>cpcs := (cpcs s)(cid := CIdle)\<rparr>"
    have "unat x = length (committed s)" using False reading_window(1) [OF inv ok] by simp
    then have "conc_step s Internal ?s1" by (rule c_false [OF CLoaded live_seq_at(2) [OF inv ok small]])
    moreover have "inside_calls s ?s1" by (simp add: inside_calls_def)
    ultimately have "conc_within s ?s1" by (rule w_step [OF w_start])
    then show ?thesis by (intro exI [of _ ?s1]) simp
  qed
next
  case (CReading x todo acc)
  then show ?thesis by (rule reading_finishes)
next
  case (CDone x)
  then show ?thesis by (rule done_finishes)
next
  case CFell
  with conc_invD(6) [OF inv, of cid] show ?thesis by simp
qed

text \<open>Registered consumers stay registered.\<close>

lemma registered_step:
  assumes "conc_step s l t" and inv: "conc_inv st s" and n: "length (committed s) < 2 ^ 64 - 1"
    and reg: "consumers (ring s) ! j \<noteq> CONSUMER_FREE"
  shows "consumers (ring t) ! j \<noteq> CONSUMER_FREE"
  using assms(1)
proof cases
  case (c_store cid x)
  then have x: "cid < MAX_CONSUMERS" "unat x < length (committed s)"
    using conc_invD(6) [OF inv, of cid] by (simp_all add: reading_ok_def)
  then have "unat (x + 1) \<noteq> unat CONSUMER_FREE"
    using n unfolding CONSUMER_FREE_def unat_U64_MAX by (simp add: u64_add_one)
  then have "x + 1 \<noteq> CONSUMER_FREE" by metis
  with c_store reg x ring_shapeD(2) [OF conc_invD(1) [OF inv]] show ?thesis
    by (cases "j = cid") simp_all
qed (use reg in simp_all)

definition test_state :: "nat \<Rightarrow> nat \<Rightarrow> Ring \<Rightarrow> Conc \<Rightarrow> bool" where
  "test_state n_msgs n_subs r s \<longleftrightarrow> register_times n_subs ring_new [] = Ret ([0..<n_subs], r) \<and> n_subs \<le> MAX_CONSUMERS \<and>
     n_msgs < 2 ^ 64 - 1 \<and> stream_reach n_msgs n_subs (conc_init (registered n_subs) r) s"

lemma test_state_reach:
  "test_state n_msgs n_subs r s \<Longrightarrow> stream_reach n_msgs n_subs s t \<Longrightarrow> test_state n_msgs n_subs r t"
  unfolding test_state_def using stream_trans by blast

lemma test_state_inv:
  assumes "test_state n_msgs n_subs r s"
  shows "length (committed s) \<le> n_msgs" "length (committed s) < 2 ^ 64 - 1" "conc_inv (start_positions r) s"
    "cid < MAX_CONSUMERS \<Longrightarrow> consumers (ring s) ! cid \<noteq> CONSUMER_FREE \<Longrightarrow>
       cid < n_subs \<and> length (got s cid) = seen (consumers (ring s) ! cid) (cpcs s cid)"
    "length (consumers (ring s)) = MAX_CONSUMERS"
  using stream_inv [of n_subs "[0..<n_subs]" r n_msgs s] stream_consumer [of n_subs "[0..<n_subs]" r n_msgs s cid] assms
    ring_shapeD(2) [OF conc_invD(1), of "start_positions r" s]
  by (auto simp: test_state_def)

lemma stream_registered:
  "\<lbrakk>stream_reach n_msgs n_subs s0 s; register_times n_subs ring_new [] = Ret (ids, r); n_subs \<le> MAX_CONSUMERS;
    n_msgs < 2 ^ 64 - 1; s0 = conc_init (registered n_subs) r; cid < n_subs\<rbrakk> \<Longrightarrow>
   consumers (ring s) ! cid \<noteq> CONSUMER_FREE"
proof (induction rule: stream_reach.induct)
  case begins
  then have "unat (consumers r ! cid) = 0" using stream_start(3) [of n_subs ids r cid] by (simp add: start_positions_def)
  then have "consumers r ! cid \<noteq> CONSUMER_FREE" using unat_U64_MAX by (auto simp: CONSUMER_FREE_def)
  with begins show ?case by (simp add: conc_init_def)
next
  case (goes_on s t)
  obtain l where "conc_step s l t" using stream_step_conc [OF goes_on(2)] by blast
  moreover have "stream_reach n_msgs n_subs (conc_init (registered n_subs) r) s" using goes_on by simp
  note inv = stream_inv [OF goes_on.prems(1-3) this]
  ultimately show ?case using registered_step [OF _ inv(4,3)] goes_on by blast
qed

lemma test_registered: "test_state n_msgs n_subs r s \<Longrightarrow> cid < n_subs \<Longrightarrow> consumers (ring s) ! cid \<noteq> CONSUMER_FREE"
  by (rule stream_registered) (auto simp: test_state_def)

text \<open>First every thread leaves its call.\<close>

definition quiet :: "Conc \<Rightarrow> bool" where
  "quiet s \<longleftrightarrow> ppc s = PIdle \<and> cpcs s = (\<lambda>_. CIdle)"

lemma consumers_finish:
  "test_state n_msgs n_subs r s \<Longrightarrow> \<exists>t. stream_reach n_msgs n_subs s t \<and> (\<forall>cid<n. cpcs t cid = CIdle)"
proof (induction n)
  case 0
  then show ?case using begins by blast
next
  case (Suc n)
  then obtain t where t: "stream_reach n_msgs n_subs s t" "\<forall>cid<n. cpcs t cid = CIdle" by blast
  note inv = test_state_inv [OF test_state_reach [OF Suc.prems t(1)]]
  obtain u where "conc_within t u" "cpcs u = (cpcs t)(n := CIdle)" using consumer_finishes [OF inv(3,2)] by blast
  with t stream_trans within_stream show ?case by (intro exI [of _ u]) (auto simp: less_Suc_eq)
qed

lemma becomes_quiet:
  assumes "test_state n_msgs n_subs r s"
  shows "\<exists>t. stream_reach n_msgs n_subs s t \<and> quiet t"
proof -
  obtain t where t: "stream_reach n_msgs n_subs s t" "\<forall>cid<MAX_CONSUMERS. cpcs t cid = CIdle"
    using consumers_finish [OF assms] by blast
  note inv = test_state_inv [OF test_state_reach [OF assms t(1)]]
  have "cpcs t cid = CIdle" for cid
    using t(2) conc_invD(6) [OF inv(3), of cid] by (cases "cpcs t cid") (auto simp: reading_ok_def)
  then have "cpcs t = (\<lambda>_. CIdle)" by auto
  moreover obtain u where "conc_within t u" "ppc u = PIdle" "cpcs u = cpcs t" using producer_finishes [OF inv(3)] by blast
  ultimately show ?thesis using t(1) stream_trans within_stream unfolding quiet_def by metis
qed

text \<open>Then the consumers read what has been published.\<close>

lemma consumes_next:
  assumes ts: "test_state n_msgs n_subs r s" and q: "quiet s" and cid: "cid < n_subs"
    and less: "unat (consumers (ring s) ! cid) < length (committed s)"
  shows "\<exists>t. stream_reach n_msgs n_subs s t \<and> quiet t \<and> committed t = committed s \<and>
    consumers (ring t) = (consumers (ring s))[cid := consumers (ring s) ! cid + 1]"
proof -
  let ?x = "consumers (ring s) ! cid"
  let ?t = "s\<lparr>ring := (ring s)\<lparr>consumers := (consumers (ring s))[cid := ?x + 1]\<rparr>,
       got := (got s)(cid := got s cid @ [msg_of_data (data (slots (ring s) ! slot_index ?x))])\<rparr>"
  note inv = test_state_inv [OF ts]
  have pc: "cpcs s cid = CIdle" "ppc s = PIdle" using q by (simp_all add: quiet_def)
  have reg: "?x \<noteq> CONSUMER_FREE" by (rule test_registered [OF ts cid])
  have max: "cid < MAX_CONSUMERS" using cid ts by (simp add: test_state_def)
  have ok: "reading_ok (length (committed s)) (ring s) cid ?x" using reg max by (simp add: reading_ok_def)
  have "length (got s cid) = unat ?x" using inv(4) [OF max reg] pc by simp
  then have "stream_step n_msgs n_subs s (s\<lparr>cpcs := (cpcs s)(cid := CLoaded ?x)\<rparr>)"
    using max inv(1,5) less by (intro consumes [OF pc(1) cid _ _ refl reg]) simp_all
  moreover have "conc_within (s\<lparr>cpcs := (cpcs s)(cid := CLoaded ?x)\<rparr>) ?t"
    by (rule consume_within [OF pc(1)]) (use max inv(5) live_seq_at(1) [OF inv(3) ok inv(2) less] in simp_all)
  ultimately have "stream_reach n_msgs n_subs s ?t" by (meson stream_one within_stream)
  then show ?thesis using q by (intro exI [of _ ?t]) (simp add: quiet_def)
qed

lemma consumer_catches_up:
  "\<lbrakk>test_state n_msgs n_subs r s; quiet s; cid < n_subs\<rbrakk> \<Longrightarrow>
   \<exists>t. stream_reach n_msgs n_subs s t \<and> quiet t \<and> committed t = committed s \<and>
     unat (consumers (ring t) ! cid) = length (committed s) \<and>
     (\<forall>j. j \<noteq> cid \<longrightarrow> consumers (ring t) ! j = consumers (ring s) ! j)"
proof (induction "length (committed s) - unat (consumers (ring s) ! cid)" arbitrary: s rule: less_induct)
  case less
  note inv = test_state_inv [OF less.prems(1)]
  have max: "cid < MAX_CONSUMERS" using less.prems(1,3) by (simp add: test_state_def)
  have le: "unat (consumers (ring s) ! cid) \<le> length (committed s)"
    using reading_window(1) [OF inv(3), of cid] test_registered [OF less.prems(1,3)] max by (simp add: reading_ok_def)
  show ?case
  proof (cases "unat (consumers (ring s) ! cid) = length (committed s)")
    case True
    then show ?thesis using less.prems(2) begins by blast
  next
    case False
    with le have lt: "unat (consumers (ring s) ! cid) < length (committed s)" by simp
    obtain t where t: "stream_reach n_msgs n_subs s t" "quiet t" "committed t = committed s"
      "consumers (ring t) = (consumers (ring s))[cid := consumers (ring s) ! cid + 1]"
      using consumes_next [OF less.prems lt] by blast
    have "unat (consumers (ring t) ! cid) = Suc (unat (consumers (ring s) ! cid))"
      using t(4) max inv(2,5) lt by (simp add: u64_add_one)
    then have "length (committed t) - unat (consumers (ring t) ! cid) < length (committed s) - unat (consumers (ring s) ! cid)"
      using lt t(3) by simp
    from less.hyps [OF this test_state_reach [OF less.prems(1) t(1)] t(2) less.prems(3)] obtain u where
      "stream_reach n_msgs n_subs t u" "quiet u" "committed u = committed t"
      "unat (consumers (ring u) ! cid) = length (committed t)" "\<forall>j. j \<noteq> cid \<longrightarrow> consumers (ring u) ! j = consumers (ring t) ! j"
      by blast
    with t stream_trans [OF t(1)] show ?thesis by (intro exI [of _ u]) auto
  qed
qed

definition caught_up :: "nat \<Rightarrow> Conc \<Rightarrow> bool" where
  "caught_up n s \<longleftrightarrow> (\<forall>cid<n. unat (consumers (ring s) ! cid) = length (committed s))"

lemma consumers_catch_up:
  "\<lbrakk>test_state n_msgs n_subs r s; quiet s; n \<le> n_subs\<rbrakk> \<Longrightarrow>
   \<exists>t. stream_reach n_msgs n_subs s t \<and> quiet t \<and> committed t = committed s \<and> caught_up n t"
proof (induction n)
  case 0
  then show ?case using begins by (auto simp: caught_up_def)
next
  case (Suc n)
  then obtain t where t: "stream_reach n_msgs n_subs s t" "quiet t" "committed t = committed s" "caught_up n t" by auto
  obtain u where "stream_reach n_msgs n_subs t u" "quiet u" "committed u = committed t"
    "unat (consumers (ring u) ! n) = length (committed t)" "\<forall>j. j \<noteq> n \<longrightarrow> consumers (ring u) ! j = consumers (ring t) ! j"
    using consumer_catches_up [OF test_state_reach [OF Suc.prems(1) t(1)] t(2), of n] Suc.prems(3) by auto
  with t stream_trans [OF t(1)] show ?case by (intro exI [of _ u]) (auto simp: caught_up_def less_Suc_eq)
qed

text \<open>And the next number is published.\<close>

lemma publishes_next:
  assumes ts: "test_state n_msgs n_subs r s" and q: "quiet s" and up: "caught_up n_subs s"
    and less: "length (committed s) < n_msgs"
  shows "\<exists>t. stream_reach n_msgs n_subs s t \<and> quiet t \<and> length (committed t) = Suc (length (committed s))"
proof -
  note inv = test_state_inv [OF ts]
  let ?bs = "to_le_bytes 8 (word_of_nat (length (committed s)) :: u64)"
  have pc: "ppc s = PIdle" using q by (simp add: quiet_def)
  have rel: "ring_rel (conc_log s) (ring s)" by (rule quiet_ring_rel [OF inv(3) pc inv(2)])
  have "\<not> lagging (conc_log s)"
  proof
    assume "lagging (conc_log s)"
    then obtain j where j: "j < MAX_CONSUMERS" "consumers (ring s) ! j \<noteq> CONSUMER_FREE"
      "unat (consumers (ring s) ! j) + RING_SIZE \<le> length (committed s)"
      using inv(5) by (auto simp: lagging_iff conc_log_def in_set_conv_nth split: if_splits)
    with inv(4) [OF j(1,2)] up show False by (simp add: caught_up_def)
  qed
  moreover have "Suc (length (msgs (conc_log s))) < 2 ^ 64 - 1"
    using less ts by (simp add: conc_log_def test_state_def)
  ultimately have "fst (publish (ring s) None 0 0 ?bs) = Inr ()"
    using publish_sim [OF rel, of None 0 0 ?bs] by (simp add: log_publish_def PAYLOAD_CAP_def)
  then obtain r' where "publish (ring s) None 0 0 ?bs = (Inr (), r')" by (cases "publish (ring s) None 0 0 ?bs") auto
  from publish_within [OF pc conc_invD(1) [OF inv(3)] this] publishes [OF pc less, of n_subs None]
  have "stream_reach n_msgs n_subs s (s\<lparr>ring := r', committed := committed s @ [stamped None 0 0 ?bs]\<rparr>)"
    unfolding number_def by (meson stream_one within_stream)
  then show ?thesis
    using q by (intro exI [of _ "s\<lparr>ring := r', committed := committed s @ [stamped None 0 0 ?bs]\<rparr>"]) (simp add: quiet_def)
qed

lemma all_published:
  "\<lbrakk>test_state n_msgs n_subs r s; quiet s\<rbrakk> \<Longrightarrow>
   \<exists>t. stream_reach n_msgs n_subs s t \<and> quiet t \<and> length (committed t) = n_msgs \<and> caught_up n_subs t"
proof (induction "n_msgs - length (committed s)" arbitrary: s)
  case 0
  then have "length (committed s) = n_msgs" using test_state_inv(1) [OF 0(2)] by simp
  with consumers_catch_up [OF 0(2,3) order_refl] show ?case by auto
next
  case (Suc k)
  obtain t where t: "stream_reach n_msgs n_subs s t" "quiet t" "committed t = committed s" "caught_up n_subs t"
    using consumers_catch_up [OF Suc.prems order_refl] by blast
  note tt = test_state_reach [OF Suc.prems(1) t(1)]
  have "length (committed t) < n_msgs" using Suc.hyps(2) unfolding t(3) by simp
  from publishes_next [OF tt t(2,4) this] t(3) obtain u where
    u: "stream_reach n_msgs n_subs t u" "quiet u" "length (committed u) = Suc (length (committed s))" by auto
  have "k = n_msgs - length (committed u)" using Suc.hyps(2) unfolding u(3) by linarith
  from Suc.hyps(1) [OF this test_state_reach [OF tt u(1)] u(2)] obtain v where
    "stream_reach n_msgs n_subs u v" "quiet v" "length (committed v) = n_msgs" "caught_up n_subs v" by blast
  then show ?case using stream_trans t(1) u(1) by blast
qed

text \<open>
  C31: the tests with threads can always end. From every state the threads can reach, they can go on to the state in which
  every thread has left its call, all numbers are published and every consumer has
  been handed each of them: no interleaving leads into a deadlock between the producer's retry
  loop and the consumers' wait.
\<close>

theorem thread_tests_can_end:
  assumes "stream_test n_msgs n_subs s" and "n_subs \<le> MAX_CONSUMERS" and "n_msgs < 2 ^ 64 - 1"
  shows "\<exists>t. stream_reach n_msgs n_subs s t \<and> ppc t = PIdle \<and> cpcs t = (\<lambda>_. CIdle) \<and> length (committed t) = n_msgs \<and>
    (\<forall>cid<n_subs. got t cid = committed t)"
proof -
  obtain ids r where r: "register_times n_subs ring_new [] = Ret (ids, r)"
    "stream_reach n_msgs n_subs (conc_init (registered n_subs) r) s" using assms(1) by (auto simp: stream_test_def)
  have ts: "test_state n_msgs n_subs r s" using r assms(2,3) stream_start(1) [OF r(1) assms(2)] by (simp add: test_state_def)
  obtain q where q: "stream_reach n_msgs n_subs s q" "quiet q" using becomes_quiet [OF ts] by blast
  obtain t where t: "stream_reach n_msgs n_subs q t" "quiet t" "length (committed t) = n_msgs" "caught_up n_subs t"
    using all_published [OF test_state_reach [OF ts q(1)] q(2)] by blast
  have st: "stream_reach n_msgs n_subs s t" by (rule stream_trans [OF q(1) t(1)])
  note tt = test_state_reach [OF ts st]
  have "got t cid = committed t" if cid: "cid < n_subs" for cid
  proof -
    have max: "cid < MAX_CONSUMERS" using cid assms(2) by simp
    note inv = test_state_inv [OF tt] and reg = test_registered [OF tt cid]
    have "got_ok (committed t) 0 (unat (consumers (ring t) ! cid)) (got t cid)"
      using conc_invD(7) [OF inv(3) max reg] stream_start(3) [OF r(1) assms(2) cid] t(2) by (simp add: quiet_def)
    with t(4) cid show ?thesis by (simp add: got_ok_def caught_up_def)
  qed
  with st t show ?thesis by (auto simp: quiet_def)
qed

theorem thread_tests_can_end_witness:
  "\<exists>t. fan_out_to_many_consumers t \<and> length (got t 3) = 10000"
proof -
  have "ring_rel (registered 0) ring_new" using ring_rel_new by (simp add: registered_0)
  from register_times_ok [OF this, of 4 "[]"] obtain r where r: "register_times 4 ring_new [] = Ret ([0..<4], r)"
    by (auto simp: MAX_CONSUMERS_def)
  have l: "4 \<le> MAX_CONSUMERS" "(10000 :: nat) < 2 ^ 64 - 1" by (simp_all add: MAX_CONSUMERS_def)
  have "stream_test 10000 4 (conc_init (registered 4) r)" using r begins by (auto simp: stream_test_def)
  from thread_tests_can_end [OF this l] obtain t where
    "stream_reach 10000 4 (conc_init (registered 4) r) t" "length (committed t) = 10000" "\<forall>cid<4. got t cid = committed t"
    by blast
  with r show ?thesis by (auto simp: fan_out_to_many_consumers_def stream_test_def)
qed

text \<open>One publication and one consumption up to the callback.\<close>

theorem thread_tests_hold_witness:
  "\<exists>s x d. concurrent_producer_consumer_streams_in_order s \<and> cpcs s 0 = CReading x [] d \<and> check_next d (word_of_nat (length (got s 0))) = Ret ()"
proof -
  obtain r where r: "register_consumer ring_new = (Inr 0, r)" and rel: "ring_rel (registered 1) r"
    by (rule register_fresh)
  then have reg: "register_times 1 ring_new [] = Ret ([0], r)" by simp
  let ?s0 = "conc_init (registered 1) r" and ?bs = "to_le_bytes 8 (word_of_nat 0 :: u64)"
  have l: "1 \<le> MAX_CONSUMERS" "(100000 :: nat) < 2 ^ 64 - 1" by (simp_all add: MAX_CONSUMERS_def)
  have s0: "ppc ?s0 = PIdle" "cpcs ?s0 0 = CIdle" "committed ?s0 = []" "ring ?s0 = r" "got ?s0 0 = []"
    by (simp_all add: conc_init_def registered_def)
  have "\<not> lagging (registered 1)" using lagging_registered [of "registered 1"] by (simp add: registered_def)
  with publish_sim [OF rel, of None 0 0 ?bs] have "fst (publish r None 0 0 ?bs) = Inr ()"
    by (simp add: log_publish_def PAYLOAD_CAP_def) (simp add: registered_def)
  then obtain r' where pub: "publish r None 0 0 ?bs = (Inr (), r')" by (cases "publish r None 0 0 ?bs") auto
  let ?s1 = "?s0\<lparr>ring := r', committed := [stamped None 0 0 ?bs]\<rparr>"
  have "conc_within (?s0\<lparr>ppc := PScan (producer_seq r) 0 U64_MAX (number None 0)\<rparr>) ?s1"
    using publish_within [OF s0(1), of None 0 0 ?bs r'] pub ring_relD(1) [OF rel]
    by (simp add: conc_init_def number_def registered_def)
  moreover have "stream_step 100000 1 ?s0 (?s0\<lparr>ppc := PScan (producer_seq r) 0 U64_MAX (number None 0)\<rparr>)"
    using publishes [OF s0(1), of 100000 1 None] by (simp add: conc_init_def registered_def)
  ultimately have s1: "stream_reach 100000 1 ?s0 ?s1" by (meson stream_one within_stream)
  note inv = stream_inv [OF reg l s1]
  have start: "start_positions r 0 = 0" by (rule stream_start(3) [OF reg l(1)]) simp
  have cs: "consumers r' = consumers r" using publish_consumers [of r None 0 0 ?bs] pub by simp
  let ?x = "consumers r' ! 0"
  have x: "unat ?x = 0" using start by (simp add: start_positions_def cs)
  then have free: "?x \<noteq> CONSUMER_FREE" using unat_U64_MAX by (auto simp: CONSUMER_FREE_def)
  have len: "length (consumers r') = MAX_CONSUMERS" using ring_shapeD(2) [OF conc_invD(1) [OF inv(4)]] by simp
  let ?s2 = "?s1\<lparr>cpcs := (cpcs ?s1)(0 := CLoaded ?x)\<rparr>"
  have "stream_step 100000 1 ?s1 ?s2"
    by (rule consumes) (use free len l(1) in \<open>simp_all add: conc_init_def\<close>)
  with s1 have s2: "stream_reach 100000 1 ?s0 ?s2" by (rule goes_on)
  have ready: "seq (slots (ring ?s2) ! slot_index ?x) = ?x + 1"
    using live_seq_at(1) [OF inv(4), of 0 ?x] inv(3) x free l(1) by (simp add: reading_ok_def)
  let ?s3 = "?s2\<lparr>cpcs := (cpcs ?s2)(0 := CReading ?x program_order slot_zeroed)\<rparr>"
  have w3: "conc_within ?s2 ?s3"
    by (rule w_step [OF w_start c_ready [OF _ ready set_program_order]]) (simp_all add: inside_calls_def)
  have "cpcs ?s3 0 = CReading ?x program_order slot_zeroed" by simp
  from read_run [OF this] obtain s d where s: "conc_within ?s3 s" "cpcs s 0 = CReading ?x [] d" by fastforce
  have "stream_reach 100000 1 ?s0 s" by (rule stream_trans [OF s2 within_stream [OF within_trans [OF w3 s(1)]]])
  with reg have "stream_test 100000 1 s" by (auto simp: stream_test_def)
  with thread_tests_hold [OF this l, of 0 ?x d] s(2) show ?thesis
    unfolding concurrent_producer_consumer_streams_in_order_def by blast
qed

end
