(* ===== verification/Spec2Isabelle.thy ===== *)
theory Spec2Isabelle
  imports Channel_Config Ring_Registrars Ring_Weak_Safety Ring_Props Market_Failure Market_Pipeline Bus_Fine Latency_Main Latency_Over_Bus Protocol_Tests Ring_Thread_Tests
begin

text \<open>
  Alta-Bus: a message bus for market data, in Rust. Publishers and subscribers connect over
  TCP; the bus copies every message a publisher sends into a lock-free ring, and one
  dispatch thread reads the ring and offers each message to the queues of the subscribers of
  its channel, from which one thread per subscriber writes to the socket. Two programs under
  \<open>bench/\<close> use the clients: a producer of simulated market data, and a benchmark of the one-way
  latency of the bus and of a redis server.

  \<^bold>\<open>Parts and theories.\<close>

  \<^item> \<open>Bus_Prelude\<close>: machine integers as words, panics as values (\<open>outcome\<close>), Rust's indexing,
    slicing and little-endian conversions, hash maps as association lists, the clock.
  \<^item> \<open>Codec\<close>, \<open>Header\<close>, \<open>Messages\<close> (\<open>protocol/src/codec.rs\<close>, \<open>header.rs\<close>, \<open>types.rs\<close>,
    \<open>messages/\<close>): the \<open>Encode\<close>/\<open>Decode\<close> contract as the locale \<open>codec\<close>, interpreted by the
    17-byte header, \<open>PriceTick\<close> and \<open>Heartbeat\<close>. An \<open>f64\<close> is its 64-bit pattern.
  \<^item> \<open>Channel_Config\<close> (\<open>protocol/src/config.rs\<close>): the channel directory.
  \<^item> \<open>Ring\<close> (\<open>bus/src/ring.rs\<close>): constants, slots, cursors and one definition per method. The
    wait loop of \<open>consume_one\<close> is a \<open>partial_function\<close> over the sequence of values its loads
    return; \<open>None\<close> is waiting forever.
  \<^item> \<open>Ring_Log\<close>, \<open>Ring_Run\<close>, \<open>Ring_Props\<close>: the abstract machine of the ring, an append-only log
    with a position for every registered consumer; the relation \<open>ring_rel\<close>; the simulation of every
    method; the locale \<open>broadcast\<close> with the laws a client relies on, interpreted by the
    ring; what runs of calls return; the behaviour of each method on each branch.
  \<^item> \<open>Ring_Conc\<close>, \<open>Ring_Safety\<close>, \<open>Ring_Interleaved\<close>: the same ring with the producer and the
    consumers interleaved, a step being one atomic access or one plain access to a field of a
    slot; the invariant; no data race, delivery, the simulation of the log with the two
    Release stores as the visible steps, and that the sequential methods are runs of steps.
  \<^item> \<open>Ring_Weak\<close>, \<open>Ring_Weak_Sim\<close>, \<open>Ring_Weak_Safety\<close>: the interleaved ring once more, under the memory model its
    \<open>Ordering\<close> arguments ask for: a load may return an old store, and vector clocks say what happens before what. Its
    runs are those of \<open>Ring_Conc\<close>, and the plain accesses of a slot are ordered.
  \<^item> \<open>Ring_Registration\<close>: registration while the ring is in use: the race that its two steps leave
    open among those of a publication, and its safety between publications, unregistration being left to consumers
    outside a call.
  \<^item> \<open>Ring_Registrars\<close>: any number of threads that register and unregister among the accesses of the others; the
    compare-and-exchange gives every id to one of them.
  \<^item> \<open>Net_Stream\<close>, \<open>Publisher_Client\<close>, \<open>Subscriber_Client\<close> (\<open>publisher-client/src/lib.rs\<close>,
    \<open>subscriber-client/src/lib.rs\<close>): sockets as byte lists with a point of failure, framing,
    the locale \<open>frame_reader\<close>, and the two clients.
  \<^item> \<open>Bus_Handlers\<close>, \<open>Bus_Connections\<close>, \<open>Bus_Dispatch\<close> (\<open>bus/src/main.rs\<close>): one definition
    for every function or loop body, the record \<open>Shared\<close> of what the threads share besides the ring,
    and the datatype \<open>Conn\<close> of where a connection's thread is. Payloads are read through arrays of 1024 bytes, whose
    slices panic beyond their end (\<open>read_into\<close>); the equations that end in \<open>_Ret\<close> and \<open>_eq\<close> show that the
    guards exclude it.
  \<^item> \<open>Bus_System\<close>, \<open>Bus_Invariant\<close>, \<open>Bus_Props\<close>: the whole bus as a step relation over those
    definitions, its invariant, and the properties of every reachable state.
  \<^item> \<open>Bus_Fine\<close>: the bus once more, with the publication and the dispatcher's \<open>consume_one\<close> interleaved access by access
    over \<open>Ring_Weak\<close>; its states are those of \<open>Bus_System\<close>, so the properties of that bus are its as well.
  \<^item> \<open>Bus_Subscriptions\<close>: what a subscription asked for and the registry entry it has, in every reachable state.
  \<^item> \<open>Bus_Relay\<close>: the run of the bus in which a publisher's messages are accepted, dispatched and written one by
    one, for any list of messages; no queue fills in it and everything arrives.
  \<^item> \<open>Float64\<close>, \<open>Float64_Bits\<close>: Rust's \<open>f64\<close> as a value, IEEE 754 binary64 rounded to nearest even:
    addition, multiplication, division, square root, comparison, the conversions from and to
    integers, literals and bit patterns. What the programs need of them is stated as lemmas on values.
  \<^item> \<open>Bench_Prelude\<close>: arithmetic with the overflow checks of a debug build as a flag, \<open>str::parse\<close>,
    the monotonic clock.
  \<^item> \<open>Market_Rng\<close>, \<open>Market_Instrument\<close>, \<open>Market_Producer\<close>, \<open>Market_Failure\<close> (\<open>bench/src/main.rs\<close>):
    the generator, the price walk of an instrument, the loop, with the grammar \<open>market_stream\<close> of what a run puts
    on the wire, and what happens when the connection breaks.
  \<^item> \<open>Market_Pipeline\<close>: the producer, the bus and a subscriber's client together.
  \<^item> \<open>Latency_Stats\<close>, \<open>Latency_Report\<close> (\<open>bench/src/bin/latency.rs\<close>): percentiles, mean, histogram, the summary
    and the comparison, with what is printed as values.
  \<^item> \<open>Latency_Args\<close>: the command line, and the same parser as a recursion over the arguments.
  \<^item> \<open>Latency_Bench\<close>, \<open>Latency_Measure\<close>: the clock, the rate control and the four \<open>bench_\<close> functions. The locales
    \<open>payload_sender\<close> and \<open>payload_receiver\<close> are what they rely on in a transport, interpreted by the clients of
    the bus, and by the redis package under its documented behaviour.
  \<^item> \<open>Latency_Rendezvous\<close>: how the publishing thread waits for the subscribers, the mutex and the condition variable
    step by step; the locale \<open>gate\<close>, interpreted by the flag and by the counter.
  \<^item> \<open>Latency_Main\<close>: \<open>main\<close> over all of these: what is printed, the lines before a panic included, and how it ends.
  \<^item> \<open>Latency_Over_Bus\<close>: the benchmark with the model of the bus between its publisher and its subscriber.
  \<^item> \<open>Test_Prelude\<close>, \<open>Protocol_Tests\<close>, \<open>Ring_Tests\<close>, \<open>Ring_Thread_Tests\<close>: the repository's unit tests, with a
    failed assertion as a panic. The sequential ones pass for all clock readings (lemmas \<open>protocol_tests_pass\<close> and
    \<open>ring_tests_pass\<close>, instances of what the other theories show); the assertions of the two with
    threads hold in every interleaving, for any number of messages and up to 64 consumers, and no
    interleaving is stuck before the end.

  \<^bold>\<open>Bounds.\<close> The ring's counters are 64-bit words and \<open>u64::MAX\<close> is the mark of a free entry, so
  the properties of the ring ask for fewer than \<open>2 ^ 64 - 1\<close> messages, and those of the bus for fewer
  than \<open>2 ^ 64\<close> subscriptions as well: \<open>ring_rel\<close>, the hypotheses on \<open>committed\<close>, and
  \<open>bus_small\<close> and \<open>fine_small\<close> say so. The other loops are structural, have a measure (the unread bytes of
  the stream), or are \<open>partial_function\<close>s whose return is characterised exactly. The properties
  of the producer ask for at most \<open>2 ^ 50\<close> turns, so that no volume overflows, and prices up
  to \<open>2 ^ 60\<close>, where a tick no longer changes the rounded price; those of the statistics for at most
  \<open>2 ^ 46\<close> samples and sums up to \<open>2 ^ 53\<close>, which floats represent exactly. \<open>reaches\<close> is what the rate control
  asks of the clock: it does not run backwards and passes every time of the schedule.

  \<^bold>\<open>Atomicity.\<close> In \<open>Ring_Conc\<close> atomic accesses interleave sequentially consistently and the
  plain accesses between two of them come in any order; the consumers are registered before the
  start, as the bus does, and \<open>Ring_Registration\<close> and \<open>Ring_Registrars\<close> add registration. In \<open>Bus_System\<close> a turn of a thread's loop is one step. For
  \<open>publish\<close> and \<open>consume_one\<close>, with the publish lock, \<open>Bus_Fine\<close> proves that this loses nothing; the registry lock
  justifies it for the fan-out, and of the other turns only the handshake of a subscriber touches what threads share more than
  once: the number it draws before it inserts its entry is its own. A registration that races with publications, which the bus
  never makes, is the subject of properties of their own.

  In \<open>Ring_Weak\<close> a store that has not been made cannot be loaded, which holds of all executions
  whose loads from other threads are Acquire loads of Release stores; the publish lock orders the publications,
  and the threads know what was done before they were spawned. Registration stays in the sequentially consistent model.

  In \<open>Latency_Rendezvous\<close> a step is one access under the mutex, one notification, or one turn of the wait.

  \<^bold>\<open>Not modelled.\<close> The operating system (TCP set-up, the listener, thread creation, \<open>set_nodelay\<close>,
  clocks, memory allocation), the TOML parser, the file system and the \<open>redis\<close> package are arguments or initial
  states, as is \<open>powi\<close>, whose precision Rust leaves open. The exact text of what is
  printed is left out, that a line is printed, and with which values, is kept. The pattern of
  a NaN is one fixed pattern. The sleep of the benchmark before it publishes is left out: what each subscriber
  receives is an argument. The unit test \<open>arc_share_is_sound\<close>, about which types
  threads may share, and the greeting of \<open>src/main.rs\<close> are not modelled.
\<close>

end
